(* ===== verification/Prelude.thy ===== *)
theory Prelude
  imports Main "HOL-Library.Word" "HOL-Library.Signed_Division"
begin

text \<open>
  Shared vocabulary of the development: the machine types of the i386 kernel
  (\<open>unsigned long\<close> and \<open>int\<close> are 32 bits wide, the only architecture under src/arch),
  the error numbers that the modelled functions return, the generic facts on lists and
  words that several components use, and the interface of a transition system with an
  inductive invariant as a locale.
\<close>

unbundle bit_operations_syntax

section \<open>Machine types and error numbers\<close>

type_synonym u8 = "8 word"
type_synonym u16 = "16 word"
type_synonym u32 = "32 word"
type_synonym ulong = "32 word"

text \<open>The numbers of include/asm-i386/errno.h that the modelled code returns, negated.\<close>

abbreviation (input) EPERM :: int where "EPERM \<equiv> 1"
abbreviation (input) ENOENT :: int where "ENOENT \<equiv> 2"
abbreviation (input) EINTR :: int where "EINTR \<equiv> 4"
abbreviation (input) E2BIG :: int where "E2BIG \<equiv> 7"
abbreviation (input) EAGAIN :: int where "EAGAIN \<equiv> 11"
abbreviation (input) ENOMEM :: int where "ENOMEM \<equiv> 12"
abbreviation (input) EACCES :: int where "EACCES \<equiv> 13"
abbreviation (input) EFAULT :: int where "EFAULT \<equiv> 14"
abbreviation (input) EBUSY :: int where "EBUSY \<equiv> 16"
abbreviation (input) EEXIST :: int where "EEXIST \<equiv> 17"
abbreviation (input) EINVAL :: int where "EINVAL \<equiv> 22"
abbreviation (input) EFBIG :: int where "EFBIG \<equiv> 27"
abbreviation (input) ENOSPC :: int where "ENOSPC \<equiv> 28"
abbreviation (input) ERANGE :: int where "ERANGE \<equiv> 34"
abbreviation (input) ENOMSG :: int where "ENOMSG \<equiv> 42"
abbreviation (input) EIDRM :: int where "EIDRM \<equiv> 43"

section \<open>Generic lemmas\<close>

lemma takeWhile_dropWhile_split:
  assumes "distinct xs"
  shows "set (takeWhile P xs) \<inter> set (dropWhile P xs) = {}"
  using assms by (metis distinct_append takeWhile_dropWhile_id)

lemma distinct_dropWhileI [intro]: "distinct xs \<Longrightarrow> distinct (dropWhile P xs)"
  by (metis distinct_append takeWhile_dropWhile_id)

lemma set_takeWhile_Un_dropWhile: "set (takeWhile P xs) \<union> set (dropWhile P xs) = set xs"
  by (metis set_append takeWhile_dropWhile_id)

lemma bit31_u32: "bit (uint (w :: u32)) 31 \<longleftrightarrow> 2 ^ 31 \<le> unat w"
proof -
  have r: "0 \<le> uint w" "uint w < 4294967296" using uint_lt2p [of w] by simp_all
  have "bit (uint w) 31 \<longleftrightarrow> odd (uint w div 2147483648)" by (simp add: bit_iff_odd)
  also have "\<dots> \<longleftrightarrow> 2147483648 \<le> uint w"
  proof (cases "2147483648 \<le> uint w")
    case True
    then have "uint w div 2147483648 = 1" using r by linarith
    with True show ?thesis by simp
  next
    case False
    then have "uint w div 2147483648 = 0" using r by linarith
    with False show ?thesis by simp
  qed
  also have "\<dots> \<longleftrightarrow> 2 ^ 31 \<le> unat w" by (simp add: le_nat_iff flip: nat_uint_eq)
  finally show ?thesis .
qed

lemma sint_neg_u32: "sint (w :: u32) < 0 \<longleftrightarrow> 2 ^ 31 \<le> unat w"
  using bit31_u32 [of w] by (simp add: sint_uint)

lemma sint_nonneg_u32: "0 \<le> sint (w :: u32) \<longleftrightarrow> unat w < 2 ^ 31"
  using sint_neg_u32 [of w] by linarith

lemma less_pow_u32: "k < 32 \<Longrightarrow> (w :: u32) < 2 ^ k \<longleftrightarrow> unat w < 2 ^ k"
  using unsigned_of_nat [where 'b = 32 and 'a = nat, of "2 ^ k"] by (simp add: word_less_nat_alt)

lemma slots_sum_update:
  assumes "i < n"
  shows "sum_list (map (f(i := x)) [0..<n]) = sum_list (map f [0..<n]) - f i + (x :: int)"
proof -
  have "sum (f(i := x)) {0..<n} = x + sum f ({0..<n} - {i})"
    using assms by (subst sum.remove [of _ i]) (auto intro!: sum.cong)
  moreover have "sum f {0..<n} = f i + sum f ({0..<n} - {i})" using assms by (subst sum.remove [of _ i]) auto
  ultimately show ?thesis by (simp add: interv_sum_list_conv_sum_set_nat)
qed

section \<open>Signed machine arithmetic\<close>

text \<open>
  A value of the C types \<open>int\<close> and \<open>short\<close> is an integer of the type's range; \<open>s32\<close> and
  \<open>s16\<close> bring the result of an operation back into it (gcc wraps around). Division and
  remainder of \<open>int\<close> truncate: they are \<open>sdiv\<close> and \<open>smod\<close>.
\<close>

definition s32 :: "int \<Rightarrow> int" where
  "s32 = signed_take_bit 31"

definition s16 :: "int \<Rightarrow> int" where
  "s16 = signed_take_bit 15"

lemma s32_id: "-2147483648 \<le> k \<Longrightarrow> k < 2147483648 \<Longrightarrow> s32 k = k"
  unfolding s32_def by (rule signed_take_bit_int_eq_self) simp_all

lemma s16_id: "-32768 \<le> k \<Longrightarrow> k < 32768 \<Longrightarrow> s16 k = k"
  unfolding s16_def by (rule signed_take_bit_int_eq_self) simp_all

lemma s32_range: "-2147483648 \<le> s32 k \<and> s32 k < 2147483648"
  unfolding s32_def
  using signed_take_bit_int_less_exp [of 31 k] signed_take_bit_int_greater_eq_minus_exp [of 31 k]
  by simp

lemma s16_range: "-32768 \<le> s16 k \<and> s16 k < 32768"
  unfolding s16_def
  using signed_take_bit_int_less_exp [of 15 k] signed_take_bit_int_greater_eq_minus_exp [of 15 k]
  by simp

lemma s32_add_diff: "s32 (s32 (k + l) - l) = s32 k"
  unfolding s32_def by (metis add_diff_cancel_right' signed_take_bit_diff signed_take_bit_signed_take_bit min.idem)

lemma s32_s32 [simp]: "s32 (s32 k) = s32 k"
  by (simp add: s32_def)

lemma s32_add: "s32 (s32 k + l) = s32 (k + l)"
  using s32_add_diff [of "k + l" "- l"] by simp

lemma s32_diff_uint: "s32 (k - uint (word_of_int l :: u32)) = s32 (k - l)"
proof -
  have "signed_take_bit 31 (uint (word_of_int l :: u32)) = signed_take_bit 31 l"
    by (simp add: uint_word_of_int_eq signed_take_bit_take_bit)
  then show ?thesis unfolding s32_def by (metis signed_take_bit_diff)
qed

lemma s32_add_uint: "s32 (k + uint (word_of_int l :: u32)) = s32 (k + l)"
  using s32_diff_uint [of "k + uint (word_of_int l :: u32) + l" l] s32_diff_uint [of "k + l" l] s32_add_diff
  by (metis add.assoc add.commute add_diff_cancel_right' diff_add_cancel s32_add)

lemma smod_nonneg: "0 \<le> (k :: int) \<Longrightarrow> 0 < l \<Longrightarrow> k smod l = k mod l"
  by (cases "k = 0") (simp_all add: smod_int_alt_def)

lemma sdiv_nonneg: "0 \<le> (k :: int) \<Longrightarrow> 0 < l \<Longrightarrow> k sdiv l = k div l"
  by (cases "k = 0") (simp_all add: signed_divide_int_def)

section \<open>Transition systems with an inductive invariant\<close>

text \<open>
  The contract under which a component's state machine is used: a set of initial states,
  a step relation and a predicate that every initial state satisfies and every step keeps.
  Everything a client may conclude about reachable states is proved here once.
\<close>

locale invariant_system =
  fixes init :: "'s \<Rightarrow> bool"
    and step :: "'s \<Rightarrow> 's \<Rightarrow> bool"
    and inv :: "'s \<Rightarrow> bool"
  assumes init_inv: "init s \<Longrightarrow> inv s"
    and step_inv: "inv s \<Longrightarrow> step s s' \<Longrightarrow> inv s'"
begin

lemma steps_inv:
  assumes "step\<^sup>*\<^sup>* s s'" and "inv s"
  shows "inv s'"
  using assms by (induction rule: rtranclp_induct) (auto intro: step_inv)

lemma reachable_inv:
  assumes "init s0" and "step\<^sup>*\<^sup>* s0 s"
  shows "inv s"
  using assms steps_inv init_inv by blast

end

end
