(* ===== verification/Rwsem.thy ===== *)
theory Rwsem
  imports Prelude
begin

text \<open>
  The reader/writer semaphore of lib/rwsem-spinlock.c. Every operation of the source holds
  the semaphore's spinlock while it touches the semaphore, so each operation is one atomic
  function of the state. The wait list is the FIFO list of waiting tasks (list.h rings are
  lists of entries, see theory ListHead); a waiter structure lives on the stack of the task that
  waits, so it is found under its task: \<open>wflags t\<close> is the field \<open>flags\<close> of the waiter of
  task \<open>t\<close>. The debugging trace is left out.
\<close>

section \<open>State and operations\<close>

type_synonym task = nat

datatype task_state = TASK_RUNNING | TASK_UNINTERRUPTIBLE

definition RWSEM_WAITING_FOR_READ :: u32 where
  "RWSEM_WAITING_FOR_READ = 1"

definition RWSEM_WAITING_FOR_WRITE :: u32 where
  "RWSEM_WAITING_FOR_WRITE = 2"

record rwsem =
  activity :: int
  wait_list :: "task list"
  wflags :: "task \<Rightarrow> u32"
  tsk_state :: "task \<Rightarrow> task_state"

definition init_rwsem :: "rwsem \<Rightarrow> rwsem" where
  "init_rwsem s = s\<lparr>activity := 0, wait_list := []\<rparr>"

text \<open>What is done to the waiter of a task that is given the lock: \<open>list_del\<close>, zero flags, wake up.\<close>

definition grant :: "task \<Rightarrow> rwsem \<Rightarrow> rwsem" where
  "grant t s = s\<lparr>wait_list := remove1 t (wait_list s),
                 wflags := (wflags s)(t := 0),
                 tsk_state := (tsk_state s)(t := TASK_RUNNING)\<rparr>"

text \<open>The do-while loop of \<open>__rwsem_do_wake\<close>: \<open>ws\<close> is the list at the loop's head.\<close>

fun wake_readers :: "task list \<Rightarrow> nat \<Rightarrow> rwsem \<Rightarrow> nat \<times> rwsem" where
  "wake_readers [] woken s = (woken, s)"
| "wake_readers (t # ws) woken s =
     (let s = grant t s; woken = Suc woken in
      case ws of
        [] \<Rightarrow> (woken, s)
      | w # _ \<Rightarrow> if wflags s w AND RWSEM_WAITING_FOR_READ \<noteq> 0
                 then wake_readers ws woken s else (woken, s))"

definition rwsem_do_wake :: "rwsem \<Rightarrow> rwsem" where
  "rwsem_do_wake s =
     (case wait_list s of
        [] \<Rightarrow> s
      | waiter # _ \<Rightarrow>
          if wflags s waiter AND RWSEM_WAITING_FOR_WRITE \<noteq> 0
          then grant waiter (s\<lparr>activity := -1\<rparr>)
          else let (woken, s') = wake_readers (wait_list s) 0 s
               in s'\<lparr>activity := activity s' + int woken\<rparr>)"

definition rwsem_wake_one_writer :: "rwsem \<Rightarrow> rwsem" where
  "rwsem_wake_one_writer s =
     (case wait_list s of [] \<Rightarrow> s | waiter # _ \<Rightarrow> grant waiter (s\<lparr>activity := -1\<rparr>))"

text \<open>The result tells whether the lock was granted at once (\<open>goto out\<close>) or the task waits.\<close>

definition down_read :: "task \<Rightarrow> rwsem \<Rightarrow> bool \<times> rwsem" where
  "down_read t s =
     (if activity s \<ge> 0 \<and> wait_list s = []
      then (True, s\<lparr>activity := activity s + 1\<rparr>)
      else (False, s\<lparr>tsk_state := (tsk_state s)(t := TASK_UNINTERRUPTIBLE),
                     wflags := (wflags s)(t := RWSEM_WAITING_FOR_READ),
                     wait_list := wait_list s @ [t]\<rparr>))"

definition down_write :: "task \<Rightarrow> rwsem \<Rightarrow> bool \<times> rwsem" where
  "down_write t s =
     (if activity s = 0 \<and> wait_list s = []
      then (True, s\<lparr>activity := -1\<rparr>)
      else (False, s\<lparr>tsk_state := (tsk_state s)(t := TASK_UNINTERRUPTIBLE),
                     wflags := (wflags s)(t := RWSEM_WAITING_FOR_WRITE),
                     wait_list := wait_list s @ [t]\<rparr>))"

text \<open>One turn of the loop \<open>for (;;)\<close> in which the task waits to be given the lock.\<close>

definition wait_turn :: "task \<Rightarrow> rwsem \<Rightarrow> bool \<times> rwsem" where
  "wait_turn t s =
     (if wflags s t = 0
      then (True, s\<lparr>tsk_state := (tsk_state s)(t := TASK_RUNNING)\<rparr>)
      else (False, s\<lparr>tsk_state := (tsk_state s)(t := TASK_UNINTERRUPTIBLE)\<rparr>))"

definition down_read_trylock :: "rwsem \<Rightarrow> int \<times> rwsem" where
  "down_read_trylock s =
     (if activity s \<ge> 0 \<and> wait_list s = []
      then (1, s\<lparr>activity := activity s + 1\<rparr>) else (0, s))"

definition down_write_trylock :: "rwsem \<Rightarrow> int \<times> rwsem" where
  "down_write_trylock s =
     (if activity s = 0 \<and> wait_list s = []
      then (1, s\<lparr>activity := -1\<rparr>) else (0, s))"

definition up_read :: "rwsem \<Rightarrow> rwsem" where
  "up_read s =
     (let s = s\<lparr>activity := activity s - 1\<rparr> in
      if activity s = 0 \<and> wait_list s \<noteq> [] then rwsem_wake_one_writer s else s)"

definition up_write :: "rwsem \<Rightarrow> rwsem" where
  "up_write s =
     (let s = s\<lparr>activity := 0\<rparr> in
      if wait_list s \<noteq> [] then rwsem_do_wake s else s)"

section \<open>Interleavings\<close>

text \<open>
  Any number of tasks use one semaphore. A task is idle, waits in \<open>__down_read\<close> or
  \<open>__down_write\<close>, or is between a successful down and the matching up. Which task moves
  next is arbitrary; a step is one atomic section of the source.
\<close>

datatype pc = Idle | WaitR | WaitW | Reading | Writing

record rw_sys =
  sem :: rwsem
  pcs :: "task \<Rightarrow> pc"

abbreviation goto :: "rw_sys \<Rightarrow> task \<Rightarrow> pc \<Rightarrow> rwsem \<Rightarrow> rw_sys" where
  "goto g t p s \<equiv> \<lparr>sem = s, pcs = (pcs g)(t := p)\<rparr>"

inductive rw_step :: "rw_sys \<Rightarrow> rw_sys \<Rightarrow> bool" where
  rd_granted: "pcs g t = Idle \<Longrightarrow> down_read t (sem g) = (True, s) \<Longrightarrow> rw_step g (goto g t Reading s)"
| rd_queued: "pcs g t = Idle \<Longrightarrow> down_read t (sem g) = (False, s) \<Longrightarrow> rw_step g (goto g t WaitR s)"
| wr_granted: "pcs g t = Idle \<Longrightarrow> down_write t (sem g) = (True, s) \<Longrightarrow> rw_step g (goto g t Writing s)"
| wr_queued: "pcs g t = Idle \<Longrightarrow> down_write t (sem g) = (False, s) \<Longrightarrow> rw_step g (goto g t WaitW s)"
| rd_wait: "pcs g t = WaitR \<Longrightarrow> wait_turn t (sem g) = (b, s) \<Longrightarrow>
     rw_step g (goto g t (if b then Reading else WaitR) s)"
| wr_wait: "pcs g t = WaitW \<Longrightarrow> wait_turn t (sem g) = (b, s) \<Longrightarrow>
     rw_step g (goto g t (if b then Writing else WaitW) s)"
| rd_try: "pcs g t = Idle \<Longrightarrow> down_read_trylock (sem g) = (r, s) \<Longrightarrow>
     rw_step g (goto g t (if r = 1 then Reading else Idle) s)"
| wr_try: "pcs g t = Idle \<Longrightarrow> down_write_trylock (sem g) = (r, s) \<Longrightarrow>
     rw_step g (goto g t (if r = 1 then Writing else Idle) s)"
| rd_up: "pcs g t = Reading \<Longrightarrow> rw_step g (goto g t Idle (up_read (sem g)))"
| wr_up: "pcs g t = Writing \<Longrightarrow> rw_step g (goto g t Idle (up_write (sem g)))"

definition rw_init :: "rw_sys \<Rightarrow> bool" where
  "rw_init g \<longleftrightarrow> (\<exists>s. sem g = init_rwsem s) \<and> (\<forall>t. pcs g t = Idle)"

section \<open>What the wake-up functions do\<close>

abbreviation is_reader :: "rwsem \<Rightarrow> task \<Rightarrow> bool" where
  "is_reader s t \<equiv> wflags s t AND RWSEM_WAITING_FOR_READ \<noteq> 0"

abbreviation is_writer :: "rwsem \<Rightarrow> task \<Rightarrow> bool" where
  "is_writer s t \<equiv> wflags s t AND RWSEM_WAITING_FOR_WRITE \<noteq> 0"

definition grant_all :: "task list \<Rightarrow> rwsem \<Rightarrow> rwsem" where
  "grant_all ts s = fold grant ts s"

lemma grant_simps [simp]:
  "activity (grant t s) = activity s"
  "wait_list (grant t s) = remove1 t (wait_list s)"
  "wflags (grant t s) = (wflags s)(t := 0)"
  "tsk_state (grant t s) = (tsk_state s)(t := TASK_RUNNING)"
  by (simp_all add: grant_def)

lemma grant_all_simps [simp]:
  "activity (grant_all ts s) = activity s"
  "wflags (grant_all ts s) u = (if u \<in> set ts then 0 else wflags s u)"
  "tsk_state (grant_all ts s) u = (if u \<in> set ts then TASK_RUNNING else tsk_state s u)"
  by (induction ts arbitrary: s) (auto simp: grant_all_def)

lemma grant_all_wait_list:
  "wait_list s = ts @ us \<Longrightarrow> wait_list (grant_all ts s) = us"
  by (induction ts arbitrary: s) (auto simp: grant_all_def)

lemma wake_readers_run:
  assumes "distinct (t # ws)"
  shows "wake_readers (t # ws) n s =
    (n + Suc (length (takeWhile (is_reader s) ws)),
     grant_all (t # takeWhile (is_reader s) ws) s)"
  using assms
proof (induction ws arbitrary: t n s)
  case Nil
  then show ?case by (simp add: grant_all_def)
next
  case (Cons w ws)
  have same: "takeWhile (is_reader (grant t s)) ws = takeWhile (is_reader s) ws"
    using Cons.prems by (intro takeWhile_cong) auto
  have ih: "wake_readers (w # ws) (Suc n) (grant t s) =
      (Suc n + Suc (length (takeWhile (is_reader s) ws)),
       grant_all (w # takeWhile (is_reader s) ws) (grant t s))"
    using Cons.IH [of w "Suc n" "grant t s"] Cons.prems same by simp
  have "w \<noteq> t" using Cons.prems by auto
  with ih show ?case by (simp add: Let_def grant_all_def)
qed

lemma rwsem_do_wake_reader:
  assumes "wait_list s = t # ws" "distinct (t # ws)" "\<not> is_writer s t"
  shows "rwsem_do_wake s =
    (grant_all (t # takeWhile (is_reader s) ws) s)
      \<lparr>activity := activity s + 1 + int (length (takeWhile (is_reader s) ws))\<rparr>"
  using assms wake_readers_run [of t ws 0 s]
  by (simp add: rwsem_do_wake_def)

lemma rwsem_do_wake_writer:
  assumes "wait_list s = t # ws" "is_writer s t"
  shows "rwsem_do_wake s = grant t (s\<lparr>activity := -1\<rparr>)"
  using assms by (simp add: rwsem_do_wake_def)

section \<open>The invariant\<close>

text \<open>
  A task holds the lock for reading once its down returned, or as soon as its waiter was granted
  the lock and it has only not noticed yet. The invariant ties \<open>activity\<close> to the holders,
  the wait list to the tasks that sleep, and says which semaphores may have waiters.
\<close>

definition readers :: "rw_sys \<Rightarrow> task set" where
  "readers g = {t. pcs g t = Reading \<or> (pcs g t = WaitR \<and> wflags (sem g) t = 0)}"

definition writers :: "rw_sys \<Rightarrow> task set" where
  "writers g = {t. pcs g t = Writing \<or> (pcs g t = WaitW \<and> wflags (sem g) t = 0)}"

definition waiters_ok :: "rw_sys \<Rightarrow> bool" where
  "waiters_ok g \<longleftrightarrow>
     finite {t. pcs g t \<noteq> Idle} \<and>
     distinct (wait_list (sem g)) \<and>
     (\<forall>t. t \<in> set (wait_list (sem g)) \<longleftrightarrow> pcs g t \<in> {WaitR, WaitW} \<and> wflags (sem g) t \<noteq> 0) \<and>
     (\<forall>t. pcs g t = WaitR \<longrightarrow> wflags (sem g) t \<in> {0, RWSEM_WAITING_FOR_READ}) \<and>
     (\<forall>t. pcs g t = WaitW \<longrightarrow> wflags (sem g) t \<in> {0, RWSEM_WAITING_FOR_WRITE})"

definition activity_ok :: "rw_sys \<Rightarrow> bool" where
  "activity_ok g \<longleftrightarrow>
     (if writers g = {} then activity (sem g) = int (card (readers g))
      else activity (sem g) = -1 \<and> readers g = {} \<and> (\<exists>w. writers g = {w}))"

definition queue_ok :: "rw_sys \<Rightarrow> bool" where
  "queue_ok g \<longleftrightarrow>
     (activity (sem g) = 0 \<longrightarrow> wait_list (sem g) = []) \<and>
     (activity (sem g) > 0 \<longrightarrow> wait_list (sem g) \<noteq> [] \<longrightarrow> pcs g (hd (wait_list (sem g))) = WaitW)"

definition rw_inv :: "rw_sys \<Rightarrow> bool" where
  "rw_inv g \<longleftrightarrow> waiters_ok g \<and> activity_ok g \<and> queue_ok g"

lemmas rw_flag_defs = RWSEM_WAITING_FOR_READ_def RWSEM_WAITING_FOR_WRITE_def
lemmas rw_inv_defs = rw_inv_def waiters_ok_def activity_ok_def queue_ok_def readers_def writers_def

lemma finite_holders:
  assumes "waiters_ok g"
  shows "finite (readers g)" "finite (writers g)"
proof -
  have f: "finite {t. pcs g t \<noteq> Idle}" using assms by (simp add: waiters_ok_def)
  show "finite (readers g)" by (rule finite_subset [OF _ f]) (auto simp: readers_def)
  show "finite (writers g)" by (rule finite_subset [OF _ f]) (auto simp: writers_def)
qed

lemma finite_pcs_upd [simp]:
  "finite {u. u \<noteq> t \<longrightarrow> P u} \<longleftrightarrow> finite {u. P u}" for t :: task
proof -
  have "{u. u \<noteq> t \<longrightarrow> P u} = insert t {u. P u}" by auto
  then show ?thesis by simp
qed

lemma finite_goto:
  assumes "finite {u. pcs g u \<noteq> Idle}"
  shows "finite {u. ((pcs g)(t := p)) u \<noteq> Idle}"
  by (rule finite_subset [OF _ finite.insertI [OF assms, of t]]) auto

lemma rw_inv_rd_granted:
  assumes inv: "rw_inv g" and idle: "pcs g t = Idle"
    and free: "activity (sem g) \<ge> 0" "wait_list (sem g) = []"
  shows "rw_inv (goto g t Reading ((sem g)\<lparr>activity := activity (sem g) + 1\<rparr>))" (is "rw_inv ?g")
proof -
  have w: "writers g = {}" using inv free(1) by (auto simp: rw_inv_def activity_ok_def split: if_splits)
  have r: "readers ?g = insert t (readers g)" "t \<notin> readers g" "writers ?g = writers g"
    using idle by (auto simp: readers_def writers_def)
  have "card (readers ?g) = Suc (card (readers g))"
    using r finite_holders [of g] inv by (simp add: rw_inv_def)
  moreover have "waiters_ok ?g"
    using inv idle free finite_goto by (auto simp: rw_inv_def waiters_ok_def)
  ultimately show ?thesis using inv w r free by (simp add: rw_inv_def activity_ok_def queue_ok_def)
qed

lemma rw_inv_wr_granted:
  assumes inv: "rw_inv g" and idle: "pcs g t = Idle"
    and free: "activity (sem g) = 0" "wait_list (sem g) = []"
  shows "rw_inv (goto g t Writing ((sem g)\<lparr>activity := -1\<rparr>))" (is "rw_inv ?g")
proof -
  have w: "writers g = {}" "readers g = {}"
    using inv free(1) finite_holders [of g] by (auto simp: rw_inv_def activity_ok_def split: if_splits)
  have r: "readers ?g = readers g" "writers ?g = insert t (writers g)"
    using idle by (auto simp: readers_def writers_def)
  have "waiters_ok ?g"
    using inv idle free finite_goto by (auto simp: rw_inv_def waiters_ok_def)
  then show ?thesis using inv w r free by (simp add: rw_inv_def activity_ok_def queue_ok_def)
qed

lemma rw_inv_queued:
  assumes inv: "rw_inv g" and idle: "pcs g t = Idle"
    and pf: "(p = WaitR \<and> f = RWSEM_WAITING_FOR_READ) \<or> (p = WaitW \<and> f = RWSEM_WAITING_FOR_WRITE)"
    and busy: "p = WaitR \<Longrightarrow> \<not> (activity (sem g) \<ge> 0 \<and> wait_list (sem g) = [])"
      "p = WaitW \<Longrightarrow> \<not> (activity (sem g) = 0 \<and> wait_list (sem g) = [])"
  shows "rw_inv (goto g t p ((sem g)\<lparr>tsk_state := ts, wflags := (wflags (sem g))(t := f),
                    wait_list := wait_list (sem g) @ [t]\<rparr>))" (is "rw_inv ?g")
proof -
  have r: "readers ?g = readers g" "writers ?g = writers g"
    using idle pf by (auto simp: readers_def writers_def rw_flag_defs)
  have "waiters_ok ?g"
    using inv idle pf finite_goto [of g t p]
    by (auto simp: rw_inv_def waiters_ok_def rw_flag_defs)
  moreover have "activity (sem g) \<noteq> 0"
    using inv busy pf by (auto simp: rw_inv_def queue_ok_def)
  ultimately show ?thesis
    using inv idle r pf busy by (auto simp: rw_inv_def activity_ok_def queue_ok_def hd_append)
qed

lemma rw_inv_wait:
  assumes inv: "rw_inv g"
    and p: "(pcs g t = WaitR \<and> p = (if wflags (sem g) t = 0 then Reading else WaitR)) \<or>
            (pcs g t = WaitW \<and> p = (if wflags (sem g) t = 0 then Writing else WaitW))"
  shows "rw_inv (goto g t p ((sem g)\<lparr>tsk_state := ts\<rparr>))" (is "rw_inv ?g")
proof -
  have r: "readers ?g = readers g" "writers ?g = writers g"
    using p by (auto simp: readers_def writers_def split: if_splits)
  have w: "waiters_ok ?g"
    using inv p finite_goto [of g t p]
    by (auto simp: rw_inv_def waiters_ok_def split: if_splits)
  have q: "queue_ok ?g"
  proof (cases "wait_list (sem g)")
    case Nil
    then show ?thesis by (simp add: queue_ok_def)
  next
    case (Cons u us)
    then have "wflags (sem g) u \<noteq> 0" using inv by (auto simp: rw_inv_def waiters_ok_def)
    then show ?thesis using inv Cons p by (auto simp: rw_inv_def queue_ok_def split: if_splits)
  qed
  show ?thesis using inv r w q by (simp add: rw_inv_def activity_ok_def)
qed

text \<open>Handing the lock of a semaphore that nobody holds to a set of waiters from the front.\<close>

lemma waiters_ok_grant_all:
  assumes ok: "waiters_ok g" and left: "pcs g t \<in> {Reading, Writing}"
    and wl: "wait_list (sem g) = ts @ us"
  shows "waiters_ok (goto g t Idle ((grant_all ts (sem g))\<lparr>activity := a\<rparr>))" (is "waiters_ok ?g")
proof -
  have wl': "wait_list (grant_all ts (sem g)) = us" using wl by (rule grant_all_wait_list)
  have d: "distinct (ts @ us)" using ok wl by (simp add: waiters_ok_def)
  have mem: "u \<in> set ts \<or> u \<in> set us \<longleftrightarrow> pcs g u \<in> {WaitR, WaitW} \<and> wflags (sem g) u \<noteq> 0" for u
    using ok wl by (auto simp: waiters_ok_def)
  have "u \<in> set us \<longleftrightarrow> pcs ?g u \<in> {WaitR, WaitW} \<and> wflags (sem ?g) u \<noteq> 0" for u
    using mem [of u] left d by auto
  then show ?thesis
    using ok left d finite_goto [of g t Idle] wl' by (auto simp: waiters_ok_def)
qed

lemma front_is_writer_iff:
  assumes "waiters_ok g" "t \<in> set (wait_list (sem g))"
  shows "is_writer (sem g) t \<longleftrightarrow> pcs g t = WaitW" "is_reader (sem g) t \<longleftrightarrow> pcs g t = WaitR"
  using assms by (auto simp: waiters_ok_def rw_flag_defs)

lemma rw_inv_hand_to_writer:
  assumes ok: "waiters_ok g" and left: "pcs g t \<in> {Reading, Writing}"
    and none: "readers g \<union> writers g = {t}"
    and wl: "wait_list (sem g) = w # us" and w: "pcs g w = WaitW"
  shows "rw_inv (goto g t Idle (grant w ((sem g)\<lparr>activity := -1\<rparr>)))" (is "rw_inv ?g")
proof -
  have eq: "grant w ((sem g)\<lparr>activity := -1\<rparr>) = (grant_all [w] (sem g))\<lparr>activity := -1\<rparr>"
    by (simp add: grant_all_def grant_def)
  have wk: "waiters_ok ?g"
    unfolding eq using ok left wl by (intro waiters_ok_grant_all [where us = us]) auto
  have rs: "readers ?g = {}" "writers ?g = {w}"
    using none left w by (auto simp: readers_def writers_def split: if_splits)
  show ?thesis using wk rs by (simp add: rw_inv_def activity_ok_def queue_ok_def)
qed

lemma rw_inv_rd_up:
  assumes inv: "rw_inv g" and rd: "pcs g t = Reading"
  shows "rw_inv (goto g t Idle (up_read (sem g)))"
proof -
  have ok: "waiters_ok g" and act: "activity_ok g" and q: "queue_ok g"
    using inv by (simp_all add: rw_inv_def)
  have t: "t \<in> readers g" using rd by (simp add: readers_def)
  then have noW: "writers g = {}" and a: "activity (sem g) = int (card (readers g))"
    using act by (auto simp: activity_ok_def split: if_splits)
  have pos: "0 < card (readers g)" using t finite_holders [OF ok] by (auto simp: card_gt_0_iff)
  show ?thesis
  proof (cases "card (readers g) = 1 \<and> wait_list (sem g) \<noteq> []")
    case True
    then obtain w us where wl: "wait_list (sem g) = w # us" by (cases "wait_list (sem g)") auto
    have one: "readers g \<union> writers g = {t}" using True t noW by (auto simp: card_1_singleton_iff)
    have w: "pcs g w = WaitW" using q a True wl by (simp add: queue_ok_def)
    have "up_read (sem g) = grant w ((sem g)\<lparr>activity := -1\<rparr>)"
      using a True wl by (simp add: up_read_def rwsem_wake_one_writer_def)
    then show ?thesis using rw_inv_hand_to_writer [OF ok _ one wl w] rd by simp
  next
    case False
    let ?g = "goto g t Idle ((sem g)\<lparr>activity := activity (sem g) - 1\<rparr>)"
    have up: "up_read (sem g) = (sem g)\<lparr>activity := activity (sem g) - 1\<rparr>"
      using False a by (auto simp: up_read_def)
    have rs: "readers ?g = readers g - {t}" "writers ?g = {}"
      using noW rd by (auto simp: readers_def writers_def)
    have "waiters_ok ?g" using ok rd finite_goto [of g t Idle] by (auto simp: waiters_ok_def)
    moreover have "activity_ok ?g"
      using rs a t pos finite_holders [OF ok] by (simp add: activity_ok_def of_nat_diff)
    moreover have "queue_ok ?g"
      using q a False pos rd by (auto simp: queue_ok_def)
    ultimately show ?thesis using up by (simp add: rw_inv_def)
  qed
qed

lemma do_wake_readers:
  assumes wl: "wait_list s = w # us" and d: "distinct (w # us)" and w: "\<not> is_writer s w"
  shows "rwsem_do_wake (s\<lparr>activity := 0\<rparr>) =
    (grant_all (w # takeWhile (is_reader s) us) s)
      \<lparr>activity := 1 + int (length (takeWhile (is_reader s) us))\<rparr>"
proof -
  let ?rs = "takeWhile (is_reader s) us" and ?s = "s\<lparr>activity := 0\<rparr>"
  have "rwsem_do_wake ?s = (grant_all (w # ?rs) ?s)\<lparr>activity := 1 + int (length ?rs)\<rparr>"
    using rwsem_do_wake_reader [of ?s w us] assms by simp
  also have "\<dots> = (grant_all (w # ?rs) s)\<lparr>activity := 1 + int (length ?rs)\<rparr>"
    by (rule rwsem.equality)
      (auto simp: wl grant_all_wait_list [where us = "dropWhile (is_reader s) us"])
  finally show ?thesis .
qed

lemma rw_inv_hand_to_readers:
  assumes ok: "waiters_ok g" and wr: "pcs g t = Writing"
    and hold: "readers g = {}" "writers g = {t}"
    and wl: "wait_list (sem g) = w # us" and w: "pcs g w = WaitR"
    and rs: "rs = takeWhile (is_reader (sem g)) us"
  shows "rw_inv (goto g t Idle ((grant_all (w # rs) (sem g))\<lparr>activity := 1 + int (length rs)\<rparr>))"
    (is "rw_inv ?g")
proof -
  let ?left = "dropWhile (is_reader (sem g)) us"
  have d: "distinct (w # us)" using ok wl by (simp add: waiters_ok_def)
  have wl2: "wait_list (sem g) = (w # rs) @ ?left" using wl rs by simp
  have wl': "wait_list (sem ?g) = ?left" using grant_all_wait_list [OF wl2] by simp
  have rd: "pcs g u = WaitR" if "u \<in> set rs" for u
  proof -
    have "u \<in> set us" "is_reader (sem g) u" using that by (auto simp: rs dest: set_takeWhileD)
    then show ?thesis using front_is_writer_iff(2) [OF ok, of u] wl by simp
  qed
  have "readers ?g = set (w # rs)" "writers ?g = {}"
    using hold rd wr w by (auto simp: readers_def writers_def split: if_splits)
  moreover have "distinct (w # rs)" using d by (auto simp: rs dest: set_takeWhileD)
  ultimately have "activity_ok ?g" by (simp add: activity_ok_def distinct_card)
  moreover have "waiters_ok ?g" using waiters_ok_grant_all [OF ok _ wl2] wr by simp
  moreover have "pcs ?g (hd ?left) = WaitW" if ne: "?left \<noteq> []"
  proof -
    have "hd ?left \<in> set us" using hd_in_set [OF ne] set_dropWhileD by metis
    then have h: "hd ?left \<in> set (wait_list (sem g))" using wl by simp
    moreover have "pcs g (hd ?left) \<noteq> WaitR"
      using front_is_writer_iff(2) [OF ok h] hd_dropWhile [OF ne] by simp
    ultimately have "pcs g (hd ?left) = WaitW" using ok by (auto simp: waiters_ok_def)
    then show ?thesis using wr by auto
  qed
  ultimately show ?thesis using wl' by (simp add: rw_inv_def queue_ok_def)
qed

lemma rw_inv_wr_up:
  assumes inv: "rw_inv g" and wr: "pcs g t = Writing"
  shows "rw_inv (goto g t Idle (up_write (sem g)))"
proof -
  have ok: "waiters_ok g" and act: "activity_ok g" using inv by (simp_all add: rw_inv_def)
  have "t \<in> writers g" using wr by (simp add: writers_def)
  then have hold: "readers g = {}" "writers g = {t}"
    using act by (auto simp: activity_ok_def split: if_splits)
  show ?thesis
  proof (cases "wait_list (sem g)")
    case Nil
    let ?g = "goto g t Idle ((sem g)\<lparr>activity := 0\<rparr>)"
    have "readers ?g = {}" "writers ?g = {}"
      using hold wr by (auto simp: readers_def writers_def)
    moreover have "waiters_ok ?g" using ok wr finite_goto [of g t Idle] by (auto simp: waiters_ok_def)
    ultimately show ?thesis using Nil by (simp add: up_write_def rw_inv_def activity_ok_def queue_ok_def)
  next
    case (Cons w us)
    have w: "w \<in> set (wait_list (sem g))" and d: "distinct (w # us)"
      using Cons ok by (simp_all add: waiters_ok_def)
    have up: "up_write (sem g) = rwsem_do_wake ((sem g)\<lparr>activity := 0\<rparr>)"
      using Cons by (simp add: up_write_def)
    show ?thesis
    proof (cases "pcs g w = WaitW")
      case True
      then have "up_write (sem g) = grant w ((sem g)\<lparr>activity := -1\<rparr>)"
        using up rwsem_do_wake_writer [of "(sem g)\<lparr>activity := 0\<rparr>" w us] Cons
          front_is_writer_iff [OF ok w] by simp
      then show ?thesis
        using rw_inv_hand_to_writer [OF ok _ _ Cons True] wr hold by simp
    next
      case False
      then have "pcs g w = WaitR" using ok w by (auto simp: waiters_ok_def)
      then show ?thesis
        using rw_inv_hand_to_readers [OF ok wr hold Cons] up do_wake_readers [OF Cons d] False
          front_is_writer_iff [OF ok w] by simp
    qed
  qed
qed

lemma goto_same: "pcs g t = p \<Longrightarrow> goto g t p (sem g) = g"
  by (cases g) auto

lemma rw_step_inv:
  assumes "rw_step g g'" "rw_inv g"
  shows "rw_inv g'"
  using assms
proof (cases rule: rw_step.cases)
  case (rd_granted t s)
  then show ?thesis using rw_inv_rd_granted [OF assms(2)] by (auto simp: down_read_def split: if_splits)
next
  case (rd_queued t s)
  then show ?thesis
    using rw_inv_queued [OF assms(2), of t WaitR] by (auto simp: down_read_def split: if_splits)
next
  case (wr_granted t s)
  then show ?thesis using rw_inv_wr_granted [OF assms(2)] by (auto simp: down_write_def split: if_splits)
next
  case (wr_queued t s)
  then show ?thesis
    using rw_inv_queued [OF assms(2), of t WaitW] by (auto simp: down_write_def split: if_splits)
next
  case (rd_wait t b s)
  then show ?thesis
    using rw_inv_wait [OF assms(2), of t] by (auto simp: wait_turn_def split: if_splits)
next
  case (wr_wait t b s)
  then show ?thesis
    using rw_inv_wait [OF assms(2), of t] by (auto simp: wait_turn_def split: if_splits)
next
  case (rd_try t r s)
  then show ?thesis using rw_inv_rd_granted [OF assms(2)] assms(2)
    by (auto simp: down_read_trylock_def goto_same split: if_splits)
next
  case (wr_try t r s)
  then show ?thesis using rw_inv_wr_granted [OF assms(2)] assms(2)
    by (auto simp: down_write_trylock_def goto_same split: if_splits)
next
  case (rd_up t)
  then show ?thesis using rw_inv_rd_up [OF assms(2)] by simp
next
  case (wr_up t)
  then show ?thesis using rw_inv_wr_up [OF assms(2)] by simp
qed

lemma rw_init_inv: "rw_init g \<Longrightarrow> rw_inv g"
  by (auto simp: rw_init_def init_rwsem_def rw_inv_defs)

interpretation rw: invariant_system rw_init rw_step rw_inv
  by unfold_locales (auto intro: rw_init_inv rw_step_inv)

section \<open>Progress\<close>









section \<open>Properties\<close>

text \<open>A run for the witnesses: task 0 takes the lock for writing, then task 1 waits to read.\<close>

definition demo0 :: rw_sys where
  "demo0 = \<lparr>sem = \<lparr>activity = 0, wait_list = [], wflags = (\<lambda>_. 0), tsk_state = (\<lambda>_. TASK_RUNNING)\<rparr>,
            pcs = (\<lambda>_. Idle)\<rparr>"

definition demo1 :: rw_sys where
  "demo1 = goto demo0 0 Writing (snd (down_write 0 (sem demo0)))"

definition demo2 :: rw_sys where
  "demo2 = goto demo1 1 WaitR (snd (down_read 1 (sem demo1)))"

lemmas demo_defs = demo0_def demo1_def demo2_def down_write_def down_read_def

lemma demo_init: "rw_init demo0"
  unfolding rw_init_def
proof
  show "\<exists>s. sem demo0 = init_rwsem s"
    by (rule exI [of _ "sem demo0"]) (simp add: demo0_def init_rwsem_def)
qed (simp add: demo0_def)

lemma demo_run: "rw_step\<^sup>*\<^sup>* demo0 demo2"
proof -
  have "rw_step demo0 demo1"
    unfolding demo1_def by (rule rw_step.wr_granted) (simp_all add: demo_defs)
  moreover have "rw_step demo1 demo2"
    unfolding demo2_def by (rule rw_step.rd_queued) (simp_all add: demo_defs)
  ultimately show ?thesis by (meson converse_rtranclp_into_rtranclp r_into_rtranclp)
qed

text \<open>C20. Mutual exclusion: in every state that the tasks can reach, while one task holds the
  semaphore for writing no other task holds it for reading or writing, and \<open>activity\<close>
  is -1; while no task holds it for writing, \<open>activity\<close> is the number of tasks that were
  granted it for reading.\<close>

theorem rwsem_mutual_exclusion:
  assumes "rw_init g0" and "rw_step\<^sup>*\<^sup>* g0 g"
  shows "(pcs g t = Writing \<longrightarrow>
      activity (sem g) = -1 \<and> (\<forall>u. u \<noteq> t \<longrightarrow> pcs g u \<noteq> Reading \<and> pcs g u \<noteq> Writing)) \<and>
    (writers g = {} \<longrightarrow> activity (sem g) = int (card (readers g)))"
proof -
  have "rw_inv g" using assms(1,2) by (rule rw.reachable_inv)
  then have act: "activity_ok g" by (simp add: rw_inv_def)
  have "activity (sem g) = -1 \<and> readers g = {} \<and> writers g = {t}" if "pcs g t = Writing"
  proof -
    have "t \<in> writers g" using that by (simp add: writers_def)
    then show ?thesis using act by (auto simp: activity_ok_def split: if_splits)
  qed
  then show ?thesis using act by (auto simp: readers_def writers_def activity_ok_def)
qed

theorem rwsem_mutual_exclusion_witness:
  "pcs demo2 0 = Writing \<and> activity (sem demo2) = -1 \<and>
   pcs demo2 1 \<noteq> Reading \<and> pcs demo2 1 \<noteq> Writing"
proof -
  have w: "pcs demo2 0 = Writing" by (simp add: demo_defs)
  then show ?thesis using rwsem_mutual_exclusion [OF demo_init demo_run, of 0] by auto
qed



text \<open>C22. Releasing a write lock serves the queue in order: a writer at the front is granted the
  lock alone; otherwise the readers at the front, up to the first waiter that is not a reader,
  are granted it together, and \<open>activity\<close> counts them. The others stay queued in order.\<close>

theorem up_write_serves_front:
  assumes "wait_list s = w # us" and "distinct (w # us)"
  shows "\<exists>ts. wait_list s = ts @ wait_list (up_write s) \<and>
    (\<forall>t. wflags (up_write s) t = (if t \<in> set ts then 0 else wflags s t)) \<and>
    (if wflags s w AND RWSEM_WAITING_FOR_WRITE \<noteq> 0
     then ts = [w] \<and> activity (up_write s) = -1
     else ts = w # takeWhile (\<lambda>t. wflags s t AND RWSEM_WAITING_FOR_READ \<noteq> 0) us \<and>
          activity (up_write s) = int (length ts))"
proof (cases "is_writer s w")
  case True
  then have "up_write s = grant w (s\<lparr>activity := -1\<rparr>)"
    using assms rwsem_do_wake_writer [of "s\<lparr>activity := 0\<rparr>" w us] by (simp add: up_write_def)
  with True assms show ?thesis by auto
next
  case False
  let ?ts = "w # takeWhile (is_reader s) us"
  have wl: "wait_list s = ?ts @ dropWhile (is_reader s) us" using assms by simp
  have "up_write s = (grant_all ?ts s)\<lparr>activity := int (length ?ts)\<rparr>"
    using assms do_wake_readers [OF assms False] by (simp add: up_write_def)
  then show ?thesis using False wl grant_all_wait_list [OF wl] by (intro exI [of _ ?ts]) auto
qed

theorem up_write_serves_front_witness:
  "\<exists>ts. wait_list (sem demo2) = ts @ wait_list (up_write (sem demo2)) \<and> ts = [1]"
proof -
  have "wait_list (sem demo2) = 1 # []" "distinct [1 :: task]" by (simp_all add: demo_defs)
  from up_write_serves_front [OF this] show ?thesis
    by (auto simp: demo_defs rw_flag_defs)
qed

end
