(* ===== verification/ListHead.thy ===== *)
theory ListHead
  imports Prelude "HOL-Library.Monad_Syntax"
begin

text \<open>
  The circular doubly linked lists of include/linux/list.h, over an explicit store: an
  address holds a \<open>list_head\<close> or is not valid memory, and an operation that dereferences an
  invalid address fails (\<open>None\<close>, the oops of the kernel). The predicate \<open>ring\<close> says that the
  store holds a well-formed list with given entries; every operation is shown to succeed on rings
  and to act on them as the list operation it stands for, leaving other rings alone.
  The other components work with the lists of entries that this theory justifies.
\<close>

section \<open>The store and the operations\<close>

type_synonym addr = nat

record list_head =
  lh_next :: addr
  lh_prev :: addr

type_synonym heap = "addr \<rightharpoonup> list_head"

definition get_next :: "addr \<Rightarrow> heap \<Rightarrow> addr option" where
  "get_next p h = map_option lh_next (h p)"

definition get_prev :: "addr \<Rightarrow> heap \<Rightarrow> addr option" where
  "get_prev p h = map_option lh_prev (h p)"

definition set_next :: "addr \<Rightarrow> addr \<Rightarrow> heap \<Rightarrow> heap option" where
  "set_next p v h = (case h p of None \<Rightarrow> None | Some n \<Rightarrow> Some (h(p \<mapsto> n\<lparr>lh_next := v\<rparr>)))"

definition set_prev :: "addr \<Rightarrow> addr \<Rightarrow> heap \<Rightarrow> heap option" where
  "set_prev p v h = (case h p of None \<Rightarrow> None | Some n \<Rightarrow> Some (h(p \<mapsto> n\<lparr>lh_prev := v\<rparr>)))"

definition INIT_LIST_HEAD :: "addr \<Rightarrow> heap \<Rightarrow> heap option" where
  "INIT_LIST_HEAD p h = do { h \<leftarrow> set_next p p h; set_prev p p h }"

definition list_add_between :: "addr \<Rightarrow> addr \<Rightarrow> addr \<Rightarrow> heap \<Rightarrow> heap option" where
  "list_add_between e p n h = do {
     h \<leftarrow> set_prev n e h;
     h \<leftarrow> set_next e n h;
     h \<leftarrow> set_prev e p h;
     set_next p e h }"

definition list_add :: "addr \<Rightarrow> addr \<Rightarrow> heap \<Rightarrow> heap option" where
  "list_add e head h = do { n \<leftarrow> get_next head h; list_add_between e head n h }"

definition list_add_tail :: "addr \<Rightarrow> addr \<Rightarrow> heap \<Rightarrow> heap option" where
  "list_add_tail e head h = do { p \<leftarrow> get_prev head h; list_add_between e p head h }"

definition list_del_between :: "addr \<Rightarrow> addr \<Rightarrow> heap \<Rightarrow> heap option" where
  "list_del_between p n h = do { h \<leftarrow> set_prev n p h; set_next p n h }"

definition list_del :: "addr \<Rightarrow> heap \<Rightarrow> heap option" where
  "list_del e h = do {
     p \<leftarrow> get_prev e h;
     n \<leftarrow> get_next e h;
     h \<leftarrow> list_del_between p n h;
     h \<leftarrow> set_next e 0 h;
     set_prev e 0 h }"

definition list_del_init :: "addr \<Rightarrow> heap \<Rightarrow> heap option" where
  "list_del_init e h = do {
     p \<leftarrow> get_prev e h;
     n \<leftarrow> get_next e h;
     h \<leftarrow> list_del_between p n h;
     INIT_LIST_HEAD e h }"

definition list_move :: "addr \<Rightarrow> addr \<Rightarrow> heap \<Rightarrow> heap option" where
  "list_move e head h = do {
     p \<leftarrow> get_prev e h;
     n \<leftarrow> get_next e h;
     h \<leftarrow> list_del_between p n h;
     list_add e head h }"

definition list_move_tail :: "addr \<Rightarrow> addr \<Rightarrow> heap \<Rightarrow> heap option" where
  "list_move_tail e head h = do {
     p \<leftarrow> get_prev e h;
     n \<leftarrow> get_next e h;
     h \<leftarrow> list_del_between p n h;
     list_add_tail e head h }"

definition list_empty :: "addr \<Rightarrow> heap \<Rightarrow> bool option" where
  "list_empty head h = do { n \<leftarrow> get_next head h; Some (n = head) }"

definition list_splice_raw :: "addr \<Rightarrow> addr \<Rightarrow> heap \<Rightarrow> heap option" where
  "list_splice_raw l head h = do {
     first \<leftarrow> get_next l h;
     last \<leftarrow> get_prev l h;
     at \<leftarrow> get_next head h;
     h \<leftarrow> set_prev first head h;
     h \<leftarrow> set_next head first h;
     h \<leftarrow> set_next last at h;
     set_prev at last h }"

definition list_splice :: "addr \<Rightarrow> addr \<Rightarrow> heap \<Rightarrow> heap option" where
  "list_splice l head h = do {
     e \<leftarrow> list_empty l h;
     if \<not> e then list_splice_raw l head h else Some h }"

definition list_splice_init :: "addr \<Rightarrow> addr \<Rightarrow> heap \<Rightarrow> heap option" where
  "list_splice_init l head h = do {
     e \<leftarrow> list_empty l h;
     if \<not> e then do { h \<leftarrow> list_splice_raw l head h; INIT_LIST_HEAD l h } else Some h }"

text \<open>
  \<open>list_for_each\<close>: the entries from \<open>pos\<close> to the head, \<open>None\<close> on a dereference that fails or when
  \<open>fuel\<close> steps do not reach the head (a ring of \<open>n\<close> entries needs \<open>n + 1\<close>).
\<close>

fun list_for_each :: "nat \<Rightarrow> addr \<Rightarrow> addr \<Rightarrow> heap \<Rightarrow> addr list option" where
  "list_for_each 0 pos head h = None"
| "list_for_each (Suc fuel) pos head h =
     (if pos = head then Some []
      else do { n \<leftarrow> get_next pos h; es \<leftarrow> list_for_each fuel n head h; Some (pos # es) })"

definition list_entries :: "nat \<Rightarrow> addr \<Rightarrow> heap \<Rightarrow> addr list option" where
  "list_entries fuel head h = do { n \<leftarrow> get_next head h; list_for_each fuel n head h }"

section \<open>Rings\<close>

definition link :: "heap \<Rightarrow> addr \<Rightarrow> addr \<Rightarrow> bool" where
  "link h a b \<longleftrightarrow> get_next a h = Some b \<and> get_prev b h = Some a"

definition ring :: "heap \<Rightarrow> addr \<Rightarrow> addr list \<Rightarrow> bool" where
  "ring h head xs \<longleftrightarrow> distinct (head # xs) \<and> successively (link h) (head # xs @ [head])"

text \<open>The store after a field update, and how the readers see it.\<close>

definition upd_next :: "heap \<Rightarrow> addr \<Rightarrow> addr \<Rightarrow> heap" where
  "upd_next h p v = h(p := map_option (\<lambda>n. n\<lparr>lh_next := v\<rparr>) (h p))"

definition upd_prev :: "heap \<Rightarrow> addr \<Rightarrow> addr \<Rightarrow> heap" where
  "upd_prev h p v = h(p := map_option (\<lambda>n. n\<lparr>lh_prev := v\<rparr>) (h p))"

lemma set_field_simps [simp]:
  "set_next p v h = (if p \<in> dom h then Some (upd_next h p v) else None)"
  "set_prev p v h = (if p \<in> dom h then Some (upd_prev h p v) else None)"
  by (auto simp: set_next_def set_prev_def upd_next_def upd_prev_def split: option.splits)

lemma dom_upd [simp]: "dom (upd_next h p v) = dom h" "dom (upd_prev h p v) = dom h"
  by (auto simp: upd_next_def upd_prev_def dom_def)

lemma get_upd [simp]:
  "get_next a (upd_next h p v) = (if a = p \<and> p \<in> dom h then Some v else get_next a h)"
  "get_prev a (upd_next h p v) = get_prev a h"
  "get_prev a (upd_prev h p v) = (if a = p \<and> p \<in> dom h then Some v else get_prev a h)"
  "get_next a (upd_prev h p v) = get_next a h"
  by (cases "h p"; auto simp: get_next_def get_prev_def upd_next_def upd_prev_def)+

lemma upd_apply [simp]:
  "upd_next h p v a = (if a = p then map_option (\<lambda>n. n\<lparr>lh_next := v\<rparr>) (h a) else h a)"
  "upd_prev h p v a = (if a = p then map_option (\<lambda>n. n\<lparr>lh_prev := v\<rparr>) (h a) else h a)"
  by (auto simp: upd_next_def upd_prev_def)

lemma get_defined:
  "get_next a h = Some b \<Longrightarrow> a \<in> dom h" "get_prev a h = Some b \<Longrightarrow> a \<in> dom h"
  by (auto simp: get_next_def get_prev_def)

lemma chain_frame:
  assumes "\<And>x. x \<in> set (butlast us) \<Longrightarrow> get_next x h' = get_next x h"
    and "\<And>x. x \<in> set (tl us) \<Longrightarrow> get_prev x h' = get_prev x h"
  shows "successively (link h') us = successively (link h) us"
  using assms
proof (induction us rule: induct_list012)
  case (3 x y zs)
  have "successively (link h') (y # zs) = successively (link h) (y # zs)"
    by (rule "3.IH"(2)) (simp_all add: "3.prems")
  moreover have "link h' x y = link h x y"
    using "3.prems"(1) [of x] "3.prems"(2) [of y] by (simp add: link_def)
  ultimately show ?case by simp
qed simp_all

lemma last_notin_butlast: "distinct us \<Longrightarrow> us \<noteq> [] \<Longrightarrow> last us \<notin> set (butlast us)"
  by (cases us rule: rev_cases) auto

lemma hd_notin_tl: "distinct us \<Longrightarrow> hd us \<notin> set (tl us)"
  by (cases us) auto

text \<open>Only the last entry's \<open>next\<close> and the first entry's \<open>prev\<close> lie outside a chain.\<close>

lemma chain_upd:
  assumes "distinct us" "p \<notin> set (butlast us)" "n \<notin> set (tl us)"
    and "\<And>x. x \<noteq> p \<Longrightarrow> x \<in> set us \<Longrightarrow> get_next x h' = get_next x h"
    and "\<And>x. x \<noteq> n \<Longrightarrow> x \<in> set us \<Longrightarrow> get_prev x h' = get_prev x h"
  shows "successively (link h') us = successively (link h) us"
proof (rule chain_frame)
  show "get_next x h' = get_next x h" if "x \<in> set (butlast us)" for x
    using that assms(2,4) by (metis in_set_butlastD)
  show "get_prev x h' = get_prev x h" if "x \<in> set (tl us)" for x
    using that assms(3,5) by (metis list.set_sel(2) list.sel(2))
qed

lemma ring_split:
  "ring h head (xs @ ys) \<longleftrightarrow>
     distinct (head # xs @ ys) \<and> successively (link h) (head # xs) \<and>
     successively (link h) (ys @ [head]) \<and> link h (last (head # xs)) (hd (ys @ [head]))"
proof -
  have "head # (xs @ ys) @ [head] = (head # xs) @ (ys @ [head])" by simp
  then show ?thesis unfolding ring_def by (simp only: successively_append_iff) auto
qed

lemma ring_ends:
  assumes "ring h head xs"
  shows "get_next head h = Some (hd (xs @ [head]))" "get_prev head h = Some (last (head # xs))"
  using ring_split [of h head "[]" xs] ring_split [of h head xs "[]"] assms
  by (simp_all add: link_def)

lemma chain_dom: "successively (link h) us \<Longrightarrow> 1 < length us \<Longrightarrow> set us \<subseteq> dom h"
proof (induction us rule: induct_list012)
  case (3 x y zs)
  then have "{x, y} \<subseteq> dom h" by (auto simp: link_def dest: get_defined)
  with 3 show ?case by (cases zs) auto
qed simp_all

lemma ring_dom: "ring h head xs \<Longrightarrow> set (head # xs) \<subseteq> dom h"
  using chain_dom [of h "head # xs @ [head]"] by (auto simp: ring_def)

lemma ring_frame:
  assumes "ring h head xs" "\<And>a. a \<in> set (head # xs) \<Longrightarrow> h' a = h a"
  shows "ring h' head xs"
proof -
  have "successively (link h') (head # xs @ [head]) = successively (link h) (head # xs @ [head])"
    by (rule chain_frame) (use assms(2) in \<open>auto simp: get_next_def get_prev_def dest: in_set_butlastD\<close>)
  then show ?thesis using assms(1) by (simp add: ring_def)
qed

section \<open>The operations on rings\<close>

lemma INIT_LIST_HEAD_ring:
  assumes "p \<in> dom h"
  shows "\<exists>h'. INIT_LIST_HEAD p h = Some h' \<and> ring h' p [] \<and> (\<forall>a. a \<noteq> p \<longrightarrow> h' a = h a) \<and> dom h' = dom h"
  using assms by (auto simp: INIT_LIST_HEAD_def ring_def link_def)

lemma list_add_between_ring:
  assumes r: "ring h head (xs @ ys)" and e: "e \<notin> set (head # xs @ ys)" "e \<in> dom h"
    and p: "p = last (head # xs)" and n: "n = hd (ys @ [head])"
  shows "\<exists>h'. list_add_between e p n h = Some h' \<and> ring h' head (xs @ e # ys) \<and>
    (\<forall>a. a \<noteq> e \<longrightarrow> a \<notin> set (head # xs @ ys) \<longrightarrow> h' a = h a) \<and> dom h' = dom h"
proof -
  have mem: "p \<in> set (head # xs)" "n \<in> set (ys @ [head])"
    unfolding p n by (rule last_in_set, simp) (rule hd_in_set, simp)
  then have dom: "p \<in> dom h" "n \<in> dom h" using ring_dom [OF r] by auto
  have ne: "e \<noteq> p" "e \<noteq> n" using e(1) mem by auto
  define h' where "h' = upd_next (upd_prev (upd_next (upd_prev h n e) e n) e p) p e"
  have run: "list_add_between e p n h = Some h'"
    using dom e(2) by (simp add: list_add_between_def h'_def)
  have nx: "get_next a h' = (if a = p then Some e else if a = e then Some n else get_next a h)" for a
    using dom e(2) ne by (auto simp: h'_def)
  have pv: "get_prev a h' = (if a = e then Some p else if a = n then Some e else get_prev a h)" for a
    using dom e(2) ne by (auto simp: h'_def)
  have d: "distinct (head # xs)" "distinct (ys @ [head])" using r by (auto simp: ring_split)
  have "successively (link h') (head # xs) = successively (link h) (head # xs)"
    by (rule chain_upd [where p = p and n = n])
      (use d r e mem last_notin_butlast [OF d(1)] nx pv in \<open>auto simp: ring_split p n hd_append split: if_splits\<close>)
  moreover have "successively (link h') (ys @ [head]) = successively (link h) (ys @ [head])"
    by (rule chain_upd [where p = p and n = n])
      (use d r e mem hd_notin_tl [OF d(2)] nx pv in \<open>auto simp: ring_split p n butlast_append\<close>)
  moreover have "link h' p e" "link h' e n" using ne nx pv by (auto simp: link_def)
  ultimately have "ring h' head (xs @ e # ys)"
    using r e(1) p n by (simp only: ring_split) (auto simp: successively_Cons)
  moreover have "h' a = h a" if "a \<noteq> e" "a \<notin> set (head # xs @ ys)" for a
  proof -
    have "a \<noteq> p" "a \<noteq> n" using that mem by auto
    with that(1) show ?thesis by (simp add: h'_def)
  qed
  ultimately show ?thesis using run by (auto simp: h'_def)
qed

lemma list_add_ring:
  assumes "ring h head xs" "e \<notin> set (head # xs)" "e \<in> dom h"
  shows "\<exists>h'. list_add e head h = Some h' \<and> ring h' head (e # xs) \<and>
    (\<forall>a. a \<noteq> e \<longrightarrow> a \<notin> set (head # xs) \<longrightarrow> h' a = h a) \<and> dom h' = dom h"
  using list_add_between_ring [of h head "[]" xs e head "hd (xs @ [head])"] assms ring_ends(1) [OF assms(1)]
  by (simp add: list_add_def)

lemma list_add_tail_ring:
  assumes "ring h head xs" "e \<notin> set (head # xs)" "e \<in> dom h"
  shows "\<exists>h'. list_add_tail e head h = Some h' \<and> ring h' head (xs @ [e]) \<and>
    (\<forall>a. a \<noteq> e \<longrightarrow> a \<notin> set (head # xs) \<longrightarrow> h' a = h a) \<and> dom h' = dom h"
  using list_add_between_ring [of h head xs "[]" e "last (head # xs)" head] assms ring_ends(2) [OF assms(1)]
  by (simp add: list_add_tail_def)

lemma ring_neighbours:
  assumes "ring h head (xs @ e # ys)"
  shows "get_prev e h = Some (last (head # xs))" "get_next e h = Some (hd (ys @ [head]))"
proof -
  have "ring h head ((xs @ [e]) @ ys)" using assms by simp
  then show "get_next e h = Some (hd (ys @ [head]))" by (auto simp only: ring_split link_def last_snoc append_Cons [symmetric]) 
  show "get_prev e h = Some (last (head # xs))" using assms by (auto simp only: ring_split link_def append_Cons list.sel(1))
qed

lemma list_del_between_ring:
  assumes r: "ring h head (xs @ e # ys)"
    and p: "p = last (head # xs)" and n: "n = hd (ys @ [head])"
  shows "\<exists>h'. list_del_between p n h = Some h' \<and> ring h' head (xs @ ys) \<and>
    h' e = h e \<and> (\<forall>a. a \<notin> set (head # xs @ ys) \<longrightarrow> h' a = h a) \<and> dom h' = dom h"
proof -
  have mem: "p \<in> set (head # xs)" "n \<in> set (ys @ [head])"
    unfolding p n by (rule last_in_set, simp) (rule hd_in_set, simp)
  have dist: "distinct (head # xs @ e # ys)" using r by (simp add: ring_def)
  have dom: "p \<in> dom h" "n \<in> dom h" using ring_dom [OF r] mem by auto
  have ne: "e \<noteq> p" "e \<noteq> n" using dist mem by auto
  define h' where "h' = upd_next (upd_prev h n p) p n"
  have run: "list_del_between p n h = Some h'" using dom by (simp add: list_del_between_def h'_def)
  have nx: "get_next a h' = (if a = p then Some n else get_next a h)" for a
    using dom by (simp add: h'_def)
  have pv: "get_prev a h' = (if a = n then Some p else get_prev a h)" for a
    using dom by (simp add: h'_def)
  have d: "distinct (head # xs)" "distinct (ys @ [head])" using dist by auto
  have c: "successively (link h) (head # xs)" "successively (link h) (ys @ [head])"
    using r ring_split [of h head xs "e # ys"] by (auto simp: successively_Cons)
  have "successively (link h') (head # xs) = successively (link h) (head # xs)"
    by (rule chain_upd [where p = p and n = n])
      (use d dist mem last_notin_butlast [OF d(1)] nx pv in \<open>auto simp: p n hd_append split: if_splits\<close>)
  moreover have "successively (link h') (ys @ [head]) = successively (link h) (ys @ [head])"
    by (rule chain_upd [where p = p and n = n])
      (use d dist mem hd_notin_tl [OF d(2)] nx pv in \<open>auto simp: p n butlast_append\<close>)
  moreover have "link h' p n" using nx pv by (simp add: link_def)
  ultimately have "ring h' head (xs @ ys)"
    using c dist p n by (simp only: ring_split) auto
  moreover have "h' a = h a" if "a \<noteq> p" "a \<noteq> n" for a using that by (simp add: h'_def)
  ultimately show ?thesis using run ne mem by (auto simp: h'_def)
qed

lemma list_del_ring:
  assumes r: "ring h head (xs @ e # ys)"
  shows "\<exists>h'. list_del e h = Some h' \<and> ring h' head (xs @ ys) \<and>
    get_next e h' = Some 0 \<and> get_prev e h' = Some 0 \<and>
    (\<forall>a. a \<notin> set (head # xs @ e # ys) \<longrightarrow> h' a = h a) \<and> dom h' = dom h"
proof -
  obtain h1 where h1: "list_del_between (last (head # xs)) (hd (ys @ [head])) h = Some h1"
      "ring h1 head (xs @ ys)" "\<forall>a. a \<notin> set (head # xs @ ys) \<longrightarrow> h1 a = h a" "dom h1 = dom h"
    using list_del_between_ring [OF r refl refl] by blast
  have e: "e \<in> dom h1" "e \<notin> set (head # xs @ ys)" using ring_dom [OF r] h1(4) r by (auto simp: ring_def)
  let ?h' = "upd_prev (upd_next h1 e 0) e 0"
  have "list_del e h = Some ?h'"
    using ring_neighbours [OF r] h1(1) e(1) by (simp add: list_del_def)
  moreover have "ring ?h' head (xs @ ys)"
    by (rule ring_frame [OF h1(2)]) (use e(2) in auto)
  ultimately show ?thesis using h1(3,4) e by auto
qed

lemma list_del_init_ring:
  assumes r: "ring h head (xs @ e # ys)"
  shows "\<exists>h'. list_del_init e h = Some h' \<and> ring h' head (xs @ ys) \<and> ring h' e [] \<and>
    (\<forall>a. a \<notin> set (head # xs @ e # ys) \<longrightarrow> h' a = h a) \<and> dom h' = dom h"
proof -
  obtain h1 where h1: "list_del_between (last (head # xs)) (hd (ys @ [head])) h = Some h1"
      "ring h1 head (xs @ ys)" "\<forall>a. a \<notin> set (head # xs @ ys) \<longrightarrow> h1 a = h a" "dom h1 = dom h"
    using list_del_between_ring [OF r refl refl] by blast
  have e: "e \<in> dom h1" "e \<notin> set (head # xs @ ys)" using ring_dom [OF r] h1(4) r by (auto simp: ring_def)
  obtain h' where h': "INIT_LIST_HEAD e h1 = Some h'" "ring h' e []" "\<forall>a. a \<noteq> e \<longrightarrow> h' a = h1 a" "dom h' = dom h1"
    using INIT_LIST_HEAD_ring [OF e(1)] by blast
  have "ring h' head (xs @ ys)" by (rule ring_frame [OF h1(2)]) (use e(2) h'(3) in auto)
  then show ?thesis using ring_neighbours [OF r] h1 h' by (auto simp: list_del_init_def)
qed

lemma list_move_ring:
  assumes r: "ring h head (xs @ e # ys)" and r2: "ring h head2 zs"
    and dj: "set (head # xs @ e # ys) \<inter> set (head2 # zs) = {}"
  shows "\<exists>h'. list_move e head2 h = Some h' \<and> ring h' head (xs @ ys) \<and> ring h' head2 (e # zs)"
    and "\<exists>h'. list_move_tail e head2 h = Some h' \<and> ring h' head (xs @ ys) \<and> ring h' head2 (zs @ [e])"
proof -
  obtain h1 where h1: "list_del_between (last (head # xs)) (hd (ys @ [head])) h = Some h1"
      "ring h1 head (xs @ ys)" "\<forall>a. a \<notin> set (head # xs @ ys) \<longrightarrow> h1 a = h a" "dom h1 = dom h"
    using list_del_between_ring [OF r refl refl] by blast
  have r21: "ring h1 head2 zs" by (rule ring_frame [OF r2]) (use dj h1(3) in auto)
  have e: "e \<in> dom h1" "e \<notin> set (head2 # zs)" "e \<notin> set (head # xs @ ys)"
    using ring_dom [OF r] h1(4) dj r by (auto simp: ring_def)
  have keep: "ring h' head (xs @ ys)"
    if "\<forall>a. a \<noteq> e \<longrightarrow> a \<notin> set (head2 # zs) \<longrightarrow> h' a = h1 a" for h'
    by (rule ring_frame [OF h1(2)]) (use that e(3) dj in auto)
  show "\<exists>h'. list_move e head2 h = Some h' \<and> ring h' head (xs @ ys) \<and> ring h' head2 (e # zs)"
    using list_add_ring [OF r21 e(2,1)] keep ring_neighbours [OF r] h1(1)
    by (auto simp: list_move_def)
  show "\<exists>h'. list_move_tail e head2 h = Some h' \<and> ring h' head (xs @ ys) \<and> ring h' head2 (zs @ [e])"
    using list_add_tail_ring [OF r21 e(2,1)] keep ring_neighbours [OF r] h1(1)
    by (auto simp: list_move_tail_def)
qed

lemma list_empty_ring:
  assumes "ring h head xs"
  shows "list_empty head h = Some (xs = [])"
  using ring_ends(1) [OF assms] assms by (cases xs) (auto simp: list_empty_def ring_def)

lemma list_splice_raw_ring:
  assumes r1: "ring h l xs" and r2: "ring h head ys" and ne: "xs \<noteq> []"
    and dj: "set (l # xs) \<inter> set (head # ys) = {}"
  shows "\<exists>h'. list_splice_raw l head h = Some h' \<and> ring h' head (xs @ ys) \<and>
    (\<forall>a. a \<notin> set (xs @ head # ys) \<longrightarrow> h' a = h a) \<and> dom h' = dom h"
proof -
  define f b n where "f = hd xs" and "b = last xs" and "n = hd (ys @ [head])"
  have mem: "f \<in> set xs" "b \<in> set xs" "n \<in> set (ys @ [head])"
    unfolding f_def b_def n_def
    by (rule hd_in_set [OF ne], rule last_in_set [OF ne]) (rule hd_in_set, simp)
  have ends: "get_next l h = Some f" "get_prev l h = Some b" "get_next head h = Some n"
    using ring_ends [OF r1] ring_ends [OF r2] ne by (simp_all add: f_def b_def n_def)
  have dom: "f \<in> dom h" "b \<in> dom h" "n \<in> dom h" "head \<in> dom h"
    using ring_dom [OF r1] ring_dom [OF r2] mem by auto
  have ne': "f \<noteq> n" "b \<noteq> head" using mem dj by auto
  define h' where "h' = upd_prev (upd_next (upd_next (upd_prev h f head) head f) b n) n b"
  have run: "list_splice_raw l head h = Some h'"
    using ends dom by (simp add: list_splice_raw_def h'_def)
  have nx: "get_next a h' = (if a = b then Some n else if a = head then Some f else get_next a h)" for a
    using dom by (auto simp: h'_def)
  have pv: "get_prev a h' = (if a = n then Some b else if a = f then Some head else get_prev a h)" for a
    using dom by (auto simp: h'_def)
  have d: "distinct xs" "distinct (ys @ [head])" using r1 r2 by (auto simp: ring_def)
  have c: "successively (link h) xs" "successively (link h) (ys @ [head])"
    using r1 r2 by (auto simp: ring_def successively_append_iff successively_Cons)
  have "successively (link h') xs = successively (link h) xs"
    by (rule chain_upd [where p = b and n = f])
      (use d dj mem ne last_notin_butlast [OF d(1)] hd_notin_tl [OF d(1)] nx pv in \<open>auto simp: b_def f_def\<close>)
  moreover have "successively (link h') (ys @ [head]) = successively (link h) (ys @ [head])"
    by (rule chain_upd [where p = head and n = n])
      (use d dj mem hd_notin_tl [OF d(2)] nx pv in \<open>auto simp: n_def butlast_append\<close>)
  moreover have "link h' head f" "link h' b n" using nx pv ne' mem dj by (auto simp: link_def)
  ultimately have "ring h' head (xs @ ys)"
    using c r1 r2 dj ne unfolding ring_split
    by (auto simp: ring_def successively_Cons f_def b_def n_def)
  moreover have "\<forall>a. a \<notin> set (xs @ head # ys) \<longrightarrow> h' a = h a"
    using mem by (auto simp: h'_def)
  ultimately show ?thesis using run by (auto simp: h'_def)
qed

lemma list_splice_init_ring:
  assumes r1: "ring h l xs" and r2: "ring h head ys" and dj: "set (l # xs) \<inter> set (head # ys) = {}"
  shows "\<exists>h'. list_splice_init l head h = Some h' \<and> ring h' head (xs @ ys) \<and> ring h' l []"
proof (cases "xs = []")
  case True
  then show ?thesis using r1 r2 list_empty_ring [OF r1] by (simp add: list_splice_init_def)
next
  case False
  obtain h1 where h1: "list_splice_raw l head h = Some h1" "ring h1 head (xs @ ys)" "dom h1 = dom h"
    using list_splice_raw_ring [OF r1 r2 False dj] by blast
  have l: "l \<in> dom h1" "l \<notin> set (head # xs @ ys)"
    using ring_dom [OF r1] h1(3) dj r1 by (auto simp: ring_def)
  obtain h' where h': "INIT_LIST_HEAD l h1 = Some h'" "ring h' l []" "\<forall>a. a \<noteq> l \<longrightarrow> h' a = h1 a"
    using INIT_LIST_HEAD_ring [OF l(1)] by blast
  have "ring h' head (xs @ ys)" by (rule ring_frame [OF h1(2)]) (use l(2) h'(3) in auto)
  then show ?thesis
    using False h1(1) h' list_empty_ring [OF r1] by (simp add: list_splice_init_def)
qed

lemma list_for_each_chain:
  assumes "successively (link h) (x # xs @ [head])" "head \<notin> set xs" "length xs < fuel"
    "get_next x h = Some n"
  shows "list_for_each fuel n head h = Some xs"
  using assms
proof (induction xs arbitrary: x n fuel)
  case Nil
  then show ?case by (cases fuel) (auto simp: link_def)
next
  case (Cons y ys)
  then obtain k where fuel: "fuel = Suc k" by (cases fuel) auto
  have y: "n = y" and c: "successively (link h) (y # ys @ [head])"
    using Cons.prems(1,4) by (auto simp: link_def)
  obtain m where m: "get_next y h = Some m" using c by (cases ys) (auto simp: link_def)
  have "list_for_each k m head h = Some ys"
    using Cons.IH [OF c _ _ m] Cons.prems(2,3) fuel by simp
  then show ?case using fuel y m Cons.prems(2) by auto
qed

lemma list_entries_ring:
  assumes "ring h head xs" "length xs < fuel"
  shows "list_entries fuel head h = Some xs"
  using list_for_each_chain [of h head xs head fuel] assms ring_ends(1) [OF assms(1)]
  by (auto simp: list_entries_def ring_def)

section \<open>The interface that users of lists rely on\<close>

text \<open>
  A client of list.h keeps a queue: it appends entries it owns and later takes the first entry
  off. What it relies on is the contract below; the store and the pointers are behind it.
\<close>

fun add_all :: "('p \<Rightarrow> 'p \<Rightarrow> 'h \<Rightarrow> 'h option) \<Rightarrow> 'p \<Rightarrow> 'p list \<Rightarrow> 'h \<Rightarrow> 'h option" where
  "add_all add q [] h = Some h"
| "add_all add q (e # es) h = do { h \<leftarrow> add e q h; add_all add q es h }"

fun drain :: "('p \<Rightarrow> 'h \<Rightarrow> 'p option) \<Rightarrow> ('p \<Rightarrow> 'h \<Rightarrow> 'h option) \<Rightarrow> nat \<Rightarrow> 'p \<Rightarrow> 'h \<Rightarrow> ('p list \<times> 'h) option" where
  "drain first del 0 q h = Some ([], h)"
| "drain first del (Suc n) q h = do {
     e \<leftarrow> first q h;
     h \<leftarrow> del e h;
     (es, h) \<leftarrow> drain first del n q h;
     Some (e # es, h) }"

locale queue_interface =
  fixes holds :: "'h \<Rightarrow> 'p \<Rightarrow> 'p list \<Rightarrow> bool"
    and alive :: "'h \<Rightarrow> 'p \<Rightarrow> bool"
    and add :: "'p \<Rightarrow> 'p \<Rightarrow> 'h \<Rightarrow> 'h option"
    and first :: "'p \<Rightarrow> 'h \<Rightarrow> 'p option"
    and del :: "'p \<Rightarrow> 'h \<Rightarrow> 'h option"
  assumes add_law: "holds h q xs \<Longrightarrow> e \<notin> set (q # xs) \<Longrightarrow> alive h e \<Longrightarrow>
      \<exists>h'. add e q h = Some h' \<and> holds h' q (xs @ [e]) \<and> alive h' = alive h"
    and first_law: "holds h q (x # xs) \<Longrightarrow> first q h = Some x"
    and del_law: "holds h q (x # xs) \<Longrightarrow> \<exists>h'. del x h = Some h' \<and> holds h' q xs"
begin

lemma add_all_holds:
  assumes "holds h q xs" "distinct (q # xs @ es)" "\<forall>e \<in> set es. alive h e"
  shows "\<exists>h'. add_all add q es h = Some h' \<and> holds h' q (xs @ es)"
  using assms
proof (induction es arbitrary: h xs)
  case Nil
  then show ?case by simp
next
  case (Cons e es)
  then obtain h1 where h1: "add e q h = Some h1" "holds h1 q (xs @ [e])" "alive h1 = alive h"
    using add_law [of h q xs e] by auto
  then obtain h' where "add_all add q es h1 = Some h'" "holds h' q ((xs @ [e]) @ es)"
    using Cons.IH [of h1 "xs @ [e]"] Cons.prems by auto
  with h1(1) show ?case by simp
qed

lemma drain_holds:
  assumes "holds h q (xs @ ys)"
  shows "\<exists>h'. drain first del (length xs) q h = Some (xs, h') \<and> holds h' q ys"
  using assms
proof (induction xs arbitrary: h)
  case Nil
  then show ?case by simp
next
  case (Cons x xs)
  then obtain h1 where "first q h = Some x" "del x h = Some h1" "holds h1 q (xs @ ys)"
    using first_law del_law by (metis append_Cons)
  then show ?case using Cons.IH [of h1] by auto
qed

lemma fifo:
  assumes "holds h q []" "distinct (q # es)" "\<forall>e \<in> set es. alive h e"
  shows "\<exists>h1 h2. add_all add q es h = Some h1 \<and>
    drain first del (length es) q h1 = Some (es, h2) \<and> holds h2 q []"
  using add_all_holds [of h q "[]" es] drain_holds [of _ q es "[]"] assms by auto

end

interpretation lh: queue_interface ring "\<lambda>h a. a \<in> dom h" list_add_tail get_next list_del
proof unfold_locales
  fix h q xs e
  assume "ring h q xs" "e \<notin> set (q # xs)" "e \<in> dom h"
  then show "\<exists>h'. list_add_tail e q h = Some h' \<and> ring h' q (xs @ [e]) \<and>
      (\<lambda>a. a \<in> dom h') = (\<lambda>a. a \<in> dom h)"
    using list_add_tail_ring by metis
next
  fix h q x xs
  assume r: "ring h q (x # xs)"
  show "get_next q h = Some x" using ring_ends(1) [OF r] by simp
  show "\<exists>h'. list_del x h = Some h' \<and> ring h' q xs" using list_del_ring [of h q "[]" x xs] r by auto
qed

section \<open>Properties\<close>

definition demo_heap :: heap where
  "demo_heap = [1 \<mapsto> \<lparr>lh_next = 1, lh_prev = 1\<rparr>, 2 \<mapsto> \<lparr>lh_next = 3, lh_prev = 3\<rparr>,
     3 \<mapsto> \<lparr>lh_next = 2, lh_prev = 2\<rparr>, 4 \<mapsto> \<lparr>lh_next = 0, lh_prev = 0\<rparr>,
     5 \<mapsto> \<lparr>lh_next = 0, lh_prev = 0\<rparr>]"

lemma demo_rings: "ring demo_heap 1 []" "ring demo_heap 2 [3]" "4 \<in> dom demo_heap" "5 \<in> dom demo_heap"
  by (auto simp: demo_heap_def ring_def link_def get_next_def get_prev_def)

text \<open>C23. On a well-formed list, \<open>list_add\<close> puts the new entry first, \<open>list_add_tail\<close> puts it last,
  and \<open>list_del\<close> takes an entry out wherever it is; none of them dereferences invalid memory,
  and a list that shares no entry with the arguments is left as it is.\<close>

theorem list_head_refines_list:
  assumes "ring h head (xs @ ys)" and "e \<notin> set (head # xs @ ys)" and "e \<in> dom h"
    and "ring h other zs" and "set (other # zs) \<inter> set (e # head # xs @ ys) = {}"
  shows "(\<exists>h'. list_add e head h = Some h' \<and> ring h' head (e # xs @ ys) \<and> ring h' other zs) \<and>
    (\<exists>h'. list_add_tail e head h = Some h' \<and> ring h' head (xs @ ys @ [e]) \<and> ring h' other zs) \<and>
    (ys \<noteq> [] \<longrightarrow> (\<exists>h'. list_del (hd ys) h = Some h' \<and> ring h' head (xs @ tl ys) \<and> ring h' other zs))"
proof -
  have other: "ring h' other zs" if "\<forall>a. a \<noteq> e \<longrightarrow> a \<notin> set (head # xs @ ys) \<longrightarrow> h' a = h a" for h'
    by (rule ring_frame [OF assms(4)]) (use that assms(5) in auto)
  have "\<exists>h'. list_del (hd ys) h = Some h' \<and> ring h' head (xs @ tl ys) \<and> ring h' other zs" if "ys \<noteq> []"
  proof -
    have "ring h head (xs @ hd ys # tl ys)" using assms(1) that by simp
    from list_del_ring [OF this] show ?thesis using that other by auto
  qed
  then show ?thesis
    using list_add_ring [OF assms(1-3)] list_add_tail_ring [OF assms(1-3)] other by auto
qed

theorem list_head_refines_list_witness:
  "\<exists>h'. list_add_tail 4 2 demo_heap = Some h' \<and> ring h' 2 [3, 4] \<and> ring h' 1 []"
proof -
  have "ring demo_heap 2 ([] @ [3])" using demo_rings by simp
  from list_head_refines_list [OF this _ demo_rings(3) demo_rings(1)]
  show ?thesis by simp
qed

text \<open>C24. Queue discipline: entries appended with \<open>list_add_tail\<close> and then taken off the front with
  \<open>list_del\<close> come out in the order they went in, and the list is empty again.\<close>

theorem list_head_fifo:
  assumes "ring h head []" and "distinct (head # es)" and "set es \<subseteq> dom h"
  shows "\<exists>h1 h2. add_all list_add_tail head es h = Some h1 \<and>
    drain get_next list_del (length es) head h1 = Some (es, h2) \<and> ring h2 head []"
  by (rule lh.fifo [OF assms(1,2)]) (use assms(3) in auto)

theorem list_head_fifo_witness:
  "\<exists>h1 h2. add_all list_add_tail 1 [5, 4] demo_heap = Some h1 \<and>
    drain get_next list_del (length [5, 4 :: nat]) 1 h1 = Some ([5, 4], h2) \<and> ring h2 1 []"
  by (rule list_head_fifo [OF demo_rings(1)]) (use demo_rings in simp_all)

text \<open>C25. \<open>list_splice_init\<close> puts the entries of one list, in order, before those of another and
  leaves the first list empty; \<open>list_for_each\<close> then visits exactly the joined entries.\<close>

theorem list_splice_init_joins:
  assumes "ring h l xs" and "ring h head ys" and "set (l # xs) \<inter> set (head # ys) = {}"
  shows "\<exists>h'. list_splice_init l head h = Some h' \<and>
    list_entries (Suc (length (xs @ ys))) head h' = Some (xs @ ys) \<and> list_empty l h' = Some True"
proof -
  obtain h' where h': "list_splice_init l head h = Some h'" "ring h' head (xs @ ys)" "ring h' l []"
    using list_splice_init_ring [OF assms] by blast
  then show ?thesis
    using list_entries_ring [OF h'(2) lessI] list_empty_ring [OF h'(3)] by simp
qed

theorem list_splice_init_joins_witness:
  "\<exists>h'. list_splice_init 2 1 demo_heap = Some h' \<and>
    list_entries (Suc (length ([3] @ [] :: nat list))) 1 h' = Some ([3] @ []) \<and> list_empty 2 h' = Some True"
  by (rule list_splice_init_joins [OF demo_rings(2,1)]) simp

end
