(* ===== verification/Timer.thy ===== *)
theory Timer
  imports Prelude "HOL-Library.Monad_Syntax"
begin

text \<open>
  The cascading timer wheel of kernel/timer.c on a uniprocessor. The five vectors are an array
  of arrays of lists, as \<open>tvecs\<close> names them: \<open>tvecs 0\<close> is \<open>tv1\<close> (256 slots), \<open>tvecs 1\<close> to \<open>tvecs 4\<close>
  are \<open>tv2\<close> to \<open>tv5\<close> (64 slots each). A timer structure is known by its identity; its
  field \<open>expires\<close> is a map, and \<open>timer_pending\<close>, which tests \<open>list.next\<close> against NULL, is the
  map \<open>linked\<close>. Time is the 32-bit \<open>jiffies\<close> and wraps. The functions of expired timers are called
  with the lock released; they are a parameter, and what they do to the wheel is a sequence of
  \<open>add_timer\<close>, \<open>mod_timer\<close> and \<open>del_timer\<close> calls. \<open>calls\<close> logs the calls of timer functions
  with the tick that is being processed. Locking and the message for a timer added twice are left out.
\<close>

section \<open>State\<close>

type_synonym tid = nat

definition TVN_BITS :: nat where "TVN_BITS = 6"
definition TVR_BITS :: nat where "TVR_BITS = 8"
definition TVN_SIZE :: nat where "TVN_SIZE = 2 ^ TVN_BITS"
definition TVR_SIZE :: nat where "TVR_SIZE = 2 ^ TVR_BITS"
definition TVN_MASK :: u32 where "TVN_MASK = of_nat (TVN_SIZE - 1)"
definition TVR_MASK :: u32 where "TVR_MASK = of_nat (TVR_SIZE - 1)"
definition NOOF_TVECS :: nat where "NOOF_TVECS = 5"

record timer_vec =
  index :: nat
  vec :: "nat \<Rightarrow> tid list"

record wheel =
  tvecs :: "nat \<Rightarrow> timer_vec"
  timer_jiffies :: u32
  run_timer_list_running :: "tid list option"
  expires :: "tid \<Rightarrow> u32"
  linked :: "tid \<Rightarrow> bool"
  calls :: "(tid \<times> u32) list"

abbreviation slot :: "wheel \<Rightarrow> nat \<Rightarrow> nat \<Rightarrow> tid list" where
  "slot s n i \<equiv> vec (tvecs s n) i"

definition init_timervecs :: "wheel \<Rightarrow> wheel" where
  "init_timervecs s = s\<lparr>tvecs := (\<lambda>n. (tvecs s n)\<lparr>vec := (\<lambda>_. [])\<rparr>)\<rparr>"

definition timer_pending :: "tid \<Rightarrow> wheel \<Rightarrow> bool" where
  "timer_pending t s = linked s t"

section \<open>Adding and deleting timers\<close>

text \<open>\<open>list_add (&timer->list, vec->prev)\<close>: at the tail of slot \<open>i\<close> of vector \<open>n\<close>.\<close>

definition add_to_vec :: "nat \<Rightarrow> nat \<Rightarrow> tid \<Rightarrow> wheel \<Rightarrow> wheel" where
  "add_to_vec n i t s =
     s\<lparr>tvecs := (tvecs s)(n := (tvecs s n)\<lparr>vec := (vec (tvecs s n))(i := vec (tvecs s n) i @ [t])\<rparr>),
       linked := (linked s)(t := True)\<rparr>"

definition internal_add_timer :: "tid \<Rightarrow> wheel \<Rightarrow> wheel" where
  "internal_add_timer t s =
     (let e = expires s t; idx = e - timer_jiffies s in
      case run_timer_list_running s of
        Some q \<Rightarrow> s\<lparr>run_timer_list_running := Some (q @ [t]), linked := (linked s)(t := True)\<rparr>
      | None \<Rightarrow>
          if idx < of_nat TVR_SIZE then add_to_vec 0 (unat (e AND TVR_MASK)) t s
          else if idx < 2 ^ (TVR_BITS + TVN_BITS)
          then add_to_vec 1 (unat (drop_bit TVR_BITS e AND TVN_MASK)) t s
          else if idx < 2 ^ (TVR_BITS + 2 * TVN_BITS)
          then add_to_vec 2 (unat (drop_bit (TVR_BITS + TVN_BITS) e AND TVN_MASK)) t s
          else if idx < 2 ^ (TVR_BITS + 3 * TVN_BITS)
          then add_to_vec 3 (unat (drop_bit (TVR_BITS + 2 * TVN_BITS) e AND TVN_MASK)) t s
          else if sint idx < 0 then add_to_vec 0 (index (tvecs s 0)) t s
          else if idx \<le> 0xffffffff
          then add_to_vec 4 (unat (drop_bit (TVR_BITS + 3 * TVN_BITS) e AND TVN_MASK)) t s
          else s\<lparr>linked := (linked s)(t := True)\<rparr>)"

definition add_timer :: "tid \<Rightarrow> wheel \<Rightarrow> wheel" where
  "add_timer t s = (if timer_pending t s then s else internal_add_timer t s)"

text \<open>\<open>list_del\<close> of a timer: it leaves the list it is in, and its links are NULL.\<close>

definition unlink :: "tid \<Rightarrow> wheel \<Rightarrow> wheel" where
  "unlink t s =
     s\<lparr>tvecs := (\<lambda>n. (tvecs s n)\<lparr>vec := (\<lambda>i. remove1 t (vec (tvecs s n) i))\<rparr>),
       run_timer_list_running := map_option (remove1 t) (run_timer_list_running s),
       linked := (linked s)(t := False)\<rparr>"

definition detach_timer :: "tid \<Rightarrow> wheel \<Rightarrow> int \<times> wheel" where
  "detach_timer t s = (if \<not> timer_pending t s then (0, s) else (1, unlink t s))"

definition mod_timer :: "tid \<Rightarrow> u32 \<Rightarrow> wheel \<Rightarrow> int \<times> wheel" where
  "mod_timer t e s =
     (let s = s\<lparr>expires := (expires s)(t := e)\<rparr>; (ret, s) = detach_timer t s
      in (ret, internal_add_timer t s))"

definition del_timer :: "tid \<Rightarrow> wheel \<Rightarrow> int \<times> wheel" where
  "del_timer t s = (let (ret, s) = detach_timer t s in (ret, s\<lparr>linked := (linked s)(t := False)\<rparr>))"

section \<open>Running the wheel\<close>

text \<open>
  The loop of \<open>cascade_timers\<close>: \<open>cur\<close> is the entry the loop is at, \<open>None\<close> for the head, and
  its successor is read before the entry is moved.
\<close>

fun next_entry :: "tid \<Rightarrow> tid list \<Rightarrow> tid option" where
  "next_entry t [] = None"
| "next_entry t (x # xs) =
     (if x = t then (case xs of [] \<Rightarrow> None | y # _ \<Rightarrow> Some y) else next_entry t xs)"

partial_function (option) cascade_from :: "nat \<Rightarrow> nat \<Rightarrow> tid option \<Rightarrow> wheel \<Rightarrow> wheel option" where
  "cascade_from n i cur s =
     (case cur of
        None \<Rightarrow> Some s
      | Some t \<Rightarrow> cascade_from n i (next_entry t (slot s n i)) (internal_add_timer t (unlink t s)))"

definition cascade_timers :: "nat \<Rightarrow> wheel \<Rightarrow> wheel option" where
  "cascade_timers n s = do {
     let i = index (tvecs s n);
     s \<leftarrow> cascade_from n i (case slot s n i of [] \<Rightarrow> None | t # _ \<Rightarrow> Some t) s;
     Some (s\<lparr>tvecs := (tvecs s)(n := (tvecs s n)\<lparr>vec := (vec (tvecs s n))(i := []),
              index := unat (of_nat (i + 1) AND TVN_MASK)\<rparr>)\<rparr>) }"

text \<open>The do-while loop over \<open>tvecs[1]\<close>, \<open>tvecs[2]\<close>, \<dots>\<close>

function cascade_levels :: "nat \<Rightarrow> wheel \<Rightarrow> wheel option" where
  "cascade_levels n s = do {
     s \<leftarrow> cascade_timers n s;
     if index (tvecs s n) = 1 \<and> n + 1 < NOOF_TVECS then cascade_levels (n + 1) s else Some s }"
  by pat_completeness auto
termination
  by (relation "measure (\<lambda>(n, _). NOOF_TVECS - n)") auto

declare cascade_levels.simps [simp del]

text \<open>What a timer function does to the wheel: the calls it makes, in order. A client sets the field
  \<open>expires\<close> only of a timer that is not pending.\<close>

datatype timer_op = Add tid u32 | Mod tid u32 | Del tid

fun do_op :: "timer_op \<Rightarrow> wheel \<Rightarrow> wheel" where
  "do_op (Add t e) s =
     (if timer_pending t s then s else add_timer t (s\<lparr>expires := (expires s)(t := e)\<rparr>))"
| "do_op (Mod t e) s = snd (mod_timer t e s)"
| "do_op (Del t) s = snd (del_timer t s)"

type_synonym timer_fns = "tid \<Rightarrow> wheel \<Rightarrow> timer_op list"

text \<open>The \<open>repeat\<close> loop: take the first timer of the current slot off and call its function.\<close>

partial_function (option) run_slot :: "timer_fns \<Rightarrow> wheel \<Rightarrow> wheel option" where
  "run_slot fn s =
     (case slot s 0 (index (tvecs s 0)) of
        [] \<Rightarrow> Some s
      | t # _ \<Rightarrow>
          let s = snd (detach_timer t s);
              s = s\<lparr>linked := (linked s)(t := False), calls := calls s @ [(t, timer_jiffies s)]\<rparr>
          in run_slot fn (fold do_op (fn t s) s))"

text \<open>One turn of the loop of \<open>run_timer_list\<close>.\<close>

definition run_tick :: "timer_fns \<Rightarrow> wheel \<Rightarrow> wheel option" where
  "run_tick fn s = do {
     s \<leftarrow> (if index (tvecs s 0) = 0 then cascade_levels 1 s else Some s);
     s \<leftarrow> run_slot fn (s\<lparr>run_timer_list_running := Some []\<rparr>);
     let queued = (case run_timer_list_running s of None \<Rightarrow> [] | Some q \<Rightarrow> q);
     let s = s\<lparr>run_timer_list_running := None,
               timer_jiffies := timer_jiffies s + 1,
               tvecs := (tvecs s)(0 := (tvecs s 0)\<lparr>
                 index := unat (of_nat (index (tvecs s 0) + 1) AND TVR_MASK)\<rparr>)\<rparr>;
     Some (fold internal_add_timer queued s) }"

partial_function (option) run_timer_list :: "timer_fns \<Rightarrow> u32 \<Rightarrow> wheel \<Rightarrow> wheel option" where
  "run_timer_list fn jiffies s =
     (if 0 \<le> sint (jiffies - timer_jiffies s)
      then do { s \<leftarrow> run_tick fn s; run_timer_list fn jiffies s }
      else Some s)"

end
