(* ===== verification/TimerProof.thy ===== *)
theory TimerProof
  imports Timer
begin

text \<open>
  The timer wheel fires every timer in the tick of its expiry. The proof follows the wheel on a
  clock of unbounded natural numbers: \<open>N\<close> is the number of ticks since the wheel was started,
  \<open>timer_jiffies\<close> is \<open>N\<close> modulo two to the 32, and a timer has a deadline \<open>D\<close> on that clock.
  \<open>placed\<close> says in which slots a timer with deadline \<open>D\<close> may be; adding, cascading and ticking
  keep it, so a timer reaches the current slot of \<open>tv1\<close> exactly in tick \<open>D\<close>.
\<close>

section \<open>Slots and arithmetic\<close>

definition lvl :: "nat \<Rightarrow> nat" where
  "lvl n = (if n = 0 then 0 else 8 + 6 * (n - 1))"

lemmas tv_consts = TVN_BITS_def TVR_BITS_def TVN_SIZE_def TVR_SIZE_def TVN_MASK_def TVR_MASK_def
  NOOF_TVECS_def

lemma lvl_simps [simp]: "lvl 0 = 0" "lvl 1 = 8" "lvl (Suc 0) = 8" "lvl 2 = 14" "lvl 3 = 20" "lvl 4 = 26"
  by (simp_all add: lvl_def)

lemma mask_consts: "TVN_MASK = mask 6" "TVR_MASK = mask 8"
  by (simp_all add: tv_consts mask_eq_exp_minus_1)

lemma slot_of_expires:
  assumes "k + 6 \<le> 32"
  shows "unat (drop_bit k (of_nat D :: u32) AND TVN_MASK) = D div 2 ^ k mod 64"
proof -
  have "unat (drop_bit k (of_nat D :: u32) AND TVN_MASK) = take_bit 6 (drop_bit k (take_bit 32 D))"
    by (simp add: mask_consts take_bit_eq_mask [symmetric] unsigned_take_bit_eq unat_drop_bit_eq
        unsigned_of_nat)
  also have "\<dots> = take_bit 6 (drop_bit k D)"
    using assms by (auto simp: drop_bit_take_bit min_def)
  finally show ?thesis by (simp add: take_bit_eq_mod drop_bit_eq_div)
qed

lemma slot_of_expires0: "unat ((of_nat D :: u32) AND TVR_MASK) = D mod 256"
proof -
  have "unat ((of_nat D :: u32) AND TVR_MASK) = take_bit 8 (take_bit 32 D)"
    by (simp add: mask_consts take_bit_eq_mask [symmetric] unsigned_take_bit_eq unsigned_of_nat)
  then show ?thesis by (simp add: take_bit_eq_mod mod_mod_cancel)
qed

lemma next_index:
  "unat (of_nat (i + 1) AND TVN_MASK) = (i + 1) mod 64"
  "unat (of_nat (i + 1) AND TVR_MASK) = (i + 1) mod 256"
  using slot_of_expires [of 0 "i + 1"] slot_of_expires0 [of "i + 1"]
  by (simp_all only: drop_bit_0 id_apply power_0 div_by_1)

text \<open>Where a timer with deadline \<open>D\<close> may be when tick \<open>N\<close> is the next to run.\<close>

definition placed :: "nat \<Rightarrow> nat \<Rightarrow> nat \<Rightarrow> nat \<Rightarrow> bool" where
  "placed N D n i \<longleftrightarrow>
     (if n = 0 then i = D mod 256 \<and> N \<le> D \<and> D < N + 256
      else n < 5 \<and> i = D div 2 ^ lvl n mod 64 \<and>
           N \<le> D div 2 ^ lvl n * 2 ^ lvl n \<and> D div 2 ^ lvl n * 2 ^ lvl n < N + 2 ^ (lvl n + 6))"

text \<open>The deadline that \<open>internal_add_timer\<close> gives an expiry: a time in the past counts as now.\<close>

definition deadline :: "nat \<Rightarrow> u32 \<Rightarrow> nat" where
  "deadline N e = (let d = unat (e - of_nat N) in if d < 2 ^ 31 then N + d else N)"

lemma of_nat_deadline:
  assumes "unat (e - of_nat N :: u32) < 2 ^ 31"
  shows "of_nat (deadline N e) = e"
  using assms by (simp add: deadline_def Let_def)

lemma deadline_of_nat:
  assumes "N \<le> D" "D < N + 2 ^ 31"
  shows "deadline N (of_nat D) = D"
proof -
  have "(of_nat D - of_nat N :: u32) = of_nat (D - N)" using assms(1) by simp
  moreover have "unat (of_nat (D - N) :: u32) = D - N"
    using assms by (simp add: unsigned_of_nat take_bit_nat_eq_self del: of_nat_diff)
  moreover have "D - N < 2 ^ 31" using assms by linarith
  ultimately show ?thesis using assms(1) by (simp add: deadline_def Let_def)
qed

lemma block_start_bounds:
  fixes D :: nat
  assumes "N + 2 ^ k \<le> D" "D < N + 2 ^ j"
  shows "N < D div 2 ^ k * 2 ^ k" "D div 2 ^ k * 2 ^ k < N + 2 ^ j"
proof -
  have "D mod 2 ^ k < 2 ^ k" "D div 2 ^ k * 2 ^ k + D mod 2 ^ k = D"
    by (simp, rule div_mult_mod_eq)
  with assms show "N < D div 2 ^ k * 2 ^ k" "D div 2 ^ k * 2 ^ k < N + 2 ^ j" by linarith+
qed

text \<open>The level and slot that \<open>internal_add_timer\<close> chooses, by the distance \<open>d\<close> to the expiry.\<close>

lemma internal_add_timer_levels:
  assumes run: "run_timer_list_running s = None" and ix: "index (tvecs s 0) = N mod 256"
    and d: "d = unat (expires s t - timer_jiffies s)"
  shows "internal_add_timer t s =
      (if d < 2 ^ 8 then add_to_vec 0 (unat (expires s t AND TVR_MASK)) t s
       else if d < 2 ^ 14 then add_to_vec 1 (unat (drop_bit 8 (expires s t) AND TVN_MASK)) t s
       else if d < 2 ^ 20 then add_to_vec 2 (unat (drop_bit 14 (expires s t) AND TVN_MASK)) t s
       else if d < 2 ^ 26 then add_to_vec 3 (unat (drop_bit 20 (expires s t) AND TVN_MASK)) t s
       else if 2 ^ 31 \<le> d then add_to_vec 0 (N mod 256) t s
       else add_to_vec 4 (unat (drop_bit 26 (expires s t) AND TVN_MASK)) t s)"
proof -
  define idx where "idx = expires s t - timer_jiffies s"
  have small: "idx < 2 ^ k \<longleftrightarrow> d < 2 ^ k" if "k < 32" for k
    using less_pow_u32 [OF that] by (simp add: d idx_def)
  have neg: "sint idx < 0 \<longleftrightarrow> 2 ^ 31 \<le> d" by (simp add: sint_neg_u32 d idx_def)
  have top: "idx \<le> 0xffffffff" using unsigned_less [of idx, where 'a = nat] by (simp add: word_le_nat_alt)
  show ?thesis
    using small [of 8] small [of 14] small [of 20] small [of 26] neg top run ix
    by (simp add: internal_add_timer_def Let_def idx_def [symmetric] TVN_BITS_def TVR_BITS_def TVR_SIZE_def)
qed

lemma internal_add_placed:
  fixes s t N
  defines "D \<equiv> deadline N (expires s t)"
  assumes run: "run_timer_list_running s = None" and tj: "timer_jiffies s = of_nat N"
    and ix: "index (tvecs s 0) = N mod 256"
  shows "\<exists>n i. internal_add_timer t s = add_to_vec n i t s \<and> placed N D n i \<and>
    (n \<noteq> 0 \<longrightarrow> N < D div 2 ^ lvl n * 2 ^ lvl n \<and> expires s t = of_nat D \<and> D < N + 2 ^ 31) \<and>
    (\<forall>m. 0 < m \<longrightarrow> D < N + 2 ^ lvl m \<longrightarrow> n < m)"
proof -
  define d where "d = unat (expires s t - timer_jiffies s)"
  note add = internal_add_timer_levels [OF run ix d_def]
  show ?thesis
  proof (cases "d < 2 ^ 31")
    case False
    then have "D = N" by (simp add: D_def deadline_def Let_def d_def tj)
    then show ?thesis using False add by (intro exI [of _ 0] exI [of _ "N mod 256"]) (simp add: placed_def)
  next
    case True
    have D: "D = N + d" "expires s t = of_nat D"
      using True of_nat_deadline [of "expires s t" N]
      by (simp_all add: D_def deadline_def Let_def d_def tj)
    have up: "2 ^ lvl m \<le> (2 :: nat) ^ lvl n" if "m \<le> n" for m n
      using that by (intro power_increasing) (auto simp: lvl_def)
    have lev: "n < m" if "2 ^ lvl n \<le> d" "D < N + 2 ^ lvl m" "n \<noteq> 0" for n m
    proof (rule ccontr)
      assume "\<not> n < m"
      then have "2 ^ lvl m \<le> (2 :: nat) ^ lvl n" using up by simp
      with that D show False by linarith
    qed
    consider "d < 2 ^ 8" | "2 ^ 8 \<le> d" "d < 2 ^ 14" | "2 ^ 14 \<le> d" "d < 2 ^ 20"
      | "2 ^ 20 \<le> d" "d < 2 ^ 26" | "2 ^ 26 \<le> d" by linarith
    then show ?thesis
    proof cases
      case 1
      then show ?thesis using add D slot_of_expires0 [of D]
        by (intro exI [of _ 0] exI [of _ "D mod 256"]) (simp add: placed_def)
    next
      case 2
      then show ?thesis using add D slot_of_expires [of 8 D] lev [of 1] True
          block_start_bounds [of N 8 D 14]
        by (intro exI [of _ 1] exI [of _ "D div 2 ^ 8 mod 64"]) (simp add: placed_def)
    next
      case 3
      then show ?thesis using add D slot_of_expires [of 14 D] lev [of 2] True
          block_start_bounds [of N 14 D 20]
        by (intro exI [of _ 2] exI [of _ "D div 2 ^ 14 mod 64"]) (simp add: placed_def)
    next
      case 4
      then show ?thesis using add D slot_of_expires [of 20 D] lev [of 3] True
          block_start_bounds [of N 20 D 26]
        by (intro exI [of _ 3] exI [of _ "D div 2 ^ 20 mod 64"]) (simp add: placed_def)
    next
      case 5
      then show ?thesis using add D slot_of_expires [of 26 D] lev [of 4] True
          block_start_bounds [of N 26 D 32]
        by (intro exI [of _ 4] exI [of _ "D div 2 ^ 26 mod 64"]) (simp add: placed_def)
    qed
  qed
qed

section \<open>The invariant\<close>

text \<open>Every list a timer can be in: the slots, and the list of timers added while functions run.\<close>

definition cell :: "wheel \<Rightarrow> (nat \<times> nat) option \<Rightarrow> tid list" where
  "cell s p = (case p of
     None \<Rightarrow> (case run_timer_list_running s of None \<Rightarrow> [] | Some q \<Rightarrow> q)
   | Some (n, i) \<Rightarrow> slot s n i)"

definition separated :: "wheel \<Rightarrow> bool" where
  "separated s \<longleftrightarrow> (\<forall>p. distinct (cell s p)) \<and>
     (\<forall>p q x. x \<in> set (cell s p) \<longrightarrow> x \<in> set (cell s q) \<longrightarrow> p = q) \<and>
     (\<forall>x. linked s x \<longleftrightarrow> (\<exists>p. x \<in> set (cell s p)))"

definition well_placed :: "wheel \<Rightarrow> nat \<Rightarrow> (tid \<Rightarrow> nat) \<Rightarrow> bool" where
  "well_placed s N dl \<longleftrightarrow> (\<forall>n i x. x \<in> set (slot s n i) \<longrightarrow> placed N (dl x) n i \<and>
     (n \<noteq> 0 \<longrightarrow> expires s x = of_nat (dl x) \<and> dl x < N + 2 ^ 31))"

definition core :: "wheel \<Rightarrow> nat \<Rightarrow> (tid \<Rightarrow> nat) \<Rightarrow> bool" where
  "core s N dl \<longleftrightarrow> timer_jiffies s = of_nat N \<and> index (tvecs s 0) = N mod 256 \<and>
     separated s \<and> well_placed s N dl"

lemma slot_cell: "slot s n i = cell s (Some (n, i))"
  by (simp add: cell_def)

lemma separatedD:
  assumes "separated s"
  shows "distinct (cell s p)" "x \<in> set (cell s p) \<Longrightarrow> x \<in> set (cell s q) \<Longrightarrow> p = q"
    "linked s x \<longleftrightarrow> (\<exists>p. x \<in> set (cell s p))"
  using assms by (auto simp: separated_def)

lemma cell_unlink [simp]: "cell (unlink t s) p = remove1 t (cell s p)"
  by (auto simp: cell_def unlink_def split: option.splits)

lemma unlink_fields [simp]:
  "timer_jiffies (unlink t s) = timer_jiffies s" "index (tvecs (unlink t s) n) = index (tvecs s n)"
  "expires (unlink t s) = expires s" "calls (unlink t s) = calls s"
  "linked (unlink t s) = (linked s)(t := False)"
  "slot (unlink t s) n i = remove1 t (slot s n i)"
  "run_timer_list_running (unlink t s) = map_option (remove1 t) (run_timer_list_running s)"
  by (simp_all add: unlink_def)

lemma unlink_expires: "unlink t (s\<lparr>expires := e\<rparr>) = (unlink t s)\<lparr>expires := e\<rparr>"
  by (cases s) (simp add: unlink_def)

lemma separated_unlink: "separated s \<Longrightarrow> separated (unlink t s)"
proof -
  assume sep: "separated s"
  have "set (remove1 t (cell s p)) = set (cell s p) - {t}" for p
    using separatedD(1) [OF sep] by (rule set_remove1_eq)
  with sep show ?thesis unfolding separated_def by (simp add: distinct_remove1) blast
qed

lemma unlink_unlinked: "separated s \<Longrightarrow> \<not> linked s t \<Longrightarrow> unlink t s = s"
proof -
  assume "separated s" "\<not> linked s t"
  then have out: "t \<notin> set (cell s p)" for p using separatedD(3) by blast
  have "remove1 t (slot s n i) = slot s n i" for n i
    using out [of "Some (n, i)"] by (simp add: remove1_idem slot_cell)
  moreover have "map_option (remove1 t) (run_timer_list_running s) = run_timer_list_running s"
    using out [of None] by (cases "run_timer_list_running s") (simp_all add: remove1_idem cell_def)
  ultimately show ?thesis using \<open>\<not> linked s t\<close> by (simp add: unlink_def fun_upd_idem)
qed

lemma separated_append:
  assumes "separated s" "\<not> linked s t" "cell s' = (cell s)(p := cell s p @ [t])"
    "linked s' = (linked s)(t := True)"
  shows "separated s'"
proof -
  have out: "t \<notin> set (cell s q)" for q using assms(1,2) separatedD(3) by blast
  have "set (cell s' q) = (if q = p then insert t (set (cell s q)) else set (cell s q))" for q
    by (simp add: assms(3))
  moreover have "distinct (cell s' q)" for q
    using separatedD(1) [OF assms(1)] out by (simp add: assms(3))
  ultimately show ?thesis using assms(1) out unfolding separated_def assms(4) by (simp, metis)
qed

lemma core_unlink: "core s N dl \<Longrightarrow> core (unlink t s) N dl"
  unfolding core_def well_placed_def unlink_fields by (meson notin_set_remove1 separated_unlink)

text \<open>Fields that neither the links nor the clock depend on.\<close>

lemma cell_update [simp]:
  "cell (s\<lparr>calls := c\<rparr>) p = cell s p" "cell (s\<lparr>expires := e\<rparr>) p = cell s p"
  "cell (s\<lparr>linked := l\<rparr>) p = cell s p" "cell (s\<lparr>timer_jiffies := j\<rparr>) p = cell s p"
  by (auto simp: cell_def split: option.splits)

lemma core_calls: "core (s\<lparr>calls := c\<rparr>) N dl \<longleftrightarrow> core s N dl"
  by (simp add: core_def separated_def well_placed_def)

lemma core_expires:
  assumes "core s N dl" "\<not> linked s t"
  shows "core (s\<lparr>expires := (expires s)(t := e)\<rparr>) N dl"
proof -
  have "t \<notin> set (slot s n i)" for n i
    using assms separatedD(3) unfolding core_def slot_cell by blast
  with assms(1) show ?thesis
    by (auto simp: core_def separated_def well_placed_def)
qed

lemma core_dl:
  assumes "core s N dl" "\<And>x n i. x \<in> set (slot s n i) \<Longrightarrow> dl' x = dl x"
  shows "core s N dl'"
  using assms by (simp add: core_def well_placed_def)

section \<open>Adding a timer keeps the invariant\<close>

lemma cell_add_to_vec: "cell (add_to_vec n i t s) = (cell s)(Some (n, i) := cell s (Some (n, i)) @ [t])"
  by (rule ext) (auto simp: cell_def add_to_vec_def split: option.splits)

lemma add_to_vec_fields [simp]:
  "timer_jiffies (add_to_vec n i t s) = timer_jiffies s"
  "index (tvecs (add_to_vec n i t s) m) = index (tvecs s m)"
  "expires (add_to_vec n i t s) = expires s" "calls (add_to_vec n i t s) = calls s"
  "linked (add_to_vec n i t s) = (linked s)(t := True)"
  "run_timer_list_running (add_to_vec n i t s) = run_timer_list_running s"
  "slot (add_to_vec n i t s) m j = (if m = n \<and> j = i then slot s n i @ [t] else slot s m j)"
  by (simp_all add: add_to_vec_def)

lemma core_add_to_vec:
  assumes "core s N dl" "\<not> linked s t" "placed N D n i"
    "n \<noteq> 0 \<Longrightarrow> expires s t = of_nat D \<and> D < N + 2 ^ 31"
  shows "core (add_to_vec n i t s) N (dl(t := D))"
proof -
  have out: "t \<notin> set (slot s m j)" for m j
    using assms(1,2) separatedD(3) unfolding core_def slot_cell by blast
  have "separated (add_to_vec n i t s)"
    using assms(1,2) by (auto intro!: separated_append [of s t _ "Some (n, i)"] simp: core_def cell_add_to_vec)
  moreover have "well_placed (add_to_vec n i t s) N (dl(t := D))"
    using assms out by (auto simp: core_def well_placed_def split: if_splits)
  ultimately show ?thesis using assms(1) by (simp add: core_def)
qed

lemma core_internal_add:
  assumes "core s N dl" "\<not> linked s t" "run_timer_list_running s = None"
  defines "D \<equiv> deadline N (expires s t)"
  obtains n i where "internal_add_timer t s = add_to_vec n i t s"
    "core (internal_add_timer t s) N (dl(t := D))"
    "n \<noteq> 0 \<Longrightarrow> N < D div 2 ^ lvl n * 2 ^ lvl n"
    "\<And>m. 0 < m \<Longrightarrow> D < N + 2 ^ lvl m \<Longrightarrow> n < m"
proof -
  obtain n i where *: "internal_add_timer t s = add_to_vec n i t s" "placed N D n i"
    "n \<noteq> 0 \<longrightarrow> N < D div 2 ^ lvl n * 2 ^ lvl n \<and> expires s t = of_nat D \<and> D < N + 2 ^ 31"
    "\<forall>m. 0 < m \<longrightarrow> D < N + 2 ^ lvl m \<longrightarrow> n < m"
    using internal_add_placed [of s N t] assms unfolding core_def by blast
  then have "core (internal_add_timer t s) N (dl(t := D))"
    using core_add_to_vec [OF assms(1,2) *(2)] by simp
  with * show ?thesis by (intro that [of n i]) auto
qed

text \<open>While timer functions run, added timers are queued.\<close>

lemma internal_add_running:
  assumes "run_timer_list_running s = Some q"
  shows "internal_add_timer t s = s\<lparr>run_timer_list_running := Some (q @ [t]), linked := (linked s)(t := True)\<rparr>"
  using assms by (simp add: internal_add_timer_def Let_def)

lemma core_internal_add_running:
  assumes "core s N dl" "\<not> linked s t" "run_timer_list_running s = Some q"
  shows "core (internal_add_timer t s) N dl"
proof -
  have "cell (internal_add_timer t s) = (cell s)(None := cell s None @ [t])"
    using assms(3) by (auto simp: internal_add_running cell_def split: option.splits)
  then have "separated (internal_add_timer t s)"
    using assms by (auto intro!: separated_append [of s t] simp: core_def internal_add_running)
  with assms show ?thesis by (simp add: internal_add_running core_def well_placed_def)
qed

section \<open>Timer functions\<close>

fun op_tid :: "timer_op \<Rightarrow> tid" where
  "op_tid (Add t e) = t"
| "op_tid (Mod t e) = t"
| "op_tid (Del t) = t"

text \<open>What the calls of a timer function leave of the wheel.\<close>

definition shrinks :: "wheel \<Rightarrow> wheel \<Rightarrow> bool" where
  "shrinks s s' \<longleftrightarrow> run_timer_list_running s' \<noteq> None \<and>
     (\<forall>n i. set (slot s' n i) \<subseteq> set (slot s n i) \<and> length (slot s' n i) \<le> length (slot s n i)) \<and>
     (\<forall>n. index (tvecs s' n) = index (tvecs s n))"

definition kept :: "tid \<Rightarrow> wheel \<Rightarrow> wheel \<Rightarrow> bool" where
  "kept x s s' \<longleftrightarrow> (\<forall>p. x \<in> set (cell s' p) \<longleftrightarrow> x \<in> set (cell s p))"

lemma shrinks_trans: "shrinks s s' \<Longrightarrow> shrinks s' s'' \<Longrightarrow> shrinks s s''"
  unfolding shrinks_def by (metis order_trans)

lemma kept_trans: "kept x s s' \<Longrightarrow> kept x s' s'' \<Longrightarrow> kept x s s''"
  by (simp add: kept_def)

lemma detach_timer_unlink: "separated s \<Longrightarrow> snd (detach_timer t s) = unlink t s"
  by (simp add: detach_timer_def timer_pending_def unlink_unlinked)

lemma shrinks_unlink: "run_timer_list_running s \<noteq> None \<Longrightarrow> shrinks s (unlink t s)"
  by (auto simp: shrinks_def set_remove1_subset length_remove1)

lemma kept_unlink: "x \<noteq> t \<Longrightarrow> kept x s (unlink t s)"
  by (simp add: kept_def)

lemma running_add:
  fixes s t e
  assumes "core s N dl" "\<not> linked s t" "run_timer_list_running s \<noteq> None"
  defines "s' \<equiv> internal_add_timer t (s\<lparr>expires := (expires s)(t := e)\<rparr>)"
  shows "core s' N dl \<and> shrinks s s' \<and> calls s' = calls s \<and> (x \<noteq> t \<longrightarrow> kept x s s')"
proof -
  obtain q where q: "run_timer_list_running s = Some q" using assms(3) by blast
  have "core s' N dl" unfolding s'_def
    using core_internal_add_running [OF core_expires [OF assms(1,2)]] assms(2) q by simp
  moreover have "shrinks s s'" "calls s' = calls s" "x \<noteq> t \<Longrightarrow> kept x s s'"
    using q by (auto simp: s'_def internal_add_running shrinks_def kept_def cell_def split: option.splits)
  ultimately show ?thesis by blast
qed

lemma running_do_op:
  fixes a s
  assumes "core s N dl" "run_timer_list_running s \<noteq> None"
  defines "s' \<equiv> do_op a s"
  shows "core s' N dl \<and> shrinks s s' \<and> calls s' = calls s \<and> (x \<noteq> op_tid a \<longrightarrow> kept x s s')"
proof (cases a)
  case (Add t e)
  then show ?thesis
    using assms running_add [where s = s and N = N and dl = dl and t = t and e = e and x = x]
    by (auto simp: timer_pending_def add_timer_def shrinks_def kept_def)
next
  case (Mod t e)
  define u where "u = unlink t s"
  have sep: "separated s" using assms(1) by (simp add: core_def)
  have "\<not> linked u t" "run_timer_list_running u \<noteq> None" "core u N dl"
    using assms core_unlink by (auto simp: u_def)
  note add = running_add [OF this(3,1,2), where e = e and x = x]
  have "s' = internal_add_timer t (u\<lparr>expires := (expires u)(t := e)\<rparr>)"
    using sep unlink_unlinked [OF sep, of t]
    by (simp add: s'_def Mod mod_timer_def Let_def detach_timer_def timer_pending_def u_def unlink_expires)
  then show ?thesis using add Mod shrinks_unlink [OF assms(2), of t] kept_unlink [of x t s]
      shrinks_trans kept_trans u_def by auto
next
  case (Del t)
  have "s' = unlink t s"
    using assms(1) unlink_unlinked [of s t]
    by (auto simp: s'_def Del del_timer_def detach_timer_def timer_pending_def core_def fun_upd_idem)
  then show ?thesis using Del assms core_unlink shrinks_unlink kept_unlink by auto
qed

lemma running_ops:
  assumes "core s N dl" "run_timer_list_running s \<noteq> None"
  shows "core (fold do_op ops s) N dl \<and> shrinks s (fold do_op ops s) \<and>
    calls (fold do_op ops s) = calls s \<and> (x \<notin> op_tid ` set ops \<longrightarrow> kept x s (fold do_op ops s))"
  using assms
proof (induction ops arbitrary: s)
  case Nil
  then show ?case by (simp add: shrinks_def kept_def)
next
  case (Cons a ops)
  note step = running_do_op [OF Cons.prems, of a x]
  then have "run_timer_list_running (do_op a s) \<noteq> None" by (simp add: shrinks_def)
  with step Cons.IH [of "do_op a s"] show ?case
    by (auto intro: shrinks_trans kept_trans)
qed

text \<open>A function that makes no call for \<open>x\<close>.\<close>

definition leaves :: "timer_fns \<Rightarrow> tid \<Rightarrow> bool" where
  "leaves fn x \<longleftrightarrow> (\<forall>t s. x \<notin> op_tid ` set (fn t s))"

section \<open>The current slot\<close>

abbreviation calls_of :: "tid \<Rightarrow> wheel \<Rightarrow> (tid \<times> u32) list" where
  "calls_of x s \<equiv> filter (\<lambda>c. fst c = x) (calls s)"

definition slot_run :: "timer_fns \<Rightarrow> nat \<Rightarrow> (tid \<Rightarrow> nat) \<Rightarrow> tid \<Rightarrow> wheel \<Rightarrow> wheel \<Rightarrow> bool" where
  "slot_run fn N dl x s s' \<longleftrightarrow> core s' N dl \<and> shrinks s s' \<and> slot s' 0 (N mod 256) = [] \<and>
     (leaves fn x \<longrightarrow>
        (\<forall>p. p \<noteq> Some (0, N mod 256) \<longrightarrow> x \<in> set (cell s' p) \<longleftrightarrow> x \<in> set (cell s p)) \<and>
        calls_of x s' = calls_of x s @ (if x \<in> set (slot s 0 (N mod 256)) then [(x, of_nat N)] else []))"

lemma run_slot_ok:
  assumes "core s N dl" "run_timer_list_running s \<noteq> None"
  shows "\<exists>s'. run_slot fn s = Some s' \<and> slot_run fn N dl x s s'"
  using assms
proof (induction "length (slot s 0 (N mod 256))" arbitrary: s rule: less_induct)
  case less
  have sep: "separated s" and ix: "index (tvecs s 0) = N mod 256" and tj: "timer_jiffies s = of_nat N"
    using less.prems(1) by (auto simp: core_def)
  show ?case
  proof (cases "slot s 0 (N mod 256)")
    case Nil
    then show ?thesis using less.prems ix
      by (simp add: run_slot.simps slot_run_def shrinks_def)
  next
    case (Cons t ts)
    define u where "u = (unlink t s)\<lparr>calls := calls s @ [(t, of_nat N)]\<rparr>"
    define v where "v = fold do_op (fn t u) u"
    have "(unlink t s)\<lparr>linked := (linked s)(t := False), calls := calls s @ [(t, of_nat N)]\<rparr> = u"
      by (simp add: u_def unlink_def)
    then have run: "run_slot fn s = run_slot fn v"
      using Cons ix tj detach_timer_unlink [OF sep, of t]
      by (subst run_slot.simps) (simp add: v_def Let_def)
    have u: "core u N dl" "run_timer_list_running u \<noteq> None" "shrinks s u" "slot u 0 (N mod 256) = ts"
      using less.prems core_unlink [of s N dl t] shrinks_unlink [of s t] Cons
      by (auto simp: u_def core_calls shrinks_def)
    have v: "core v N dl" "shrinks u v" "calls v = calls u" "leaves fn x \<Longrightarrow> kept x u v"
      using running_ops [OF u(1,2), of "fn t u" x] by (auto simp: v_def leaves_def)
    then have "length (slot v 0 (N mod 256)) < length (slot s 0 (N mod 256))"
      using u(4) Cons by (auto simp: shrinks_def less_Suc_eq_le)
    then obtain s' where s': "run_slot fn v = Some s'" "slot_run fn N dl x v s'"
      using less.hyps [of v] v by (auto simp: shrinks_def)
    have t: "x = t \<Longrightarrow> p \<noteq> Some (0, N mod 256) \<Longrightarrow> x \<notin> set (cell s p)" for p
      using separatedD(2) [OF sep, of t p "Some (0, N mod 256)"] Cons by (auto simp: slot_cell)
    have d: "t \<notin> set ts" using separatedD(1) [OF sep, of "Some (0, N mod 256)"] Cons by (simp add: slot_cell)
    have cu: "cell u p = remove1 t (cell s p)" for p by (simp add: u_def)
    have "slot_run fn N dl x s s'" unfolding slot_run_def
    proof (intro conjI impI allI)
      show "core s' N dl" "slot s' 0 (N mod 256) = []" using s'(2) by (simp_all add: slot_run_def)
      show "shrinks s s'" using s'(2) u(3) v(2) shrinks_trans by (meson slot_run_def)
    next
      fix p :: "(nat \<times> nat) option" assume "leaves fn x" "p \<noteq> Some (0, N mod 256)"
      then show "x \<in> set (cell s' p) \<longleftrightarrow> x \<in> set (cell s p)"
        using s'(2) v(4) t [of p] by (cases "x = t") (auto simp: slot_run_def kept_def cu remove1_idem)
    next
      assume q: "leaves fn x"
      then have "x \<in> set (slot v 0 (N mod 256)) \<longleftrightarrow> x \<in> set ts"
        using v(4) u(4) by (simp add: kept_def slot_cell)
      then show "calls_of x s' = calls_of x s @
          (if x \<in> set (slot s 0 (N mod 256)) then [(x, of_nat N)] else [])"
        using s'(2) q v(3) d Cons by (auto simp: slot_run_def u_def)
    qed
    with run s' show ?thesis by simp
  qed
qed

lemma slot_run_linked:
  assumes "slot_run fn N dl x s s'" "leaves fn x" "core s N dl"
  shows "linked s' x \<longleftrightarrow> linked s x \<and> x \<notin> set (slot s 0 (N mod 256))"
proof -
  let ?c = "Some (0, N mod 256)"
  have sep: "separated s" "separated s'" using assms(1,3) by (auto simp: slot_run_def core_def)
  have out: "x \<notin> set (cell s' ?c)" using assms(1) by (simp add: slot_run_def slot_cell)
  have same: "p \<noteq> ?c \<Longrightarrow> x \<in> set (cell s' p) \<longleftrightarrow> x \<in> set (cell s p)" for p
    using assms(1,2) by (simp add: slot_run_def)
  have one: "x \<in> set (cell s p) \<Longrightarrow> x \<in> set (cell s ?c) \<Longrightarrow> p = ?c" for p
    using separatedD(2) [OF sep(1)] by blast
  show ?thesis unfolding separatedD(3) [OF sep(1)] separatedD(3) [OF sep(2)] slot_cell
    using out same one by (metis (no_types))
qed

section \<open>Cascading\<close>

definition block :: "nat \<Rightarrow> nat \<Rightarrow> nat" where
  "block n D = D div 2 ^ lvl n * 2 ^ lvl n"

text \<open>All timers of vector \<open>m\<close> are in blocks that start after tick \<open>N\<close>.\<close>

definition later :: "wheel \<Rightarrow> nat \<Rightarrow> (tid \<Rightarrow> nat) \<Rightarrow> nat \<Rightarrow> bool" where
  "later s N dl m \<longleftrightarrow> (\<forall>i. \<forall>x \<in> set (slot s m i). N < block m (dl x))"

text \<open>The index of vector \<open>m\<close> when tick \<open>N\<close> is the next to run: the block that starts at or after \<open>N\<close>.\<close>

definition index_ok :: "nat \<Rightarrow> wheel \<Rightarrow> nat \<Rightarrow> bool" where
  "index_ok N s m \<longleftrightarrow> index (tvecs s m) = (N + 2 ^ lvl m - 1) div 2 ^ lvl m mod 64"

lemma mod_window:
  fixes a b k :: nat
  assumes "a \<le> b" "b < a + k" "b mod k = a mod k"
  shows "b = a"
proof -
  have "k dvd b - a" using assms(1,3) by (simp add: mod_eq_dvd_iff_nat)
  then show ?thesis using assms(1,2) by (auto dest: dvd_imp_le)
qed

lemma block_unique:
  fixes N D :: nat
  assumes "2 ^ k dvd N" "N \<le> D div 2 ^ k * 2 ^ k" "D div 2 ^ k * 2 ^ k < N + 2 ^ (k + 6)"
  shows "D div 2 ^ k mod 64 = N div 2 ^ k mod 64 \<longleftrightarrow> D div 2 ^ k * 2 ^ k = N"
proof -
  obtain a where a: "N = 2 ^ k * a" using assms(1) by (rule dvdE)
  define b where "b = D div 2 ^ k"
  have "a \<le> b" using assms(2) by (simp add: a b_def [symmetric] mult.commute)
  moreover have "b < a + 64"
  proof -
    have "b * 2 ^ k < (a + 64) * 2 ^ k" using assms(3) by (simp add: a b_def [symmetric] power_add algebra_simps)
    then show ?thesis by simp
  qed
  ultimately have "b mod 64 = a mod 64 \<longleftrightarrow> b = a" using mod_window [of a b 64] by auto
  then show ?thesis by (simp add: a b_def [symmetric])
qed

lemma level_zero_due:
  assumes "placed N D 0 (N mod 256)"
  shows "D = N"
  using assms mod_window [of N D 256] by (simp add: placed_def)

lemma placed_block:
  assumes "placed N D n i" "n \<noteq> 0" "2 ^ lvl n dvd N"
  shows "i = N div 2 ^ lvl n mod 64 \<longleftrightarrow> block n D = N"
  using assms block_unique [of "lvl n" N D] by (auto simp: placed_def block_def)

lemma block_less: "D < block n D + 2 ^ lvl n"
proof -
  have "D mod 2 ^ lvl n < 2 ^ lvl n" "block n D + D mod 2 ^ lvl n = D"
    unfolding block_def by (simp, rule div_mult_mod_eq)
  then show ?thesis by linarith
qed

lemma next_entry_head: "next_entry t (t # ts) = (case ts of [] \<Rightarrow> None | y # _ \<Rightarrow> Some y)"
  by simp

text \<open>What cascading keeps: the deadline of every timer, and the vectors above.\<close>

definition cascaded :: "nat \<Rightarrow> nat \<Rightarrow> (tid \<Rightarrow> nat) \<Rightarrow> wheel \<Rightarrow> wheel \<Rightarrow> bool" where
  "cascaded n N dl s s' \<longleftrightarrow> core s' N dl \<and> run_timer_list_running s' = None \<and>
     (\<forall>m. n < m \<longrightarrow> tvecs s' m = tvecs s m) \<and>
     (\<forall>m. m < n \<longrightarrow> index (tvecs s' m) = index (tvecs s m)) \<and>
     linked s' = linked s \<and> calls s' = calls s \<and> expires s' = expires s \<and>
     (\<forall>m. 0 < m \<longrightarrow> m < n \<longrightarrow> later s N dl m \<longrightarrow> later s' N dl m)"

lemma cascaded_refl: "core s N dl \<Longrightarrow> run_timer_list_running s = None \<Longrightarrow> cascaded n N dl s s"
  by (simp add: cascaded_def)

lemma cascade_one:
  assumes "core s N dl" "run_timer_list_running s = None" "0 < n"
    "t \<in> set (slot s n i)" "i = N div 2 ^ lvl n mod 64" "2 ^ lvl n dvd N"
  defines "s' \<equiv> internal_add_timer t (unlink t s)"
  shows "cascaded n N dl s s'" "slot s' n j = remove1 t (slot s n j)" "index (tvecs s' n) = index (tvecs s n)"
proof -
  have t: "placed N (dl t) n i" "expires s t = of_nat (dl t)" "dl t < N + 2 ^ 31"
    using assms(1,3,4) by (auto simp: core_def well_placed_def)
  then have blk: "block n (dl t) = N" using placed_block [OF t(1)] assms(3,5,6) by simp
  have "block n (dl t) \<le> dl t" by (simp add: block_def)
  then have D: "deadline N (expires (unlink t s) t) = dl t"
    using t blk deadline_of_nat [of N "dl t"] by simp
  have "core (unlink t s) N dl" "\<not> linked (unlink t s) t" "run_timer_list_running (unlink t s) = None"
    using assms(1,2) core_unlink by auto
  then obtain m k where add: "s' = add_to_vec m k t (unlink t s)"
      "core s' N (dl(t := dl t))" "m \<noteq> 0 \<Longrightarrow> N < block m (dl t)"
      "\<And>l. 0 < l \<Longrightarrow> dl t < N + 2 ^ lvl l \<Longrightarrow> m < l"
    unfolding s'_def block_def D [symmetric] by (rule core_internal_add) blast
  have s': "s' = add_to_vec m k t (unlink t s)" "core s' N dl" "m \<noteq> 0 \<Longrightarrow> N < block m (dl t)" "m < n"
    using add block_less [of "dl t" n] blk assms(3) by simp_all
  have "linked s t" using separatedD(3) assms(1,4) unfolding core_def slot_cell by blast
  moreover have vec: "slot s' m' j = (if m' = m \<and> j = k then remove1 t (slot s m k) @ [t] else remove1 t (slot s m' j))" for m' j
    by (simp add: s'(1))
  have out: "t \<notin> set (slot s m' j)" if "n < m'" for m' j
    using separatedD(2) [of s t "Some (n, i)" "Some (m', j)"] assms(1,4) that
    by (auto simp: core_def slot_cell)
  have up: "tvecs s' m' = tvecs s m'" if "n < m'" for m'
    using s'(1,4) that out [OF that] by (simp add: add_to_vec_def unlink_def remove1_idem)
  have "later s' N dl m'" if "0 < m'" "later s N dl m'" for m'
    unfolding later_def
  proof (intro allI ballI)
    fix j x assume x: "x \<in> set (slot s' m' j)"
    show "N < block m' (dl x)"
    proof (cases "x = t \<and> m' = m")
      case False
      then have "x \<in> set (slot s m' j)" using x vec [of m' j]
        by (auto split: if_splits dest: set_remove1_subset [THEN subsetD])
      then show ?thesis using that(2) by (simp add: later_def)
    qed (use s'(3) that(1) in simp)
  qed
  ultimately show "cascaded n N dl s s'" using s' assms(2) up by (simp add: cascaded_def fun_upd_idem)
  show "slot s' n j = remove1 t (slot s n j)" "index (tvecs s' n) = index (tvecs s n)"
    using s'(4) by (simp_all add: s'(1))
qed

lemma cascaded_trans: "cascaded n N dl s u \<Longrightarrow> cascaded n N dl u v \<Longrightarrow> cascaded n N dl s v"
  by (simp add: cascaded_def)

lemma cascade_from_ok:
  assumes "core s N dl" "run_timer_list_running s = None" "0 < n"
    "i = N div 2 ^ lvl n mod 64" "2 ^ lvl n dvd N"
  shows "\<exists>s'. cascade_from n i (case slot s n i of [] \<Rightarrow> None | t # _ \<Rightarrow> Some t) s = Some s' \<and>
    cascaded n N dl s s' \<and> slot s' n i = [] \<and> index (tvecs s' n) = index (tvecs s n)"
  using assms
proof (induction "slot s n i" arbitrary: s)
  case Nil
  then show ?case by (simp add: cascade_from.simps cascaded_refl Nil.hyps [symmetric])
next
  case (Cons t ts)
  define u where "u = internal_add_timer t (unlink t s)"
  have one: "cascaded n N dl s u" "slot u n i = ts" "index (tvecs u n) = index (tvecs s n)"
    using cascade_one [of s N dl n t i] Cons.prems Cons.hyps(2) [symmetric] by (simp_all add: u_def)
  then have "core u N dl" "run_timer_list_running u = None" by (simp_all add: cascaded_def)
  then obtain s' where s': "cascade_from n i (case slot u n i of [] \<Rightarrow> None | t # _ \<Rightarrow> Some t) u = Some s'"
      "cascaded n N dl u s'" "slot s' n i = []" "index (tvecs s' n) = index (tvecs u n)"
    using Cons.hyps(1) [of u] Cons.prems one(2) by blast
  have "cascade_from n i (Some t) s = Some s'"
    using s'(1) unfolding one(2)
    by (subst cascade_from.simps) (simp add: Cons.hyps(2) [symmetric] u_def [symmetric])
  then show ?case using s' one cascaded_trans by (auto simp: Cons.hyps(2) [symmetric])
qed

lemma core_set_index:
  assumes "core s N dl" "slot s n i = []" "0 < n"
  shows "core (s\<lparr>tvecs := (tvecs s)(n := (tvecs s n)\<lparr>vec := (vec (tvecs s n))(i := []), index := k\<rparr>)\<rparr>) N dl"
    (is "core ?s N dl")
proof -
  have "slot ?s m j = slot s m j" for m j using assms(2) by simp
  moreover have "cell ?s p = cell s p" for p
    using assms(2) by (auto simp: cell_def split: option.splits)
  ultimately show ?thesis using assms by (simp add: core_def separated_def well_placed_def)
qed

lemma cascade_timers_ok:
  assumes "core s N dl" "run_timer_list_running s = None" "0 < n"
    "index (tvecs s n) = N div 2 ^ lvl n mod 64" "2 ^ lvl n dvd N"
  shows "\<exists>s'. cascade_timers n s = Some s' \<and> cascaded n N dl s s' \<and> later s' N dl n \<and>
    index (tvecs s' n) = (N div 2 ^ lvl n + 1) mod 64"
proof -
  define i where "i = index (tvecs s n)"
  obtain u where u: "cascade_from n i (case slot s n i of [] \<Rightarrow> None | t # _ \<Rightarrow> Some t) s = Some u"
      "cascaded n N dl s u" "slot u n i = []"
    using cascade_from_ok [OF assms(1-3) _ assms(5), of i] assms(4) i_def by blast
  define v where "v = u\<lparr>tvecs := (tvecs u)(n := (tvecs u n)\<lparr>vec := (vec (tvecs u n))(i := []),
              index := unat (of_nat (i + 1) AND TVN_MASK)\<rparr>)\<rparr>"
  have v: "cascade_timers n s = Some v"
    using u(1) by (simp add: cascade_timers_def Let_def i_def v_def)
  have core: "core v N dl" unfolding v_def
    using core_set_index u assms(3) by (simp add: cascaded_def)
  have slots: "slot v m j = slot u m j" for m j using u(3) by (simp add: v_def)
  then have later_eq: "later v N dl m = later u N dl m" for m by (simp add: later_def)
  have "later v N dl n" unfolding later_def
  proof (intro allI ballI)
    fix j x assume x: "x \<in> set (slot v n j)"
    have pl: "placed N (dl x) n j" using core x by (auto simp: core_def well_placed_def)
    have "j \<noteq> i" using x slots u(3) by auto
    then have "block n (dl x) \<noteq> N" using placed_block [OF pl] assms(3-5) by (simp add: i_def)
    then show "N < block n (dl x)" using pl assms(3) by (simp add: placed_def block_def)
  qed
  moreover have "cascaded n N dl s v"
    using u(2) core later_eq by (auto simp: cascaded_def v_def)
  moreover have "index (tvecs v n) = (i + 1) mod 64" by (simp only: v_def next_index) simp
  ultimately show ?thesis using v assms(4) by (simp add: i_def mod_Suc_eq)
qed

lemma index_ok_dvd:
  assumes "2 ^ lvl m dvd N"
  shows "index_ok N s m \<longleftrightarrow> index (tvecs s m) = N div 2 ^ lvl m mod 64"
    "index_ok (N + 1) s m \<longleftrightarrow> index (tvecs s m) = (N div 2 ^ lvl m + 1) mod 64"
proof -
  define b :: nat where "b = 2 ^ lvl m"
  obtain a where a: "N = b * a" using assms unfolding b_def by (rule dvdE)
  have "0 < b" by (simp add: b_def)
  then have "b * a + b - 1 = (b - 1) + b * a" by simp
  then have "(b * a + b - 1) div b = a" using \<open>0 < b\<close> by (simp only: div_mult_self2) simp
  with \<open>0 < b\<close> show "index_ok N s m \<longleftrightarrow> index (tvecs s m) = N div 2 ^ lvl m mod 64"
    "index_ok (N + 1) s m \<longleftrightarrow> index (tvecs s m) = (N div 2 ^ lvl m + 1) mod 64"
    by (simp_all add: index_ok_def a b_def [symmetric])
qed

lemma index_ok_not_dvd:
  assumes "\<not> 2 ^ lvl m dvd N"
  shows "index_ok (N + 1) s m \<longleftrightarrow> index_ok N s m"
proof -
  define b :: nat where "b = 2 ^ lvl m"
  define q r where "q = N div b" and "r = N mod b"
  have r: "0 < r" "r < b" using assms by (auto simp: b_def r_def dvd_eq_mod_eq_0)
  have N: "N = q * b + r" by (simp add: q_def r_def)
  have "N + b - 1 = (r - 1) + b * (q + 1)" "N + b = r + b * (q + 1)" using r by (simp_all add: N algebra_simps)
  then have "(N + b - 1) div b = (N + b) div b" using r by (simp only: div_mult_self2) simp
  then show ?thesis by (simp add: index_ok_def b_def)
qed

lemma later_not_dvd:
  assumes "core s N dl" "0 < m" "\<not> 2 ^ lvl m dvd N"
  shows "later s N dl m"
  unfolding later_def
proof (intro allI ballI)
  fix j x assume "x \<in> set (slot s m j)"
  then have "placed N (dl x) m j" using assms(1) by (auto simp: core_def well_placed_def)
  moreover have "block m (dl x) \<noteq> N" using assms(3) by (auto simp: block_def)
  ultimately show "N < block m (dl x)" using assms(2) by (simp add: placed_def block_def)
qed

lemma lvl_Suc: "0 < n \<Longrightarrow> lvl (n + 1) = lvl n + 6"
  by (simp add: lvl_def)

lemma lvl_dvd: "n \<le> m \<Longrightarrow> 2 ^ lvl n dvd (2 :: nat) ^ lvl m"
  by (intro le_imp_power_dvd) (auto simp: lvl_def)

lemma next_level_due:
  fixes N :: nat
  assumes "0 < n" "2 ^ lvl n dvd N"
  shows "(N div 2 ^ lvl n + 1) mod 64 = 1 \<longleftrightarrow> 2 ^ lvl (n + 1) dvd N"
proof -
  obtain a where a: "N = 2 ^ lvl n * a" using assms(2) by (rule dvdE)
  have "2 ^ lvl (n + 1) dvd N \<longleftrightarrow> (2 :: nat) ^ lvl n * 64 dvd 2 ^ lvl n * a"
    using lvl_Suc [OF assms(1)] by (simp add: a power_add)
  also have "\<dots> \<longleftrightarrow> a mod 64 = 0" by (simp add: dvd_eq_mod_eq_0)
  finally have "2 ^ lvl (n + 1) dvd N \<longleftrightarrow> a mod 64 = 0" .
  moreover have "Suc a mod 64 = 1 \<longleftrightarrow> a mod 64 = 0" by (simp add: mod_Suc)
  ultimately show ?thesis by (simp add: a)
qed

definition cascades_done :: "nat \<Rightarrow> (tid \<Rightarrow> nat) \<Rightarrow> wheel \<Rightarrow> wheel \<Rightarrow> bool" where
  "cascades_done N dl s s' \<longleftrightarrow> core s' N dl \<and> run_timer_list_running s' = None \<and>
     linked s' = linked s \<and> calls s' = calls s \<and> expires s' = expires s \<and>
     (\<forall>m. 0 < m \<longrightarrow> m < 5 \<longrightarrow> later s' N dl m \<and> index_ok (N + 1) s' m)"

lemma cascade_levels_ok:
  assumes "core s N dl" "run_timer_list_running s = None" "0 < n" "n < 5" "2 ^ lvl n dvd N"
    "\<And>m. 0 < m \<Longrightarrow> m < n \<Longrightarrow> later s N dl m \<and> index_ok (N + 1) s m"
    "\<And>m. n \<le> m \<Longrightarrow> m < 5 \<Longrightarrow> index_ok N s m"
  shows "\<exists>s'. cascade_levels n s = Some s' \<and> cascades_done N dl s s'"
  using assms
proof (induction "5 - n" arbitrary: n s)
  case 0
  then show ?case by simp
next
  case (Suc k)
  have ix: "index (tvecs s n) = N div 2 ^ lvl n mod 64"
    using Suc.prems(7) [of n] Suc.prems(4) index_ok_dvd(1) [OF Suc.prems(5)] by blast
  obtain u where u: "cascade_timers n s = Some u" "cascaded n N dl s u" "later u N dl n"
      "index (tvecs u n) = (N div 2 ^ lvl n + 1) mod 64"
    using cascade_timers_ok [OF Suc.prems(1-3) ix Suc.prems(5)] by blast
  have core: "core u N dl" and run: "run_timer_list_running u = None"
    and same: "linked u = linked s" "calls u = calls s" "expires u = expires s"
    using u(2) by (auto simp: cascaded_def)
  have done_u: "later u N dl m \<and> index_ok (N + 1) u m" if "0 < m" "m < n + 1" for m
  proof (cases "m = n")
    case True
    then show ?thesis using u(3,4) index_ok_dvd(2) [OF Suc.prems(5)] by simp
  next
    case False
    then show ?thesis using Suc.prems(6) [of m] that u(2) by (simp add: cascaded_def index_ok_def)
  qed
  have todo: "index_ok N u m" if "n + 1 \<le> m" "m < 5" for m
    using Suc.prems(7) [of m] that u(2) by (simp add: cascaded_def index_ok_def)
  show ?case
  proof (cases "index (tvecs u n) = 1 \<and> n + 1 < NOOF_TVECS")
    case True
    then have "2 ^ lvl (n + 1) dvd N" "n + 1 < 5"
      using next_level_due [OF Suc.prems(3,5)] u(4) by (simp_all add: NOOF_TVECS_def)
    then obtain s' where "cascade_levels (n + 1) u = Some s'" "cascades_done N dl u s'"
      using Suc.hyps(1) [of "n + 1" u, OF _ core run] Suc.hyps(2) done_u todo by fastforce
    then show ?thesis using u(1) True same
      by (subst cascade_levels.simps) (simp add: cascades_done_def)
  next
    case False
    have "later u N dl m \<and> index_ok (N + 1) u m" if "0 < m" "m < 5" for m
    proof (cases "m < n + 1")
      case greater: False
      have "\<not> 2 ^ lvl (n + 1) dvd N"
        using False next_level_due [OF Suc.prems(3,5)] u(4) that(2) greater by (simp add: NOOF_TVECS_def)
      then have "\<not> 2 ^ lvl m dvd N" using lvl_dvd [of "n + 1" m] greater dvd_trans by auto
      then show ?thesis using later_not_dvd [OF core that(1)] index_ok_not_dvd todo greater that by simp
    qed (use done_u that in simp)
    then have "cascades_done N dl s u" using core run same by (simp add: cascades_done_def)
    then show ?thesis using u(1) False by (subst cascade_levels.simps) auto
  qed
qed

section \<open>One tick\<close>

definition wheel_inv :: "wheel \<Rightarrow> nat \<Rightarrow> (tid \<Rightarrow> nat) \<Rightarrow> bool" where
  "wheel_inv s N dl \<longleftrightarrow> core s N dl \<and> run_timer_list_running s = None \<and>
     (\<forall>m. 0 < m \<longrightarrow> m < 5 \<longrightarrow> index_ok N s m)"

lemma cascade_phase:
  assumes "wheel_inv s N dl"
  shows "\<exists>u. (if index (tvecs s 0) = 0 then cascade_levels 1 s else Some s) = Some u \<and> cascades_done N dl s u"
proof (cases "2 ^ lvl 1 dvd N")
  case True
  then have "index (tvecs s 0) = 0" using assms by (simp add: wheel_inv_def core_def dvd_eq_mod_eq_0)
  then show ?thesis using cascade_levels_ok [of s N dl 1] assms True by (simp add: wheel_inv_def)
next
  case False
  then have "index (tvecs s 0) \<noteq> 0" using assms by (simp add: wheel_inv_def core_def dvd_eq_mod_eq_0)
  moreover have "\<not> 2 ^ lvl m dvd N" if "0 < m" for m
    using False lvl_dvd [of 1 m] that dvd_trans by auto
  then have "cascades_done N dl s s"
    using assms later_not_dvd index_ok_not_dvd by (simp add: wheel_inv_def cascades_done_def)
  ultimately show ?thesis by auto
qed

lemma core_start_running:
  assumes "core s N dl" "run_timer_list_running s = None"
  shows "core (s\<lparr>run_timer_list_running := Some []\<rparr>) N dl"
proof -
  have "cell (s\<lparr>run_timer_list_running := Some []\<rparr>) p = cell s p" for p
    using assms(2) by (simp add: cell_def split: option.splits)
  then show ?thesis using assms(1) by (simp add: core_def separated_def well_placed_def)
qed

lemma placed_next:
  assumes "placed N D n i" "n = 0 \<Longrightarrow> i \<noteq> N mod 256" "n \<noteq> 0 \<Longrightarrow> N < block n D"
  shows "placed (N + 1) D n i"
proof (cases "n = 0")
  case True
  then have "D \<noteq> N" using assms(1,2) by (auto simp: placed_def)
  then show ?thesis using assms(1) True by (simp add: placed_def)
next
  case False
  then show ?thesis using assms(1,3) by (simp add: placed_def block_def)
qed

text \<open>The clock moves on; the queued timers are in no list for a moment.\<close>

definition advance :: "wheel \<Rightarrow> wheel" where
  "advance s = s\<lparr>run_timer_list_running := None, timer_jiffies := timer_jiffies s + 1,
     tvecs := (tvecs s)(0 := (tvecs s 0)\<lparr>index := unat (of_nat (index (tvecs s 0) + 1) AND TVR_MASK)\<rparr>)\<rparr>"

lemma advance_fields [simp]:
  "run_timer_list_running (advance s) = None" "timer_jiffies (advance s) = timer_jiffies s + 1"
  "slot (advance s) n i = slot s n i" "linked (advance s) = linked s" "calls (advance s) = calls s"
  "expires (advance s) = expires s" "0 < n \<Longrightarrow> index (tvecs (advance s) n) = index (tvecs s n)"
  by (simp_all add: advance_def)

lemma core_advance:
  assumes "core s N dl" "slot s 0 (N mod 256) = []" "run_timer_list_running s = Some q"
    "\<And>m. 0 < m \<Longrightarrow> m < 5 \<Longrightarrow> later s N dl m"
  shows "core ((advance s)\<lparr>linked := (\<lambda>x. linked s x \<and> x \<notin> set q)\<rparr>) (N + 1) dl" (is "core ?s _ _")
proof -
  have cell: "cell (advance s) p = (if p = None then [] else cell s p)" for p
    by (auto simp: cell_def split: option.splits)
  have q: "cell s None = q" using assms(3) by (simp add: cell_def)
  have sep: "separated s" using assms(1) by (simp add: core_def)
  have "linked ?s x \<longleftrightarrow> (\<exists>p. x \<in> set (cell ?s p))" for x
  proof -
    have "(\<exists>p. x \<in> set (cell ?s p)) \<longleftrightarrow> (\<exists>p. p \<noteq> None \<and> x \<in> set (cell s p))"
      unfolding cell_update cell by (rule arg_cong [where f = Ex]) auto
    moreover have "linked ?s x \<longleftrightarrow> linked s x \<and> x \<notin> set (cell s None)" by (simp add: q)
    ultimately show ?thesis
      using separatedD(2) [OF sep, of x _ None] separatedD(3) [OF sep, of x] by (metis (no_types))
  qed
  moreover have "p = p'" if "x \<in> set (cell ?s p)" "x \<in> set (cell ?s p')" for x p p'
    using that separatedD(2) [OF sep, of x p p'] unfolding cell_update cell by (simp split: if_splits)
  moreover have "distinct (cell ?s p)" for p using separatedD(1) [OF sep] by (simp add: cell)
  ultimately have "separated ?s" unfolding separated_def by blast
  moreover have "index (tvecs ?s 0) = (N + 1) mod 256"
  proof -
    have "index (tvecs ?s 0) = unat (of_nat (N mod 256 + 1) AND TVR_MASK)"
      using assms(1) by (simp add: core_def advance_def)
    also have "\<dots> = (N + 1) mod 256" by (simp only: next_index) (simp add: mod_Suc_eq)
    finally show ?thesis .
  qed
  moreover have "well_placed ?s (N + 1) dl" unfolding well_placed_def
  proof (intro allI impI)
    fix n i x assume "x \<in> set (slot ?s n i)"
    then have x: "x \<in> set (slot s n i)" by simp
    then have old: "placed N (dl x) n i" "n \<noteq> 0 \<Longrightarrow> expires s x = of_nat (dl x) \<and> dl x < N + 2 ^ 31"
      using assms(1) by (auto simp: core_def well_placed_def)
    then have "n \<noteq> 0 \<Longrightarrow> n < 5" by (simp add: placed_def)
    have "placed (N + 1) (dl x) n i"
    proof (rule placed_next [OF old(1)])
      show "n = 0 \<Longrightarrow> i \<noteq> N mod 256" using assms(2) x by auto
      show "n \<noteq> 0 \<Longrightarrow> N < block n (dl x)"
        using assms(4) [of n] \<open>n \<noteq> 0 \<Longrightarrow> n < 5\<close> x by (simp add: later_def)
    qed
    with old(2) show "placed (N + 1) (dl x) n i \<and>
        (n \<noteq> 0 \<longrightarrow> expires ?s x = of_nat (dl x) \<and> dl x < N + 1 + 2 ^ 31)" by auto
  qed
  ultimately show ?thesis using assms(1) by (simp add: core_def)
qed

lemma internal_add_linked:
  "internal_add_timer t (s\<lparr>linked := l\<rparr>) = (internal_add_timer t s)\<lparr>linked := l(t := True)\<rparr>"
  by (cases s) (simp add: internal_add_timer_def add_to_vec_def Let_def split: option.split)

lemma requeue_ok:
  assumes "core (s\<lparr>linked := (\<lambda>x. linked s x \<and> x \<notin> set q)\<rparr>) N dl" "run_timer_list_running s = None"
    "distinct q" "\<And>x. x \<in> set q \<Longrightarrow> linked s x"
  defines "s' \<equiv> fold internal_add_timer q s"
  shows "\<exists>dl'. core s' N dl' \<and> (\<forall>x. x \<notin> set q \<longrightarrow> dl' x = dl x) \<and> linked s' = linked s \<and>
    calls s' = calls s \<and> run_timer_list_running s' = None \<and>
    (\<forall>m. index (tvecs s' m) = index (tvecs s m))"
  using assms(1-4) unfolding s'_def
proof (induction q arbitrary: s dl)
  case Nil
  then show ?case by auto
next
  case (Cons t q)
  define s0 where "s0 = s\<lparr>linked := (\<lambda>x. linked s x \<and> x \<notin> set (t # q))\<rparr>"
  have "core s0 N dl" "\<not> linked s0 t" "run_timer_list_running s0 = None"
    using Cons.prems(1,2) by (simp_all add: s0_def)
  then obtain n i where add: "internal_add_timer t s0 = add_to_vec n i t s0"
      "core (internal_add_timer t s0) N (dl(t := deadline N (expires s0 t)))"
    by (rule core_internal_add) blast
  define u where "u = internal_add_timer t s"
  have "internal_add_timer t (s0\<lparr>linked := linked s\<rparr>) = u" by (simp add: s0_def u_def)
  then have u: "u = (add_to_vec n i t s0)\<lparr>linked := (linked s)(t := True)\<rparr>"
    using add(1) by (simp add: internal_add_linked)
  have linked: "linked u = linked s" using Cons.prems(4) by (simp add: u fun_upd_idem)
  have "(\<lambda>x. linked u x \<and> x \<notin> set q) = (linked s0)(t := True)"
    using Cons.prems(3) Cons.prems(4) [of t] by (auto simp: linked s0_def fun_eq_iff)
  then have "u\<lparr>linked := (\<lambda>x. linked u x \<and> x \<notin> set q)\<rparr> = internal_add_timer t s0"
    by (simp add: add(1) u add_to_vec_def)
  then have core: "core (u\<lparr>linked := (\<lambda>x. linked u x \<and> x \<notin> set q)\<rparr>) N (dl(t := deadline N (expires s0 t)))"
    using add(2) by simp
  have same: "run_timer_list_running u = None" "calls u = calls s"
    "\<And>m. index (tvecs u m) = index (tvecs s m)"
    using Cons.prems(2) by (simp_all add: u s0_def)
  have "distinct q" "\<And>x. x \<in> set q \<Longrightarrow> linked u x" using Cons.prems(3,4) by (simp_all add: linked)
  from Cons.IH [OF core same(1) this] show ?case
    by (simp add: u_def [symmetric] same(2,3) linked) (metis fun_upd_other)
qed

text \<open>What one tick does to a timer that no timer function touches.\<close>

definition ticked :: "tid \<Rightarrow> nat \<Rightarrow> (tid \<Rightarrow> nat) \<Rightarrow> (tid \<Rightarrow> nat) \<Rightarrow> wheel \<Rightarrow> wheel \<Rightarrow> bool" where
  "ticked x N dl dl' s s' \<longleftrightarrow>
     (if linked s x \<and> dl x = N
      then \<not> linked s' x \<and> calls_of x s' = calls_of x s @ [(x, of_nat N)]
      else (linked s' x \<longleftrightarrow> linked s x) \<and> dl' x = dl x \<and> calls_of x s' = calls_of x s)"

lemma run_tick_eq:
  assumes "(if index (tvecs s 0) = 0 then cascade_levels 1 s else Some s) = Some u"
    "run_slot fn (u\<lparr>run_timer_list_running := Some []\<rparr>) = Some v" "run_timer_list_running v = Some q"
  shows "run_tick fn s = Some (fold internal_add_timer q (advance v))"
  using assms by (simp add: run_tick_def Let_def advance_def)

lemma due_slot:
  assumes "core s N dl" "\<And>m. 0 < m \<Longrightarrow> m < 5 \<Longrightarrow> later s N dl m" "run_timer_list_running s = None"
  shows "linked s x \<and> dl x = N \<longleftrightarrow> x \<in> set (slot s 0 (N mod 256))"
proof
  assume x: "linked s x \<and> dl x = N"
  then obtain p where p: "x \<in> set (cell s p)" using separatedD(3) assms(1) unfolding core_def by blast
  then obtain n i where ni: "p = Some (n, i)" using assms(3) by (cases p) (auto simp: cell_def)
  then have pl: "placed N N n i" using p assms(1) x by (auto simp: core_def well_placed_def slot_cell)
  have "n = 0"
  proof (rule ccontr)
    assume "n \<noteq> 0"
    then have "N < block n (dl x)" using assms(2) [of n] pl p ni by (auto simp: placed_def later_def slot_cell)
    then show False using x by (simp add: block_def) (metis div_times_less_eq_dividend leD)
  qed
  then show "x \<in> set (slot s 0 (N mod 256))" using pl p ni by (simp add: placed_def slot_cell)
next
  assume x: "x \<in> set (slot s 0 (N mod 256))"
  then have "placed N (dl x) 0 (N mod 256)" using assms(1) by (auto simp: core_def well_placed_def)
  moreover have "linked s x" using x separatedD(3) assms(1) unfolding core_def slot_cell by blast
  ultimately show "linked s x \<and> dl x = N" by (simp add: level_zero_due)
qed

lemma run_tick_ok:
  assumes inv: "wheel_inv s N dl"
  shows "\<exists>s' dl'. run_tick fn s = Some s' \<and> wheel_inv s' (N + 1) dl' \<and>
    (leaves fn x \<longrightarrow> ticked x N dl dl' s s')"
proof -
  obtain u where u: "(if index (tvecs s 0) = 0 then cascade_levels 1 s else Some s) = Some u"
      "cascades_done N dl s u"
    using cascade_phase [OF inv] by blast
  then have cu: "core u N dl" "run_timer_list_running u = None"
    and lu: "\<And>m. 0 < m \<Longrightarrow> m < 5 \<Longrightarrow> later u N dl m \<and> index_ok (N + 1) u m"
    and su: "linked u = linked s" "calls u = calls s"
    by (auto simp: cascades_done_def)
  define u' where "u' = u\<lparr>run_timer_list_running := Some []\<rparr>"
  have cu': "core u' N dl" using core_start_running [OF cu] by (simp add: u'_def)
  have "run_timer_list_running u' \<noteq> None" by (simp add: u'_def)
  then obtain v where v: "run_slot fn u' = Some v" "slot_run fn N dl x u' v"
    using run_slot_ok [OF cu'] by blast
  then have cv: "core v N dl" "slot v 0 (N mod 256) = []" and sh: "shrinks u' v"
    by (auto simp: slot_run_def)
  obtain q where q: "run_timer_list_running v = Some q" using sh by (auto simp: shrinks_def)
  define s' where "s' = fold internal_add_timer q (advance v)"
  have run: "run_tick fn s = Some s'" unfolding s'_def
    using run_tick_eq [OF u(1) _ q] v(1) by (simp add: u'_def)
  have lv: "later v N dl m" if "0 < m" "m < 5" for m
    using lu [OF that] sh unfolding later_def shrinks_def u'_def by (auto dest!: subsetD)
  have sep: "separated v" using cv(1) by (simp add: core_def)
  have qc: "q = cell v None" by (simp add: cell_def q)
  have "core ((advance v)\<lparr>linked := (\<lambda>x. linked (advance v) x \<and> x \<notin> set q)\<rparr>) (N + 1) dl"
    using core_advance [OF cv q lv] by simp
  moreover have "distinct q" "\<And>x. x \<in> set q \<Longrightarrow> linked (advance v) x"
    using separatedD(1,3) [OF sep] by (auto simp: qc)
  ultimately obtain dl' where dl': "core s' (N + 1) dl'" "\<And>x. x \<notin> set q \<Longrightarrow> dl' x = dl x"
      "linked s' = linked v" "calls s' = calls v" "run_timer_list_running s' = None"
      "\<And>m. index (tvecs s' m) = index (tvecs (advance v) m)"
    using requeue_ok [of "advance v" q "N + 1" dl] unfolding s'_def by auto
  have "wheel_inv s' (N + 1) dl'"
    using dl'(1,5,6) lu sh by (auto simp: wheel_inv_def index_ok_def shrinks_def u'_def)
  moreover have "ticked x N dl dl' s s'" if "leaves fn x"
  proof -
    have cells: "p \<noteq> Some (0, N mod 256) \<Longrightarrow> x \<in> set (cell v p) \<longleftrightarrow> x \<in> set (cell u' p)" for p
      using v(2) that by (simp add: slot_run_def)
    have calls: "calls_of x s' = calls_of x s @ (if x \<in> set (slot u 0 (N mod 256)) then [(x, of_nat N)] else [])"
      using v(2) that dl'(4) su(2) by (simp add: slot_run_def u'_def)
    have "x \<notin> set q" using cells [of None] by (simp add: qc) (simp add: cell_def u'_def)
    then have dlx: "dl' x = dl x" by (rule dl'(2))
    have "linked v x \<longleftrightarrow> linked u x \<and> x \<notin> set (slot u 0 (N mod 256))"
      using slot_run_linked [OF v(2) that cu'] by (simp add: u'_def)
    then show ?thesis
      using due_slot [OF cu(1) _ cu(2), of x] lu calls dlx dl'(3) su(1) by (simp add: ticked_def)
  qed
  ultimately show ?thesis using run by blast
qed

section \<open>Many ticks\<close>

lemma loop_condition:
  assumes "jiffies + 1 = (of_nat (N + k) :: u32)" "k \<le> 2 ^ 31"
  shows "0 \<le> sint (jiffies - of_nat N) \<longleftrightarrow> 0 < k"
proof (cases k)
  case 0
  then have "jiffies - of_nat N = (- 1 :: u32)" using assms(1) by (simp add: eq_diff_eq algebra_simps)
  then show ?thesis using 0 by simp
next
  case (Suc m)
  then have "jiffies - of_nat N = (of_nat m :: u32)" using assms(1) by (simp add: algebra_simps)
  moreover have "unat (of_nat m :: u32) = m"
    using assms(2) Suc by (simp add: unsigned_of_nat take_bit_nat_eq_self)
  ultimately show ?thesis using Suc assms(2) sint_nonneg_u32 [of "of_nat m"] by simp
qed

text \<open>What the ticks before \<open>M\<close> do to a timer that no timer function touches.\<close>

definition ran :: "tid \<Rightarrow> nat \<Rightarrow> (tid \<Rightarrow> nat) \<Rightarrow> (tid \<Rightarrow> nat) \<Rightarrow> wheel \<Rightarrow> wheel \<Rightarrow> bool" where
  "ran x M dl dl' s s' \<longleftrightarrow>
     (if linked s x \<and> dl x < M
      then \<not> linked s' x \<and> calls_of x s' = calls_of x s @ [(x, of_nat (dl x))]
      else (linked s' x \<longleftrightarrow> linked s x) \<and> dl' x = dl x \<and> calls_of x s' = calls_of x s)"

lemma deadline_ahead:
  assumes "wheel_inv s N dl" "linked s x"
  shows "N \<le> dl x"
proof -
  obtain p where p: "x \<in> set (cell s p)"
    using separatedD(3) assms unfolding wheel_inv_def core_def by blast
  then obtain n i where "p = Some (n, i)" using assms(1) by (cases p) (auto simp: cell_def wheel_inv_def)
  then have "placed N (dl x) n i"
    using p assms(1) by (auto simp: wheel_inv_def core_def well_placed_def slot_cell)
  then show ?thesis unfolding placed_def 
    by (auto split: if_splits intro: order_trans [OF _ div_times_less_eq_dividend])
qed

lemma run_timer_list_ok:
  assumes "wheel_inv s N dl" "jiffies + 1 = of_nat (N + k)" "k \<le> 2 ^ 31"
  shows "\<exists>s' dl'. run_timer_list fn jiffies s = Some s' \<and> wheel_inv s' (N + k) dl' \<and>
    (leaves fn x \<longrightarrow> ran x (N + k) dl dl' s s')"
  using assms
proof (induction k arbitrary: N s dl)
  case 0
  have tj: "timer_jiffies s = of_nat N" using 0(1) by (simp add: wheel_inv_def core_def)
  have "run_timer_list fn jiffies s = Some s"
    using loop_condition [OF 0(2,3)] by (subst run_timer_list.simps) (simp add: tj)
  moreover have "ran x N dl dl s s" using deadline_ahead [OF 0(1), of x] by (auto simp: ran_def)
  ultimately show ?case using 0(1) by auto
next
  case (Suc k)
  have tj: "timer_jiffies s = of_nat N" using Suc.prems(1) by (simp add: wheel_inv_def core_def)
  obtain u dl1 where u: "run_tick fn s = Some u" "wheel_inv u (N + 1) dl1"
      "leaves fn x \<Longrightarrow> ticked x N dl dl1 s u"
    using run_tick_ok [OF Suc.prems(1)] by blast
  have "jiffies + 1 = of_nat (N + 1 + k)" using Suc.prems(2) by simp
  then obtain s' dl' where s': "run_timer_list fn jiffies u = Some s'" "wheel_inv s' (N + 1 + k) dl'"
      "leaves fn x \<Longrightarrow> ran x (N + 1 + k) dl1 dl' u s'"
    using Suc.IH [OF u(2)] Suc.prems(3) by auto
  have "run_timer_list fn jiffies s = Some s'"
    using loop_condition [OF Suc.prems(2,3)] u(1) s'(1) by (subst run_timer_list.simps) (simp add: tj)
  moreover have "ran x (N + Suc k) dl dl' s s'" if "leaves fn x"
    using u(3) [OF that] s'(3) [OF that] deadline_ahead [OF Suc.prems(1), of x]
    by (auto simp: ran_def ticked_def split: if_splits)
  ultimately show ?case using s'(2) by auto
qed

section \<open>The wheel between runs\<close>

lemma wheel_inv_add:
  fixes s t e
  assumes "wheel_inv s N dl" "\<not> linked s t"
  defines "s' \<equiv> internal_add_timer t (s\<lparr>expires := (expires s)(t := e)\<rparr>)"
  shows "wheel_inv s' N (dl(t := deadline N e)) \<and> linked s' t \<and> calls s' = calls s"
proof -
  define u where "u = s\<lparr>expires := (expires s)(t := e)\<rparr>"
  have "core u N dl" "\<not> linked u t" "run_timer_list_running u = None"
    using assms(1,2) core_expires by (auto simp: wheel_inv_def u_def)
  then obtain n i where "internal_add_timer t u = add_to_vec n i t u"
      "core (internal_add_timer t u) N (dl(t := deadline N (expires u t)))"
    by (rule core_internal_add) blast
  then show ?thesis using assms(1) by (simp add: s'_def u_def wheel_inv_def index_ok_def)
qed

lemma wheel_inv_unlink:
  assumes "wheel_inv s N dl"
  shows "wheel_inv (unlink t s) N dl"
  using assms core_unlink by (simp add: wheel_inv_def index_ok_def)

lemma mod_timer_eq:
  assumes "separated s"
  shows "mod_timer t e s = (if linked s t then 1 else 0,
    internal_add_timer t ((unlink t s)\<lparr>expires := (expires (unlink t s))(t := e)\<rparr>))"
  using unlink_unlinked [OF assms, of t]
  by (simp add: mod_timer_def Let_def detach_timer_def timer_pending_def unlink_expires)

lemma del_timer_eq:
  assumes "separated s"
  shows "del_timer t s = (if linked s t then 1 else 0, unlink t s)"
  using unlink_unlinked [OF assms, of t]
  by (auto simp: del_timer_def detach_timer_def timer_pending_def fun_upd_idem)

lemma wheel_inv_mod:
  assumes "wheel_inv s N dl"
  shows "wheel_inv (snd (mod_timer t e s)) N (dl(t := deadline N e)) \<and>
    linked (snd (mod_timer t e s)) t \<and> calls (snd (mod_timer t e s)) = calls s"
  using wheel_inv_add [OF wheel_inv_unlink [OF assms, of t], where t = t and e = e] mod_timer_eq [of s t e] assms
  by (simp add: wheel_inv_def core_def)

lemma wheel_inv_op:
  assumes "wheel_inv s N dl"
  shows "\<exists>dl'. wheel_inv (do_op a s) N dl'"
proof (cases a)
  case (Add t e)
  then show ?thesis using wheel_inv_add [where s = s and N = N and dl = dl and t = t and e = e] assms
    by (cases "linked s t") (auto simp: timer_pending_def add_timer_def)
next
  case (Mod t e)
  then show ?thesis using wheel_inv_mod [OF assms] by auto
next
  case (Del t)
  then show ?thesis using wheel_inv_unlink [OF assms, of t] del_timer_eq [of s t] assms
    by (auto simp: wheel_inv_def core_def)
qed

lemma ticks_to_run:
  assumes "0 \<le> sint (jiffies - of_nat N :: u32)"
  shows "jiffies + 1 = of_nat (N + (unat (jiffies - of_nat N) + 1))" "unat (jiffies - of_nat N) + 1 \<le> 2 ^ 31"
  using assms sint_nonneg_u32 [of "jiffies - of_nat N"] by simp_all

lemma run_idle:
  assumes "\<not> 0 \<le> sint (jiffies - timer_jiffies s)"
  shows "run_timer_list fn jiffies s = Some s"
  using assms by (subst run_timer_list.simps) simp

text \<open>The wheel at boot, and its life: calls of its operations and runs of the bottom half.\<close>

definition wheel_boot :: wheel where
  "wheel_boot = init_timervecs \<lparr>tvecs = (\<lambda>_. \<lparr>index = 0, vec = (\<lambda>_. [])\<rparr>), timer_jiffies = 0,
     run_timer_list_running = None, expires = (\<lambda>_. 0), linked = (\<lambda>_. False), calls = []\<rparr>"

inductive timer_step :: "wheel \<Rightarrow> wheel \<Rightarrow> bool" where
  call: "timer_step s (do_op a s)"
| tick: "run_timer_list fn jiffies s = Some s' \<Longrightarrow> timer_step s s'"

definition wheel_ok :: "wheel \<Rightarrow> bool" where
  "wheel_ok s \<longleftrightarrow> (\<exists>N dl. wheel_inv s N dl)"

lemma wheel_ok_boot: "wheel_ok wheel_boot"
proof -
  have "wheel_inv wheel_boot 0 (\<lambda>_. 0)"
    by (simp add: wheel_boot_def init_timervecs_def wheel_inv_def core_def separated_def well_placed_def
        cell_def index_ok_def lvl_def split: option.splits)
  then show ?thesis by (auto simp: wheel_ok_def)
qed

lemma wheel_ok_step:
  assumes "wheel_ok s" "timer_step s s'"
  shows "wheel_ok s'"
proof -
  obtain N dl where inv: "wheel_inv s N dl" using assms(1) by (auto simp: wheel_ok_def)
  then have tj: "timer_jiffies s = of_nat N" by (simp add: wheel_inv_def core_def)
  from assms(2) show ?thesis
  proof cases
    case (call a)
    then show ?thesis using wheel_inv_op [OF inv, of a] by (auto simp: wheel_ok_def)
  next
    case (tick fn jiffies)
    show ?thesis
    proof (cases "0 \<le> sint (jiffies - timer_jiffies s)")
      case True
      then have pos: "0 \<le> sint (jiffies - of_nat N)" by (simp add: tj)
      show ?thesis using run_timer_list_ok [OF inv ticks_to_run [OF pos], of fn 0] tick
        by (auto simp: wheel_ok_def)
    next
      case False
      then show ?thesis using tick run_idle [OF False] assms(1) by simp
    qed
  qed
qed

interpretation tw: invariant_system "\<lambda>s. s = wheel_boot" timer_step wheel_ok
  by unfold_locales (use wheel_ok_boot wheel_ok_step in auto)

section \<open>Timers fire on time\<close>

text \<open>The tick in which a timer set at tick \<open>now\<close> to expire at \<open>e\<close> is to fire.\<close>

definition due_tick :: "u32 \<Rightarrow> u32 \<Rightarrow> u32" where
  "due_tick now e = (if sint (e - now) < 0 then now else e)"

lemma due_tick_deadline:
  "due_tick (of_nat N) e = of_nat (deadline N e)"
  "unat (due_tick (of_nat N) e - of_nat N) = deadline N e - N" "N \<le> deadline N e"
  using sint_neg_u32 [of "e - of_nat N"]
  by (auto simp: due_tick_def deadline_def Let_def)

lemma set_timer_run:
  assumes "wheel_inv s N dl" "linked s x" "dl x = deadline N e" "leaves fn x"
    "0 \<le> sint (jiffies - of_nat N)" "calls s = c"
  defines "due \<equiv> due_tick (of_nat N) e"
  shows "\<exists>s'. run_timer_list fn jiffies s = Some s' \<and>
    (if unat (due - of_nat N) \<le> unat (jiffies - of_nat N)
     then \<not> timer_pending x s' \<and> calls_of x s' = filter (\<lambda>c. fst c = x) c @ [(x, due)]
     else timer_pending x s' \<and> calls_of x s' = filter (\<lambda>c. fst c = x) c)"
proof -
  define k where "k = unat (jiffies - of_nat N :: u32) + 1"
  obtain s' dl' where "run_timer_list fn jiffies s = Some s'" "ran x (N + k) dl dl' s s'"
    using run_timer_list_ok [OF assms(1) ticks_to_run [OF assms(5)], of fn x] assms(4) by (auto simp: k_def)
  moreover have "dl x < N + k \<longleftrightarrow> unat (due - of_nat N) \<le> unat (jiffies - of_nat N :: u32)"
    using due_tick_deadline(2,3) [where N = N and e = e] assms(3) by (auto simp: due_def k_def)
  ultimately show ?thesis
    using assms(2,3,6) by (auto simp: ran_def due_def due_tick_deadline(1) timer_pending_def)
qed

lemma reachable_wheel_inv:
  assumes "timer_step\<^sup>*\<^sup>* wheel_boot s"
  obtains N dl where "wheel_inv s N dl" "timer_jiffies s = of_nat N" "separated s"
  using tw.reachable_inv [OF refl assms] by (auto simp: wheel_ok_def wheel_inv_def core_def)

text \<open>C4. Timers fire on time. In every state the wheel can reach from boot, a timer that is
  not pending and is added with \<open>add_timer\<close> is called exactly once by a later run of the wheel up to
  \<open>jiffies\<close>, in the tick it expires in (the current one when the expiry is in the past), when that
  tick is not after \<open>jiffies\<close>; otherwise it is still pending and has not been called. The run returns.
  Other timers' functions may add, modify and delete timers other than this one.
\<close>

theorem timer_fires_on_time:
  assumes "timer_step\<^sup>*\<^sup>* wheel_boot s" "\<not> timer_pending x s" "leaves fn x"
    "0 \<le> sint (jiffies - timer_jiffies s)"
  shows "\<exists>s'. run_timer_list fn jiffies (add_timer x (s\<lparr>expires := (expires s)(x := e)\<rparr>)) = Some s' \<and>
    (if unat (due_tick (timer_jiffies s) e - timer_jiffies s) \<le> unat (jiffies - timer_jiffies s)
     then \<not> timer_pending x s' \<and> calls_of x s' = calls_of x s @ [(x, due_tick (timer_jiffies s) e)]
     else timer_pending x s' \<and> calls_of x s' = calls_of x s)"
proof -
  obtain N dl where inv: "wheel_inv s N dl" "timer_jiffies s = of_nat N"
    using assms(1) by (rule reachable_wheel_inv)
  have "\<not> linked s x" using assms(2) by (simp add: timer_pending_def)
  note add = wheel_inv_add [OF inv(1) this, of e]
  let ?s = "internal_add_timer x (s\<lparr>expires := (expires s)(x := e)\<rparr>)"
  have "add_timer x (s\<lparr>expires := (expires s)(x := e)\<rparr>) = ?s"
    using assms(2) by (simp add: add_timer_def timer_pending_def)
  moreover note set_timer_run [of ?s N "dl(x := deadline N e)" x e fn jiffies "calls s"]
  ultimately show ?thesis using add assms(3,4) by (simp only: inv(2)) simp
qed

text \<open>A wheel with timer 7 in it, whose function moves timer 3 and adds timer 4.\<close>

definition demo_wheel :: wheel where
  "demo_wheel = do_op (Add 7 5) wheel_boot"

definition demo_fns :: timer_fns where
  "demo_fns t s = (if t = 7 then [Mod 3 700, Add 4 90] else [])"

lemma demo_reach: "timer_step\<^sup>*\<^sup>* wheel_boot demo_wheel"
  unfolding demo_wheel_def by (rule r_into_rtranclp) (rule call)

lemma demo_leaves: "leaves demo_fns 2" "leaves demo_fns 7"
  by (auto simp: leaves_def demo_fns_def)

lemma demo_fields:
  "timer_jiffies demo_wheel = 0" "calls demo_wheel = []"
  "\<not> timer_pending 2 demo_wheel" "timer_pending 7 demo_wheel"
  by (simp_all add: demo_wheel_def wheel_boot_def init_timervecs_def add_timer_def timer_pending_def
      internal_add_timer_def add_to_vec_def tv_consts)

theorem timer_fires_on_time_witness:
  "\<exists>s'. run_timer_list demo_fns 400
       (add_timer 2 (demo_wheel\<lparr>expires := (expires demo_wheel)(2 := 300)\<rparr>))
     = Some s' \<and> \<not> timer_pending 2 s' \<and> calls_of 2 s' = [(2, 300)]"
  using timer_fires_on_time [OF demo_reach demo_fields(3) demo_leaves(1), of 400 300]
  by (simp add: demo_fields due_tick_def)

text \<open>C10. \<open>mod_timer\<close> sets a timer anew. It returns whether the timer was pending, and
  whatever the timer's expiry was before, it is called exactly once, in the new tick.
\<close>

theorem mod_timer_moves:
  assumes "timer_step\<^sup>*\<^sup>* wheel_boot s" "leaves fn x" "0 \<le> sint (jiffies - timer_jiffies s)"
  shows "fst (mod_timer x e s) = (if timer_pending x s then 1 else 0) \<and>
    (\<exists>s'. run_timer_list fn jiffies (snd (mod_timer x e s)) = Some s' \<and>
      (if unat (due_tick (timer_jiffies s) e - timer_jiffies s) \<le> unat (jiffies - timer_jiffies s)
       then \<not> timer_pending x s' \<and> calls_of x s' = calls_of x s @ [(x, due_tick (timer_jiffies s) e)]
       else timer_pending x s' \<and> calls_of x s' = calls_of x s))"
proof -
  obtain N dl where inv: "wheel_inv s N dl" "timer_jiffies s = of_nat N" "separated s"
    using assms(1) by (rule reachable_wheel_inv)
  have ret: "fst (mod_timer x e s) = (if timer_pending x s then 1 else 0)"
    using mod_timer_eq [OF inv(3), of x e] by (simp add: timer_pending_def)
  show ?thesis unfolding inv(2)
    by (rule conjI [OF ret set_timer_run [of _ N "dl(x := deadline N e)"]])
       (use wheel_inv_mod [OF inv(1), of x e] assms(2,3) in \<open>simp_all add: inv(2)\<close>)
qed

theorem mod_timer_moves_witness:
  "fst (mod_timer 7 70000 demo_wheel) = 1 \<and>
   (\<exists>s'. run_timer_list demo_fns 69999 (snd (mod_timer 7 70000 demo_wheel)) = Some s' \<and>
     timer_pending 7 s' \<and> calls_of 7 s' = [])"
  using mod_timer_moves [OF demo_reach demo_leaves(2), of 69999 70000]
  by (simp add: demo_fields due_tick_def)

text \<open>C11. A deleted timer does not fire. \<open>del_timer\<close> returns whether the timer was pending; afterwards
  it is not, and no run of the wheel calls it.
\<close>

theorem del_timer_cancels:
  assumes "timer_step\<^sup>*\<^sup>* wheel_boot s" "leaves fn x" "0 \<le> sint (jiffies - timer_jiffies s)"
  shows "fst (del_timer x s) = (if timer_pending x s then 1 else 0) \<and> \<not> timer_pending x (snd (del_timer x s)) \<and>
    (\<exists>s'. run_timer_list fn jiffies (snd (del_timer x s)) = Some s' \<and>
      \<not> timer_pending x s' \<and> calls_of x s' = calls_of x s)"
proof -
  obtain N dl where inv: "wheel_inv s N dl" "timer_jiffies s = of_nat N" "separated s"
    using assms(1) by (rule reachable_wheel_inv)
  show ?thesis
    using run_timer_list_ok [OF wheel_inv_unlink [OF inv(1), of x] ticks_to_run, of jiffies fn x]
      assms(2,3) del_timer_eq [OF inv(3), of x]
    by (auto simp: inv(2) timer_pending_def ran_def)
qed

theorem del_timer_cancels_witness:
  "fst (del_timer 7 demo_wheel) = 1 \<and>
   (\<exists>s'. run_timer_list demo_fns 400 (snd (del_timer 7 demo_wheel)) = Some s' \<and>
     \<not> timer_pending 7 s' \<and> calls_of 7 s' = [])"
  using del_timer_cancels [OF demo_reach demo_leaves(2), of 400]
  by (simp add: demo_fields)

end
