(* ===== verification/ResourceTree.thy ===== *)
theory ResourceTree
  imports Resource
begin

text \<open>
  The resource tree is well formed: the children of a resource are a list in ascending order, without
  overlaps, inside the range of their parent, and the parent pointers agree with it. The operations
  keep that, refuse exactly the ranges that are not free, and undo each other.
\<close>

section \<open>Lists of siblings\<close>

abbreviation st :: "store \<Rightarrow> rid \<Rightarrow> u32" where "st h x \<equiv> start (the (h x))"
abbreviation en :: "store \<Rightarrow> rid \<Rightarrow> u32" where "en h x \<equiv> endr (the (h x))"

fun seg :: "store \<Rightarrow> rid option \<Rightarrow> rid list \<Rightarrow> rid option \<Rightarrow> bool" where
  "seg h v [] w \<longleftrightarrow> v = w"
| "seg h v (x # xs) w \<longleftrightarrow> v = Some x \<and> (case h x of None \<Rightarrow> False | Some a \<Rightarrow> seg h (sibling a) xs w)"

lemma seg_append: "seg h v (xs @ ys) w \<longleftrightarrow> (\<exists>u. seg h v xs u \<and> seg h u ys w)"
  by (induction xs arbitrary: v) (auto split: option.splits)

lemma seg_live: "seg h v xs w \<Longrightarrow> x \<in> set xs \<Longrightarrow> h x \<noteq> None"
  by (induction xs arbitrary: v) (auto split: option.splits)

lemma seg_unique: "seg h v xs None \<Longrightarrow> seg h v ys None \<Longrightarrow> xs = ys"
proof (induction xs arbitrary: v ys)
  case Nil
  then show ?case by (cases ys) auto
next
  case (Cons x xs)
  then show ?case by (cases ys) (auto split: option.splits)
qed

lemma seg_cong:
  assumes "\<And>x. x \<in> set xs \<Longrightarrow> map_option sibling (h' x) = map_option sibling (h x)"
  shows "seg h' v xs w = seg h v xs w"
  using assms
proof (induction xs arbitrary: v)
  case (Cons x xs)
  have "map_option sibling (h' x) = map_option sibling (h x)" using Cons.prems by simp
  then have "(case h' x of None \<Rightarrow> False | Some a \<Rightarrow> seg h' (sibling a) xs w) =
      (case h x of None \<Rightarrow> False | Some a \<Rightarrow> seg h' (sibling a) xs w)"
    by (cases "h x"; cases "h' x") auto
  moreover have "seg h' u xs w = seg h u xs w" for u using Cons by simp
  ultimately show ?case by (auto split: option.splits)
qed simp

text \<open>The place that points to what follows \<open>xs\<close>, in a list that \<open>p\<close> points to.\<close>

fun place_after :: "place \<Rightarrow> rid list \<Rightarrow> place" where
  "place_after p [] = p"
| "place_after p (x # xs) = place_after (Sibling x) xs"

fun owner :: "place \<Rightarrow> rid" where
  "owner (Child r) = r"
| "owner (Sibling r) = r"

lemma upd_at: "upd r f h x = (if x = r then map_option f (h r) else h x)"
  by (simp add: upd_def)

lemma deref_assign:
  "deref (assign q w h) p = (if p = q then (if h (owner p) = None then None else Some w) else deref h p)"
  by (cases p; cases q) (auto simp: upd_at option.map_comp comp_def split: option.splits)

lemma place_after_cases:
  "place_after p xs = p \<and> xs = [] \<or> (\<exists>x \<in> set xs. place_after p xs = Sibling x)"
  by (induction xs arbitrary: p) auto

lemma deref_place_after: "deref h p = Some v \<Longrightarrow> seg h v xs w \<Longrightarrow> deref h (place_after p xs) = Some w"
  by (induction xs arbitrary: p v) (auto split: option.splits)

lemma deref_live: "deref h p = Some v \<Longrightarrow> h (owner p) \<noteq> None"
  by (cases p) auto

lemma seg_relink:
  assumes "deref h p = Some v" "seg h v xs u" "distinct xs" "\<And>x. x \<in> set xs \<Longrightarrow> p \<noteq> Sibling x"
  shows "\<exists>v'. deref (assign (place_after p xs) w h) p = Some v' \<and>
    seg (assign (place_after p xs) w h) v' xs w"
  using assms
proof (induction xs arbitrary: p v)
  case Nil
  then show ?case using deref_live by (simp add: deref_assign)
next
  case (Cons x xs)
  let ?h = "assign (place_after (Sibling x) xs) w h"
  obtain a where a: "h x = Some a" "seg h (sibling a) xs u" "v = Some x"
    using Cons.prems(2) by (auto split: option.splits)
  then obtain v' where v': "deref ?h (Sibling x) = Some v'" "seg ?h v' xs w"
    using Cons.IH [of "Sibling x" "sibling a"] Cons.prems(3) by auto
  have "place_after (Sibling x) xs \<noteq> p"
    using place_after_cases [of "Sibling x" xs] Cons.prems(4) by auto
  then have "deref ?h p = Some (Some x)" using Cons.prems(1) a by (simp add: deref_assign)
  moreover have "seg ?h (Some x) (x # xs) w" using v' by (auto split: option.splits)
  ultimately show ?case by auto
qed

text \<open>Assigning to a pointer leaves ranges, flags and parents alone.\<close>

lemma assign_fields:
  "map_option start (assign p w h x) = map_option start (h x)"
  "map_option endr (assign p w h x) = map_option endr (h x)"
  "map_option flags (assign p w h x) = map_option flags (h x)"
  "map_option parent (assign p w h x) = map_option parent (h x)"
  by (cases p; cases "h x"; auto simp: upd_at)+

lemma assign_dom: "assign p w h x = None \<longleftrightarrow> h x = None"
  by (cases p) (auto simp: upd_at)

lemma assign_other: "x \<noteq> owner p \<Longrightarrow> assign p w h x = h x"
  by (cases p) (auto simp: upd_at)

lemma assign_restore: "deref h p = Some v \<Longrightarrow> assign p v (assign p w h) = h"
  by (cases p; auto simp: upd_def fun_upd_idem_iff)

section \<open>The well-formed tree\<close>

definition fits :: "store \<Rightarrow> rid \<Rightarrow> rid \<Rightarrow> bool" where
  "fits h r x \<longleftrightarrow> st h r \<le> st h x \<and> st h x \<le> en h x \<and> en h x \<le> en h r"

abbreviation before :: "store \<Rightarrow> rid \<Rightarrow> rid \<Rightarrow> bool" where
  "before h x y \<equiv> en h x < st h y"

definition kids :: "store \<Rightarrow> rid \<Rightarrow> rid list \<Rightarrow> bool" where
  "kids h r xs \<longleftrightarrow> (\<exists>v. deref h (Child r) = Some v \<and> seg h v xs None) \<and> distinct xs \<and>
     sorted_wrt (before h) xs \<and> (\<forall>x \<in> set xs. parent (the (h x)) = Some r \<and> fits h r x)"

definition tree_ok :: "store \<Rightarrow> bool" where
  "tree_ok h \<longleftrightarrow> (\<forall>r \<in> dom h. \<exists>xs. kids h r xs) \<and>
     (\<forall>x a r. h x = Some a \<longrightarrow> parent a = Some r \<longrightarrow> (\<exists>xs. kids h r xs \<and> x \<in> set xs))"

lemma tree_okD:
  assumes "tree_ok h"
  shows "h r \<noteq> None \<Longrightarrow> \<exists>xs. kids h r xs"
    "map_option parent (h x) = Some (Some r) \<Longrightarrow> \<exists>xs. kids h r xs \<and> x \<in> set xs"
  using assms by (auto simp: tree_ok_def dom_def)

definition overlaps :: "store \<Rightarrow> u32 \<Rightarrow> u32 \<Rightarrow> rid \<Rightarrow> bool" where
  "overlaps h s e x \<longleftrightarrow> \<not> (e < st h x) \<and> \<not> (en h x < s)"

text \<open>A range that can be requested below \<open>root\<close>, whose children are \<open>xs\<close>.\<close>

definition free_range :: "store \<Rightarrow> rid \<Rightarrow> rid list \<Rightarrow> u32 \<Rightarrow> u32 \<Rightarrow> bool" where
  "free_range h root xs s e \<longleftrightarrow>
     s \<le> e \<and> st h root \<le> s \<and> e \<le> en h root \<and> (\<forall>x \<in> set xs. \<not> overlaps h s e x)"

lemma kidsD:
  assumes "kids h r xs"
  shows "\<exists>v. deref h (Child r) = Some v \<and> seg h v xs None" "distinct xs" "sorted_wrt (before h) xs"
    "x \<in> set xs \<Longrightarrow> parent (the (h x)) = Some r" "x \<in> set xs \<Longrightarrow> fits h r x" "x \<in> set xs \<Longrightarrow> h x \<noteq> None"
  using assms seg_live by (fastforce simp: kids_def)+

lemma kids_unique: "kids h r xs \<Longrightarrow> kids h r ys \<Longrightarrow> xs = ys"
  unfolding kids_def using seg_unique by (metis option.inject)

lemma kids_disjoint: "kids h r xs \<Longrightarrow> kids h r' ys \<Longrightarrow> r \<noteq> r' \<Longrightarrow> x \<in> set xs \<Longrightarrow> x \<notin> set ys"
  using kidsD(4) by (metis option.inject)

text \<open>The children of a resource stay what they are when nothing of them changes.\<close>

lemma kids_cong:
  assumes "kids h r xs" "map_option child (h' r) = map_option child (h r)"
    "\<And>x. x \<in> set xs \<Longrightarrow> map_option sibling (h' x) = map_option sibling (h x)"
    "\<And>x. x \<in> set xs \<Longrightarrow> map_option parent (h' x) = map_option parent (h x)"
    "\<And>x. x \<in> insert r (set xs) \<Longrightarrow> st h' x = st h x \<and> en h' x = en h x"
  shows "kids h' r xs"
proof -
  obtain v where v: "deref h (Child r) = Some v" "seg h v xs None" using kidsD(1) [OF assms(1)] by blast
  have "deref h' (Child r) = Some v" using v(1) assms(2) by simp
  moreover have "seg h' v xs None" using v(2) seg_cong [of xs h' h] assms(3) by blast
  moreover have "sorted_wrt (before h') xs"
    using kidsD(3) [OF assms(1)] assms(5) by (auto intro: sorted_wrt_mono_rel [of xs "before h"])
  moreover have "parent (the (h' x)) = Some r \<and> fits h' r x" if "x \<in> set xs" for x
    using that kidsD(4-6) [OF assms(1) that] assms(4) [OF that] assms(5) [of x] assms(5) [of r]
    by (auto simp: fits_def)
  ultimately show ?thesis using kidsD(2) [OF assms(1)] unfolding kids_def by blast
qed

lemma sorted_before_cong:
  assumes "\<And>x. x \<in> set xs \<Longrightarrow> st h' x = st h x \<and> en h' x = en h x" "sorted_wrt (before h) xs"
  shows "sorted_wrt (before h') xs"
  using assms by (auto intro: sorted_wrt_mono_rel [of xs "before h"])

section \<open>The request loop\<close>

abbreviation ahead :: "store \<Rightarrow> u32 \<Rightarrow> rid list \<Rightarrow> rid list" where
  "ahead h s xs \<equiv> takeWhile (\<lambda>x. en h x < s) xs"

abbreviation behind :: "store \<Rightarrow> u32 \<Rightarrow> rid list \<Rightarrow> rid list" where
  "behind h s xs \<equiv> dropWhile (\<lambda>x. en h x < s) xs"

definition attach :: "rid \<Rightarrow> rid \<Rightarrow> place \<Rightarrow> rid option \<Rightarrow> store \<Rightarrow> store" where
  "attach root new p tmp h =
     upd new (parent_update (\<lambda>_. Some root)) (assign p (Some new) (upd new (sibling_update (\<lambda>_. tmp)) h))"

abbreviation first :: "rid list \<Rightarrow> rid option" where
  "first xs \<equiv> (case xs of [] \<Rightarrow> None | x # _ \<Rightarrow> Some x)"

lemma request_loop_eq:
  assumes "deref h p = Some v" "seg h v xs None" "s \<le> e" "\<And>x. x \<in> set xs \<Longrightarrow> st h x \<le> en h x"
  shows "request_loop root new s e p h =
    (case behind h s xs of
       [] \<Rightarrow> Some (None, attach root new (place_after p (ahead h s xs)) None h)
     | t # _ \<Rightarrow> if e < st h t then Some (None, attach root new (place_after p (ahead h s xs)) (Some t) h)
               else Some (Some t, h))"
  using assms
proof (induction xs arbitrary: p v)
  case Nil
  then show ?case by (subst request_loop.simps) (simp add: attach_def)
next
  case (Cons x xs)
  obtain a where a: "h x = Some a" "seg h (sibling a) xs None" "v = Some x"
    using Cons.prems(2) by (auto split: option.splits)
  have ok: "start a \<le> endr a" using Cons.prems(4) [of x] a(1) by simp
  show ?case
  proof (cases "endr a < s")
    case True
    then have "\<not> e < start a" using ok Cons.prems(3) by simp
    then have "request_loop root new s e p h = request_loop root new s e (Sibling x) h"
      using Cons.prems(1) a(1,3) True by (subst request_loop.simps) simp
    moreover have eqs: "behind h s (x # xs) = behind h s xs"
      "place_after p (ahead h s (x # xs)) = place_after (Sibling x) (ahead h s xs)"
      using True a(1) by simp_all
    ultimately show ?thesis unfolding eqs
      using Cons.IH [of "Sibling x" "sibling a"] a Cons.prems(3,4) by simp
  next
    case False
    then show ?thesis using Cons.prems(1) a(1,3)
      by (subst request_loop.simps) (simp add: attach_def)
  qed
qed

text \<open>In an ordered list, the first child that does not end before the range decides.\<close>

lemma overlap_first:
  assumes "sorted_wrt (before h) xs" "\<And>x. x \<in> set xs \<Longrightarrow> st h x \<le> en h x"
  shows "(\<forall>x \<in> set xs. \<not> overlaps h s e x) \<longleftrightarrow>
    (case behind h s xs of [] \<Rightarrow> True | t # _ \<Rightarrow> e < st h t)"
  using assms
proof (induction xs)
  case (Cons x xs)
  show ?case
  proof (cases "en h x < s")
    case True
    then show ?thesis using Cons by (simp add: overlaps_def)
  next
    case False
    have "e < st h y" if "e < st h x" "y \<in> set xs" for y
      using Cons.prems that by (force intro: order.strict_trans)
    then show ?thesis using False by (auto simp: overlaps_def)
  qed
qed simp

section \<open>Attaching and detaching\<close>

lemma attach_range:
  "map_option start (attach root new p tmp h x) = map_option start (h x)"
  "map_option endr (attach root new p tmp h x) = map_option endr (h x)"
  "map_option flags (attach root new p tmp h x) = map_option flags (h x)"
  by (cases p; cases "h x"; auto simp: attach_def upd_at)+

lemma attach_st_en:
  "h x \<noteq> None \<Longrightarrow> st (attach root new p tmp h) x = st h x"
  "h x \<noteq> None \<Longrightarrow> en (attach root new p tmp h) x = en h x"
  using attach_range [of root new p tmp h x] by (auto simp: map_option_case split: option.splits)

lemma attach_links:
  "x \<noteq> new \<Longrightarrow> map_option parent (attach root new p tmp h x) = map_option parent (h x)"
  "x \<noteq> new \<Longrightarrow> p \<noteq> Sibling x \<Longrightarrow> map_option sibling (attach root new p tmp h x) = map_option sibling (h x)"
  "p \<noteq> Child x \<Longrightarrow> map_option child (attach root new p tmp h x) = map_option child (h x)"
  by (cases p; cases "h x"; auto simp: attach_def upd_at)+

lemma attach_new:
  assumes "h new = Some n" "owner p \<noteq> new"
  shows "attach root new p tmp h new = Some (n\<lparr>sibling := tmp, parent := Some root\<rparr>)"
  using assms by (cases p) (auto simp: attach_def upd_at)

lemma attach_dom: "attach root new p tmp h x = None \<longleftrightarrow> h x = None"
  by (auto simp: attach_def upd_at assign_dom)

lemma seg_first: "seg h u xs None \<Longrightarrow> u = first xs"
  by (cases xs) auto

lemma attach_kids:
  assumes kids: "kids h root (pre @ post)" and new: "h new = Some n" "new \<notin> set (pre @ post)" "new \<noteq> root"
    and range: "\<And>x. x \<in> set pre \<Longrightarrow> en h x < start n" "\<And>x. x \<in> set post \<Longrightarrow> endr n < st h x" "fits h root new"
  defines "h' \<equiv> attach root new (place_after (Child root) pre) (first post) h"
  shows "kids h' root (pre @ new # post)"
proof -
  let ?p = "place_after (Child root) pre"
  define h1 where "h1 = upd new (sibling_update (\<lambda>_. first post)) h"
  note out = new(2)
  have dist: "distinct (pre @ post)" by (rule kidsD(2) [OF kids])
  have own: "owner ?p \<noteq> new" using place_after_cases [of "Child root" pre] out new(3) by auto
  obtain v u where v: "deref h (Child root) = Some v" "seg h v pre u" "seg h u post None"
    using kidsD(1) [OF kids] by (auto simp: seg_append)
  have "deref h1 (Child root) = Some v" using v(1) new(3) by (simp add: h1_def upd_at)
  moreover have "seg h1 v pre u"
    by (subst seg_cong [of pre h1 h]) (use v out in \<open>auto simp: h1_def upd_at\<close>)
  ultimately obtain v' where v': "deref (assign ?p (Some new) h1) (Child root) = Some v'"
      "seg (assign ?p (Some new) h1) v' pre (Some new)"
    using seg_relink [of h1 "Child root" v pre u "Some new"] dist by auto
  have h': "h' = upd new (parent_update (\<lambda>_. Some root)) (assign ?p (Some new) h1)"
    by (simp add: h'_def attach_def h1_def)
  have "deref h' (Child root) = Some v'" using v'(1) new(3) by (simp add: h' upd_at)
  moreover have "seg h' v' pre (Some new)"
    by (subst seg_cong [of pre h' "assign ?p (Some new) h1"]) (use v'(2) out in \<open>auto simp: h' upd_at\<close>)
  moreover have "seg h' (first post) post None"
  proof -
    have "?p \<noteq> Sibling x" "x \<noteq> new" if "x \<in> set post" for x
      using that dist out place_after_cases [of "Child root" pre] by auto
    then show ?thesis unfolding h'_def
      by (subst seg_cong [of post _ h]) (use v(3) seg_first [OF v(3)] in \<open>simp_all add: attach_links\<close>)
  qed
  moreover have new': "h' new = Some (n\<lparr>sibling := first post, parent := Some root\<rparr>)"
    unfolding h'_def by (rule attach_new) (fact new(1) own)+
  ultimately have "\<exists>v. deref h' (Child root) = Some v \<and> seg h' v (pre @ new # post) None"
    by (auto simp: seg_append)
  moreover have same: "st h' x = st h x" "en h' x = en h x" if "x \<in> insert new (insert root (set (pre @ post)))" for x
    using that kidsD(6) [OF kids] new(1) v(1) attach_st_en unfolding h'_def by auto
  have "sorted_wrt (before h') (pre @ new # post)"
    using kidsD(3) [OF kids] range(1,2) new(1) same
    by (simp add: sorted_wrt_append sorted_before_cong [of _ h' h])
  moreover have "parent (the (h' x)) = Some root \<and> fits h' root x" if "x \<in> set (pre @ new # post)" for x
  proof (cases "x = new")
    case True
    then show ?thesis using new' range(3) same [of new] same [of root] new(1) by (simp add: fits_def)
  next
    case False
    then have x: "x \<in> set (pre @ post)" using that by auto
    have "map_option parent (h' x) = map_option parent (h x)"
      unfolding h'_def by (rule attach_links(1) [OF False])
    then show ?thesis using kidsD(4-6) [OF kids x] same x by (auto simp: fits_def)
  qed
  ultimately show ?thesis using dist out unfolding kids_def by auto
qed

lemma attach_kids_other:
  assumes "kids h root xs" "kids h r ys" "r \<noteq> root" "h new = Some n" "parent n = None" "set pre \<subseteq> set xs"
  shows "kids (attach root new (place_after (Child root) pre) tmp h) r ys" (is "kids ?h r ys")
proof (rule kids_cong [OF assms(2)])
  have p: "place_after (Child root) pre \<noteq> Sibling x" "x \<noteq> new" if "x \<in> set ys" for x
    using that place_after_cases [of "Child root" pre] kids_disjoint [OF assms(2,1,3)] assms(4-6)
      kidsD(4) [OF assms(2) that] by auto
  have "place_after (Child root) pre \<noteq> Child r" using place_after_cases [of "Child root" pre] assms(3) by auto
  then show "map_option child (?h r) = map_option child (h r)" by (rule attach_links(3))
  show "map_option sibling (?h x) = map_option sibling (h x)" if "x \<in> set ys" for x
    using p [OF that] by (intro attach_links(2))
  show "map_option parent (?h x) = map_option parent (h x)" if "x \<in> set ys" for x
    using p [OF that] by (intro attach_links(1))
  show "st ?h x = st h x \<and> en ?h x = en h x" if "x \<in> insert r (set ys)" for x
    using that kidsD(1,6) [OF assms(2)] attach_st_en by auto
qed

lemma attach_tree_ok:
  assumes "tree_ok h" "kids h root (pre @ post)" "h new = Some n" "parent n = None" "new \<noteq> root"
    "\<And>x. x \<in> set pre \<Longrightarrow> en h x < start n" "\<And>x. x \<in> set post \<Longrightarrow> endr n < st h x" "fits h root new"
  defines "h' \<equiv> attach root new (place_after (Child root) pre) (first post) h"
  shows "tree_ok h'"
proof -
  have "new \<notin> set (pre @ post)" using kidsD(4) [OF assms(2), of new] assms(3,4) by auto
  then have root: "kids h' root (pre @ new # post)"
    unfolding h'_def by (intro attach_kids [OF assms(2,3) _ assms(5-8)])
  have other: "kids h' r ys" if "r \<noteq> root" "kids h r ys" for r ys
    unfolding h'_def by (rule attach_kids_other [OF assms(2) that(2,1) assms(3,4)]) simp
  have "\<exists>xs. kids h' r xs" if "r \<in> dom h'" for r
    using that root other assms(1) attach_dom unfolding tree_ok_def h'_def by (metis domD domIff)
  moreover have "\<exists>xs. kids h' r xs \<and> x \<in> set xs" if "h' x = Some a" "parent a = Some r" for x a r
  proof (cases "x = new")
    case True
    moreover have "parent (the (h' new)) = Some root" using kidsD(4) [OF root] by simp
    ultimately show ?thesis using that root by auto
  next
    case False
    then have "map_option parent (h x) = Some (Some r)"
      using attach_links(1) [OF False] that by (metis h'_def option.simps(9))
    then obtain ys where "kids h r ys" "x \<in> set ys" using tree_okD(2) [OF assms(1)] by blast
    then show ?thesis
      using root other kids_unique [OF assms(2)] by (cases "r = root") fastforce+
  qed
  ultimately show ?thesis by (simp add: tree_ok_def)
qed

text \<open>Releasing: the resource after \<open>pre\<close> is unlinked.\<close>

definition detach :: "rid \<Rightarrow> place \<Rightarrow> store \<Rightarrow> store" where
  "detach old p h = upd old (parent_update (\<lambda>_. None)) (assign p (sibling (the (h old))) h)"

lemma release_loop_eq:
  assumes "deref h p = Some v" "seg h v xs None"
  shows "release_loop old p h =
    (if old \<in> set xs then Some (0, detach old (place_after p (takeWhile (\<lambda>x. x \<noteq> old) xs)) h)
     else Some (- EINVAL, h))"
  using assms
proof (induction xs arbitrary: p v)
  case Nil
  then show ?case by (subst release_loop.simps) simp
next
  case (Cons x xs)
  obtain a where a: "h x = Some a" "seg h (sibling a) xs None" "v = Some x"
    using Cons.prems(2) by (auto split: option.splits)
  show ?case
  proof (cases "x = old")
    case True
    then show ?thesis using Cons.prems(1) a by (subst release_loop.simps) (simp add: detach_def)
  next
    case False
    then have "release_loop old p h = release_loop old (Sibling x) h"
      using Cons.prems(1) a(3) by (subst release_loop.simps) simp
    then show ?thesis using Cons.IH [of "Sibling x" "sibling a"] a False by auto
  qed
qed

lemma detach_range:
  "map_option start (detach old p h x) = map_option start (h x)"
  "map_option endr (detach old p h x) = map_option endr (h x)"
  by (cases p; cases "h x"; auto simp: detach_def upd_at)+

lemma detach_st_en:
  "h x \<noteq> None \<Longrightarrow> st (detach old p h) x = st h x"
  "h x \<noteq> None \<Longrightarrow> en (detach old p h) x = en h x"
  using detach_range [of old p h x] by (auto simp: map_option_case split: option.splits)

lemma detach_links:
  "x \<noteq> old \<Longrightarrow> map_option parent (detach old p h x) = map_option parent (h x)"
  "p \<noteq> Sibling x \<Longrightarrow> map_option sibling (detach old p h x) = map_option sibling (h x)"
  "p \<noteq> Child x \<Longrightarrow> map_option child (detach old p h x) = map_option child (h x)"
  by (cases p; cases "h x"; auto simp: detach_def upd_at)+

lemma detach_dom: "detach old p h x = None \<longleftrightarrow> h x = None"
  by (auto simp: detach_def upd_at assign_dom)

lemma detach_kids:
  assumes kids: "kids h r (pre @ old # post)"
  defines "h' \<equiv> detach old (place_after (Child r) pre) h"
  shows "kids h' r (pre @ post)"
proof -
  let ?p = "place_after (Child r) pre"
  have dist: "distinct (pre @ old # post)" by (rule kidsD(2) [OF kids])
  obtain v u a where v: "deref h (Child r) = Some v" "seg h v pre u" "h old = Some a" "seg h (sibling a) post None"
    using kidsD(1) [OF kids] by (auto simp: seg_append split: option.splits)
  obtain v' where v': "deref (assign ?p (sibling a) h) (Child r) = Some v'"
      "seg (assign ?p (sibling a) h) v' pre (sibling a)"
    using seg_relink [OF v(1,2), of "sibling a"] dist by auto
  have h': "h' = upd old (parent_update (\<lambda>_. None)) (assign ?p (sibling a) h)"
    using v(3) by (simp add: h'_def detach_def)
  have "deref h' (Child r) = Some v'"
    using v'(1) by (cases "old = r") (auto simp: h' upd_at)
  moreover have "seg h' v' pre (sibling a)"
    by (subst seg_cong [of pre h' "assign ?p (sibling a) h"]) (use v'(2) dist in \<open>auto simp: h' upd_at\<close>)
  moreover have "seg h' (sibling a) post None"
  proof -
    have "?p \<noteq> Sibling x" if "x \<in> set post" for x
      using that dist place_after_cases [of "Child r" pre] by auto
    then show ?thesis unfolding h'_def
      by (subst seg_cong [of post _ h]) (use v(4) in \<open>simp_all add: detach_links\<close>)
  qed
  ultimately have "\<exists>v. deref h' (Child r) = Some v \<and> seg h' v (pre @ post) None"
    by (auto simp: seg_append)
  moreover have same: "st h' x = st h x" "en h' x = en h x" if "x \<in> insert r (set (pre @ post))" for x
    using that kidsD(6) [OF kids] v(1) detach_st_en unfolding h'_def by auto
  have "sorted_wrt (before h') (pre @ post)"
    using kidsD(3) [OF kids] same by (simp add: sorted_wrt_append sorted_before_cong [of _ h' h])
  moreover have "parent (the (h' x)) = Some r \<and> fits h' r x" if x: "x \<in> set (pre @ post)" for x
  proof -
    have "x \<noteq> old" using x dist by auto
    then have "map_option parent (h' x) = map_option parent (h x)"
      unfolding h'_def by (rule detach_links(1))
    then show ?thesis using kidsD(4-6) [OF kids, of x] same x by (auto simp: fits_def)
  qed
  ultimately show ?thesis using dist unfolding kids_def by auto
qed

lemma detach_kids_other:
  assumes "kids h r (pre @ old # post)" "kids h r' ys" "r' \<noteq> r"
  shows "kids (detach old (place_after (Child r) pre) h) r' ys" (is "kids ?h r' ys")
proof (rule kids_cong [OF assms(2)])
  have p: "place_after (Child r) pre \<noteq> Sibling x" "x \<noteq> old" if "x \<in> set ys" for x
    using that place_after_cases [of "Child r" pre] kids_disjoint [OF assms(2,1,3) that] by auto
  have "place_after (Child r) pre \<noteq> Child r'" using place_after_cases [of "Child r" pre] assms(3) by auto
  then show "map_option child (?h r') = map_option child (h r')" by (rule detach_links(3))
  show "map_option sibling (?h x) = map_option sibling (h x)" if "x \<in> set ys" for x
    using p [OF that] by (intro detach_links(2))
  show "map_option parent (?h x) = map_option parent (h x)" if "x \<in> set ys" for x
    using p [OF that] by (intro detach_links(1))
  show "st ?h x = st h x \<and> en ?h x = en h x" if "x \<in> insert r' (set ys)" for x
    using that kidsD(1,6) [OF assms(2)] detach_st_en by auto
qed

lemma detach_tree_ok:
  assumes "tree_ok h" "kids h r (pre @ old # post)"
  defines "h' \<equiv> detach old (place_after (Child r) pre) h"
  shows "tree_ok h'"
proof -
  have at: "kids h' r (pre @ post)" unfolding h'_def by (rule detach_kids [OF assms(2)])
  have other: "kids h' r' ys" if "r' \<noteq> r" "kids h r' ys" for r' ys
    unfolding h'_def by (rule detach_kids_other [OF assms(2) that(2,1)])
  have "\<exists>xs. kids h' r' xs" if "h' r' \<noteq> None" for r'
    using that at other tree_okD(1) [OF assms(1)] detach_dom [of old _ h r'] unfolding h'_def by metis
  moreover have "\<exists>xs. kids h' r' xs \<and> x \<in> set xs" if "h' x = Some a" "parent a = Some r'" for x a r'
  proof -
    have "x \<noteq> old" using that by (auto simp: h'_def detach_def upd_at)
    then have "map_option parent (h x) = Some (Some r')"
      using detach_links(1) that by (metis h'_def option.simps(9))
    then obtain ys where "kids h r' ys" "x \<in> set ys" using tree_okD(2) [OF assms(1)] by blast
    then show ?thesis
      using at other kids_unique [OF assms(2)] \<open>x \<noteq> old\<close> by (cases "r' = r") fastforce+
  qed
  ultimately show ?thesis by (auto simp: tree_ok_def)
qed

section \<open>Request and release\<close>

lemma ahead_before: "x \<in> set (ahead h s xs) \<Longrightarrow> en h x < s"
  by (induction xs) (auto split: if_splits)

lemma behind_after:
  assumes "sorted_wrt (before h) xs" "\<And>x. x \<in> set xs \<Longrightarrow> st h x \<le> en h x"
    "\<forall>x \<in> set xs. \<not> overlaps h s e x" "y \<in> set (behind h s xs)"
  shows "e < st h y"
proof -
  obtain t ts where t: "behind h s xs = t # ts" using assms(4) by (cases "behind h s xs") auto
  have "e < st h t" using overlap_first [OF assms(1,2)] assms(3) t by simp
  moreover have "sorted_wrt (before h) (t # ts)"
    using assms(1) t by (metis sorted_wrt_append takeWhile_dropWhile_id)
  moreover have "st h t \<le> en h t" using assms(2) t by (metis list.set_intros(1) set_dropWhileD)
  ultimately show ?thesis using assms(4) t by (auto intro: order.strict_trans order.strict_trans1)
qed

lemma request_outcome:
  assumes "kids h root xs" "h new = Some n"
  shows "request_resource0 root new h =
    (if free_range h root xs (start n) (endr n)
     then Some (None, attach root new (place_after (Child root) (ahead h (start n) xs))
                        (first (behind h (start n) xs)) h)
     else Some (Some (if start n \<le> endr n \<and> st h root \<le> start n \<and> endr n \<le> en h root
                      then hd (behind h (start n) xs) else root), h))"
proof -
  obtain v where v: "deref h (Child root) = Some v" "seg h v xs None" using kidsD(1) [OF assms(1)] by blast
  then obtain r where r: "h root = Some r" by (cases "h root") auto
  have ok: "\<And>x. x \<in> set xs \<Longrightarrow> st h x \<le> en h x" using kidsD(5) [OF assms(1)] by (simp add: fits_def)
  show ?thesis
  proof (cases "start n \<le> endr n \<and> start r \<le> start n \<and> endr n \<le> endr r")
    case False
    then show ?thesis using r assms(2)
      by (auto simp: request_resource0_def free_range_def)
  next
    case True
    then have "request_resource0 root new h = request_loop root new (start n) (endr n) (Child root) h"
      using r assms(2) by (auto simp: request_resource0_def)
    moreover note request_loop_eq [OF v, of "start n" "endr n" root new]
      overlap_first [OF kidsD(3) [OF assms(1)] ok, of "start n" "endr n"]
    ultimately show ?thesis using True ok r
      by (cases "behind h (start n) xs") (simp_all add: free_range_def del: dropWhile_eq_Nil_conv)
  qed
qed

lemma request_attaches:
  assumes "tree_ok h" "kids h root xs" "h new = Some n" "parent n = None" "new \<noteq> root"
    "free_range h root xs (start n) (endr n)"
  defines "h' \<equiv> attach root new (place_after (Child root) (ahead h (start n) xs)) (first (behind h (start n) xs)) h"
  shows "tree_ok h'" "kids h' root (ahead h (start n) xs @ new # behind h (start n) xs)"
proof -
  have split: "kids h root (ahead h (start n) xs @ behind h (start n) xs)" using assms(2) by simp
  have ok: "\<And>x. x \<in> set xs \<Longrightarrow> st h x \<le> en h x" using kidsD(5) [OF assms(2)] by (simp add: fits_def)
  have after: "y \<in> set (behind h (start n) xs) \<Longrightarrow> endr n < st h y" for y
    using behind_after [OF kidsD(3) [OF assms(2)] ok, of "start n" "endr n" y] assms(6)
    by (simp add: free_range_def)
  have fits: "fits h root new" using assms(3,6) by (simp add: fits_def free_range_def)
  have out: "new \<notin> set (ahead h (start n) xs @ behind h (start n) xs)"
    using kidsD(4) [OF assms(2), of new] assms(3,4) by auto
  show "tree_ok h'" unfolding h'_def
    by (rule attach_tree_ok [OF assms(1) split assms(3-5) _ after fits]) (rule ahead_before)
  show "kids h' root (ahead h (start n) xs @ new # behind h (start n) xs)" unfolding h'_def
    by (rule attach_kids [OF split assms(3) out assms(5) _ after fits]) (rule ahead_before)
qed

text \<open>C6. \<open>request_resource\<close> refuses exactly the ranges that are not free. In a well-formed tree, a
  resource that is in no tree yet is inserted among the children of \<open>root\<close>, in order, when its range
  is a range inside \<open>root\<close> that overlaps no child, and the tree stays well formed; otherwise
  the result is \<open>-EBUSY\<close> and nothing changes.\<close>

theorem request_resource_exact:
  assumes "tree_ok h" "kids h root xs" "h new = Some n" "parent n = None" "new \<noteq> root"
  shows "if free_range h root xs (start n) (endr n)
    then \<exists>h'. request_resource root new h = Some (0, h') \<and> tree_ok h' \<and>
           kids h' root (ahead h (start n) xs @ new # behind h (start n) xs)
    else request_resource root new h = Some (- EBUSY, h)"
  using request_outcome [OF assms(2,3)] request_attaches [OF assms]
  by (auto simp: request_resource_def)

text \<open>C14. \<open>release_resource\<close> takes a resource out of its parent's children and returns 0.
  The tree stays well formed.\<close>

theorem release_resource_removes:
  assumes "tree_ok h" "kids h r xs" "old \<in> set xs"
  shows "\<exists>h'. release_resource old h = Some (0, h') \<and> tree_ok h' \<and> kids h' r (remove1 old xs)"
proof -
  obtain v where v: "deref h (Child r) = Some v" "seg h v xs None" using kidsD(1) [OF assms(2)] by blast
  obtain a where a: "h old = Some a" "parent a = Some r"
    using kidsD(4,6) [OF assms(2,3)] by auto
  obtain pre post where xs: "xs = pre @ old # post" "old \<notin> set pre"
    using assms(3) by (meson split_list_first)
  have tw: "takeWhile (\<lambda>x. x \<noteq> old) xs = pre" unfolding xs(1)
    by (subst takeWhile_append2) (use xs(2) in auto)
  have "release_resource old h = Some (0, detach old (place_after (Child r) pre) h)"
    using release_loop_eq [OF v, of old] assms(3) a tw by (simp add: release_resource_def release_resource0_def)
  moreover have "remove1 old xs = pre @ post" using xs by (simp add: remove1_append)
  ultimately show ?thesis
    using detach_tree_ok [OF assms(1)] detach_kids assms(2) xs(1) by auto
qed

section \<open>Undoing a request\<close>

lemma place_after_owner:
  "new \<noteq> root \<Longrightarrow> new \<notin> set xs \<Longrightarrow> owner (place_after (Child root) xs) \<noteq> new"
  using place_after_cases [of "Child root" xs] by auto

lemma deref_split:
  assumes "kids h root (pre @ post)"
  shows "deref h (place_after (Child root) pre) = Some (first post)"
proof -
  obtain v u where "deref h (Child root) = Some v" "seg h v pre u" "seg h u post None"
    using kidsD(1) [OF assms] unfolding seg_append by blast
  then show ?thesis using deref_place_after seg_first by blast
qed

lemma attach_detach:
  assumes "h new = Some n" "owner p \<noteq> new" "deref h p = Some tmp"
  shows "detach new p (attach root new p tmp h) = h(new \<mapsto> n\<lparr>sibling := tmp, parent := None\<rparr>)"
proof
  fix x
  show "detach new p (attach root new p tmp h) x = (h(new \<mapsto> n\<lparr>sibling := tmp, parent := None\<rparr>)) x"
    using assms by (cases p) (auto simp: detach_def attach_def upd_at)
qed

lemma kids_new:
  assumes "kids h root xs" "h new = None"
  shows "kids (h(new \<mapsto> n)) root xs" "new \<notin> set xs" "new \<noteq> root"
proof -
  show out: "new \<notin> set xs" using kidsD(6) [OF assms(1), of new] assms(2) by blast
  show ne: "new \<noteq> root" using kidsD(1) [OF assms(1)] assms(2) by auto
  show "kids (h(new \<mapsto> n)) root xs" by (rule kids_cong [OF assms(1)]) (use out ne in auto)
qed

lemma request_release:
  assumes "kids h root xs" "h new = Some n" "new \<notin> set xs" "new \<noteq> root"
    "free_range h root xs (start n) (endr n)"
  defines "h' \<equiv> attach root new (place_after (Child root) (ahead h (start n) xs)) (first (behind h (start n) xs)) h"
  shows "release_resource0 new h' =
    Some (0, h(new \<mapsto> n\<lparr>sibling := first (behind h (start n) xs), parent := None\<rparr>))"
proof -
  let ?p = "place_after (Child root) (ahead h (start n) xs)"
  have split: "kids h root (ahead h (start n) xs @ behind h (start n) xs)" using assms(1) by simp
  have ok: "\<And>x. x \<in> set xs \<Longrightarrow> st h x \<le> en h x" using kidsD(5) [OF assms(1)] by (simp add: fits_def)
  have after: "y \<in> set (behind h (start n) xs) \<Longrightarrow> endr n < st h y" for y
    using behind_after [OF kidsD(3) [OF assms(1)] ok, of "start n" "endr n" y] assms(5)
    by (simp add: free_range_def)
  have fits: "fits h root new" using assms(2,5) by (simp add: fits_def free_range_def)
  have out: "new \<notin> set (ahead h (start n) xs @ behind h (start n) xs)" using assms(3) by simp
  have kids: "kids h' root (ahead h (start n) xs @ new # behind h (start n) xs)" unfolding h'_def
    by (rule attach_kids [OF split assms(2) out assms(4) _ after fits]) (rule ahead_before)
  have own: "owner ?p \<noteq> new" by (rule place_after_owner) (use assms(3,4) in \<open>auto dest: set_takeWhileD\<close>)
  have "h' new = Some (n\<lparr>sibling := first (behind h (start n) xs), parent := Some root\<rparr>)"
    unfolding h'_def by (rule attach_new) (fact assms own)+
  moreover obtain v where v: "deref h' (Child root) = Some v"
      "seg h' v (ahead h (start n) xs @ new # behind h (start n) xs) None"
    using kidsD(1) [OF kids] by blast
  have "takeWhile (\<lambda>x. x \<noteq> new) (ahead h (start n) xs @ new # behind h (start n) xs) = ahead h (start n) xs"
    by (subst takeWhile_append2) (use out in \<open>auto dest: set_takeWhileD\<close>)
  ultimately have "release_resource0 new h' = Some (0, detach new ?p h')"
    using release_loop_eq [OF v, of new] by (simp add: release_resource0_def)
  moreover have "deref h ?p = Some (first (behind h (start n) xs))"
    by (rule deref_split [OF split])
  ultimately show ?thesis using attach_detach [of h new n ?p] assms(2) own by (simp add: h'_def)
qed

text \<open>C15. \<open>check_resource\<close> tells whether a range is free and leaves the tree as it was, whatever the
  local variable it uses holds when it is entered.\<close>

theorem check_resource_exact:
  assumes "kids h root xs" "h tmp = None"
  shows "check_resource tmp junk root s len h =
    Some (if free_range h root xs s (s + len - 1) then 0 else - EBUSY, h)"
proof -
  define n where "n = junk\<lparr>start := s, endr := s + len - 1\<rparr>"
  define h1 where "h1 = h(tmp \<mapsto> n)"
  note new = kids_new(1) [OF assms, of n] kids_new(2,3) [OF assms]
  have h1: "h1 tmp = Some n" "kids h1 root xs" using new(1) by (simp_all add: h1_def)
  have free: "free_range h1 root xs s (s + len - 1) = free_range h root xs s (s + len - 1)"
    using new(2,3) by (auto simp: free_range_def h1_def overlaps_def)
  have restore: "h1(tmp := None) = h" "(h1(tmp \<mapsto> n'))(tmp := None) = h" for n'
    using assms(2) by (auto simp: h1_def fun_upd_idem)
  show ?thesis
    using request_outcome [OF h1(2,1)] request_release [OF h1(2,1) new(2,3)] restore free
    by (simp add: check_resource_def Let_def n_def [symmetric] h1_def [symmetric]) (simp add: n_def)
qed

section \<open>Allocation\<close>












section \<open>Busy regions\<close>

definition parent_rel :: "store \<Rightarrow> (rid \<times> rid) set" where
  "parent_rel h = {(c, p). map_option parent (h c) = Some (Some p)}"

abbreviation holds :: "store \<Rightarrow> u32 \<Rightarrow> u32 \<Rightarrow> rid \<Rightarrow> bool" where
  "holds h s e x \<equiv> st h x \<le> s \<and> en h x \<ge> e"

abbreviation busy :: "store \<Rightarrow> rid \<Rightarrow> bool" where
  "busy h x \<equiv> flags (the (h x)) AND IORESOURCE_BUSY \<noteq> 0"

lemma release_region_loop_eq:
  assumes "deref h p = Some v" "seg h v (pre @ t # post) w" "\<And>x. x \<in> set pre \<Longrightarrow> \<not> holds h s e x" "holds h s e t"
  shows "release_region_loop s e p h =
    (if \<not> busy h t then release_region_loop s e (Child t) h
     else if st h t \<noteq> s \<or> en h t \<noteq> e then Some (False, h)
     else Some (True, (assign (place_after p pre) (sibling (the (h t))) h)(t := None)))"
  using assms
proof (induction pre arbitrary: p v)
  case Nil
  then obtain a where "h t = Some a" "v = Some t" by (auto split: option.splits)
  then show ?case using Nil.prems(1,4) by (subst release_region_loop.simps) simp
next
  case (Cons x pre)
  obtain a where a: "h x = Some a" "seg h (sibling a) (pre @ t # post) w" "v = Some x"
    using Cons.prems(2) by (auto split: option.splits)
  have "release_region_loop s e p h = release_region_loop s e (Sibling x) h"
    using Cons.prems(1) Cons.prems(3) [of x] a(1,3) by (subst release_region_loop.simps) auto
  moreover have "deref h (Sibling x) = Some (sibling a)" using a(1) by simp
  ultimately show ?case using Cons.IH [of "Sibling x" "sibling a"] a(2) Cons.prems(3,4) by simp
qed

lemma tree_ok_new:
  assumes "tree_ok h" "h new = None" "parent n = None" "child n = None"
  shows "tree_ok (h(new \<mapsto> n))" (is "tree_ok ?h")
proof -
  have other: "kids ?h r xs" if "kids h r xs" for r xs using kids_new(1) [OF that assms(2)] .
  have self: "kids ?h new []" using assms(4) by (simp add: kids_def)
  have "\<exists>xs. kids ?h r xs" if "r \<in> dom ?h" for r
    using self other tree_okD(1) [OF assms(1), of r] that by (cases "r = new") (auto simp: dom_def)
  moreover have "\<exists>xs. kids ?h r xs \<and> x \<in> set xs" if c: "?h x = Some c" "parent c = Some r" for x c r
    using tree_okD(2) [OF assms(1), of x r] other c assms(3) by (cases "x = new") auto
  ultimately show ?thesis by (simp add: tree_ok_def)
qed

lemma attach_undo:
  assumes "h new = Some n" "owner p \<noteq> new" "deref h p = Some tmp"
  shows "(assign p tmp (attach root new p tmp h))(new := None) = h(new := None)"
proof
  fix x
  show "((assign p tmp (attach root new p tmp h))(new := None)) x = (h(new := None)) x"
    using assms by (cases p) (auto simp: attach_def upd_at)
qed

text \<open>What \<open>__request_region\<close> leaves: nothing, or a new busy leaf that \<open>__release_region\<close> takes away again.\<close>

definition region_ok :: "store \<Rightarrow> rid \<Rightarrow> rid \<Rightarrow> resource \<Rightarrow> rid option \<times> store \<Rightarrow> bool" where
  "region_ok h par res n out \<longleftrightarrow>
     (case fst out of
        None \<Rightarrow> snd out = h
      | Some x \<Rightarrow> x = res \<and> tree_ok (snd out) \<and> start n \<le> endr n \<and> holds h (start n) (endr n) par \<and>
          release_region_loop (start n) (endr n) (Child par) (snd out) = Some (True, h) \<and>
          (\<exists>root ys pre tmp. kids h root ys \<and> set pre \<subseteq> set ys \<and> (root, par) \<in> (parent_rel h)\<^sup>* \<and>
             snd out = attach root res (place_after (Child root) pre) tmp (h(res \<mapsto> n))))"

lemma region_ok_None: "region_ok h par res n (None, h)"
  by (simp add: region_ok_def)

lemma region_here:
  assumes "tree_ok h" "kids h par xs" "h res = None" "parent n = None" "child n = None"
    "flags n = IORESOURCE_BUSY" "free_range h par xs (start n) (endr n)"
  defines "h2 \<equiv> attach par res (place_after (Child par) (ahead h (start n) xs))
    (first (behind h (start n) xs)) (h(res \<mapsto> n))"
  shows "region_ok h par res n (Some res, h2)"
proof -
  define h1 where "h1 = h(res \<mapsto> n)"
  note new = kids_new(1) [OF assms(2,3), of n] kids_new(2,3) [OF assms(2,3)]
  have h1: "h1 res = Some n" "kids h1 par xs" "tree_ok h1"
    using new(1) tree_ok_new [OF assms(1,3-5)] by (simp_all add: h1_def)
  have eq: "ahead h1 (start n) xs = ahead h (start n) xs" "behind h1 (start n) xs = behind h (start n) xs"
    using new(2) by (auto simp: h1_def intro!: takeWhile_cong dropWhile_cong)
  have free: "free_range h1 par xs (start n) (endr n)"
    using assms(7) new(2,3) by (auto simp: free_range_def h1_def overlaps_def)
  let ?p = "place_after (Child par) (ahead h (start n) xs)"
  have at: "tree_ok h2" "kids h2 par (ahead h (start n) xs @ res # behind h (start n) xs)"
    using request_attaches [OF h1(3,2,1) assms(4) new(3) free] eq by (simp_all add: h2_def h1_def)
  have own: "owner ?p \<noteq> res" by (rule place_after_owner) (use new(2,3) in \<open>auto dest: set_takeWhileD\<close>)
  have "kids h1 par (ahead h (start n) xs @ behind h (start n) xs)" using h1(2) by simp
  note der = deref_split [OF this]
  have res2: "h2 res = Some (n\<lparr>sibling := first (behind h (start n) xs), parent := Some par\<rparr>)"
    using attach_new [of "h(res \<mapsto> n)" res n ?p par "first (behind h (start n) xs)"] own by (simp add: h2_def)
  obtain v where v: "deref h2 (Child par) = Some v"
      "seg h2 v (ahead h (start n) xs @ res # behind h (start n) xs) None"
    using kidsD(1) [OF at(2)] by blast
  have le: "start n \<le> endr n" using assms(7) by (simp add: free_range_def)
  have "\<not> holds h2 (start n) (endr n) x" if "x \<in> set (ahead h (start n) xs)" for x
  proof -
    have "en h2 x = en h x"
      using kidsD(6) [OF assms(2)] new(2) that attach_st_en(2) [of "h(res \<mapsto> n)" x]
      by (auto simp: h2_def dest: set_takeWhileD)
    then show ?thesis using ahead_before [OF that] le by (auto simp: not_le intro: order.strict_trans2)
  qed
  then have "release_region_loop (start n) (endr n) (Child par) h2 =
      Some (True, (assign ?p (first (behind h (start n) xs)) h2)(res := None))"
    using release_region_loop_eq [OF v, of "start n" "endr n"] res2 assms(6) by (simp add: IORESOURCE_BUSY_def)
  moreover have "(assign ?p (first (behind h (start n) xs)) h2)(res := None) = h"
    using attach_undo [of h1 res n ?p _ par] h1(1) own der assms(3) by (simp add: h2_def h1_def fun_upd_idem)
  moreover have "\<exists>root ys pre tmp. kids h root ys \<and> set pre \<subseteq> set ys \<and> (root, par) \<in> (parent_rel h)\<^sup>* \<and>
      h2 = attach root res (place_after (Child root) pre) tmp (h(res \<mapsto> n))"
    by (rule exI [of _ par], rule exI [of _ xs], rule exI [of _ "ahead h (start n) xs"],
        rule exI [of _ "first (behind h (start n) xs)"])
       (use assms(2) in \<open>auto simp: h2_def dest: set_takeWhileD\<close>)
  ultimately show ?thesis using at(1) le assms(7) by (simp add: region_ok_def free_range_def)
qed

lemma region_below:
  assumes "tree_ok h" "wf (parent_rel h)" "kids h par xs" "h res = None" "parent n = None"
    "behind h (start n) xs = c # post" "c \<in> set xs" "\<not> busy h c" "holds h (start n) (endr n) par"
    "region_ok h c res n out"
  shows "region_ok h par res n out"
proof (cases "fst out")
  case None
  then show ?thesis using assms(10) by (simp add: region_ok_def)
next
  case (Some x)
  define h2 where "h2 = snd out"
  have IH: "x = res" "tree_ok h2" "start n \<le> endr n" "holds h (start n) (endr n) c"
    "release_region_loop (start n) (endr n) (Child c) h2 = Some (True, h)"
    using assms(10) Some by (auto simp: region_ok_def h2_def)
  obtain root ys pre tmp where at: "kids h root ys" "set pre \<subseteq> set ys" "(root, c) \<in> (parent_rel h)\<^sup>*"
      "h2 = attach root res (place_after (Child root) pre) tmp (h(res \<mapsto> n))"
    using assms(10) Some by (auto simp: region_ok_def h2_def)
  have c: "(c, par) \<in> parent_rel h"
    using kidsD(4,6) [OF assms(3,7)] by (auto simp: parent_rel_def)
  then have "(root, par) \<in> (parent_rel h)\<^sup>+" using at(3) by (rule rtrancl_into_trancl1 [rotated])
  then have ne: "par \<noteq> root" using wf_acyclic [OF assms(2)] by (auto simp: acyclic_def)
  have root_par: "(root, par) \<in> (parent_rel h)\<^sup>*" using at(3) c by (rule rtrancl_into_rtrancl)
  note new = kids_new(1) [OF assms(3,4), of n] kids_new(1) [OF at(1) assms(4), of n]
  have "kids h2 par xs" unfolding at(4)
    by (rule attach_kids_other [OF new(2,1) ne _ assms(5) at(2)]) simp
  then obtain v where v: "deref h2 (Child par) = Some v" "seg h2 v xs None" using kidsD(1) by blast
  have same: "st h2 y = st h y" "en h2 y = en h y" "flags (the (h2 y)) = flags (the (h y))" if "y \<in> set xs" for y
  proof -
    have "h y \<noteq> None" "y \<noteq> res" using kidsD(6) [OF assms(3) that] assms(4) by auto
    then show "st h2 y = st h y" "en h2 y = en h y" "flags (the (h2 y)) = flags (the (h y))"
      using attach_range [of root res "place_after (Child root) pre" tmp "h(res \<mapsto> n)" y]
      by (auto simp: at(4))
  qed
  have xs: "xs = ahead h (start n) xs @ c # post" using assms(6) by (metis takeWhile_dropWhile_id)
  have "\<not> holds h2 (start n) (endr n) y" if "y \<in> set (ahead h (start n) xs)" for y
    using ahead_before [OF that] IH(3) same(2) [of y] that
    by (auto simp: not_le dest: set_takeWhileD intro: order.strict_trans2)
  then have "release_region_loop (start n) (endr n) (Child par) h2 = Some (True, h)"
    using release_region_loop_eq [of h2 "Child par" v "ahead h (start n) xs" c post None] v xs IH(4,5) same [OF assms(7)] assms(8)
    by simp
  then show ?thesis using Some IH(1-3) assms(9) at root_par by (auto simp: region_ok_def h2_def)
qed

lemma request_new:
  assumes "kids h par xs" "h res = None"
  shows "request_resource0 par res (h(res \<mapsto> n)) =
    (if free_range h par xs (start n) (endr n)
     then Some (None, attach par res (place_after (Child par) (ahead h (start n) xs))
                        (first (behind h (start n) xs)) (h(res \<mapsto> n)))
     else Some (Some (if start n \<le> endr n \<and> holds h (start n) (endr n) par
                      then hd (behind h (start n) xs) else par), h(res \<mapsto> n)))"
proof -
  define h1 where "h1 = h(res \<mapsto> n)"
  note new = kids_new(1) [OF assms, of n] kids_new(2,3) [OF assms]
  have h1: "h1 res = Some n" "kids h1 par xs" using new(1) by (simp_all add: h1_def)
  have eq: "ahead h1 (start n) xs = ahead h (start n) xs" "behind h1 (start n) xs = behind h (start n) xs"
    using new(2) by (auto simp: h1_def intro!: takeWhile_cong dropWhile_cong)
  have eq2: "free_range h1 par xs (start n) (endr n) = free_range h par xs (start n) (endr n)"
    "st h1 par = st h par" "en h1 par = en h par"
    using new(2,3) by (auto simp: free_range_def h1_def overlaps_def)
  show ?thesis using request_outcome [OF h1(2,1), unfolded eq eq2] unfolding h1_def .
qed

lemma region_refused:
  assumes "request_resource0 par res (h(res \<mapsto> n)) = Some (Some c, h(res \<mapsto> n))" "h c \<noteq> None" "h res = None"
    "c = par \<or> busy h c"
  shows "region_loop par res (h(res \<mapsto> n)) = Some (None, h)"
proof -
  obtain a where "h c = Some a" using assms(2) by auto
  moreover have "c \<noteq> res" using assms(2,3) by auto
  moreover have "(h(res \<mapsto> n))(res := None) = h" using assms(3) by (simp add: fun_upd_idem)
  ultimately show ?thesis using assms(1,4) by (subst region_loop.simps) auto
qed

lemma first_clash:
  assumes "kids h par xs" "start n \<le> endr n" "holds h (start n) (endr n) par"
    "\<not> free_range h par xs (start n) (endr n)"
  obtains c post where "behind h (start n) xs = c # post" "c \<in> set xs" "h c \<noteq> None"
proof -
  have ok: "\<And>x. x \<in> set xs \<Longrightarrow> st h x \<le> en h x" using kidsD(5) [OF assms(1)] by (simp add: fits_def)
  obtain c post where c: "behind h (start n) xs = c # post"
    using overlap_first [OF kidsD(3) [OF assms(1)] ok, of "start n" "endr n"] assms(2-4)
    by (cases "behind h (start n) xs") (auto simp: free_range_def)
  then have "c \<in> set xs" by (metis list.set_intros(1) set_dropWhileD)
  with c show ?thesis using that kidsD(6) [OF assms(1)] by blast
qed

lemma region_loop_ok:
  assumes "tree_ok h" "wf (parent_rel h)" "h par \<noteq> None" "h res = None" "parent n = None" "child n = None"
    "flags n = IORESOURCE_BUSY"
  shows "\<exists>out. region_loop par res (h(res \<mapsto> n)) = Some out \<and> region_ok h par res n out"
  using assms(2,3)
proof (induction par rule: wf_induct_rule)
  case (less par)
  obtain xs where xs: "kids h par xs" using tree_okD(1) [OF assms(1) less.prems] by blast
  note out = request_new [OF xs assms(4), of n]
  consider (free) "free_range h par xs (start n) (endr n)"
    | (outside) "\<not> (start n \<le> endr n \<and> holds h (start n) (endr n) par)"
    | (clash) "start n \<le> endr n" "holds h (start n) (endr n) par" "\<not> free_range h par xs (start n) (endr n)"
    by blast
  then show ?case
  proof cases
    case free
    then have "region_loop par res (h(res \<mapsto> n)) = Some (Some res, attach par res
        (place_after (Child par) (ahead h (start n) xs)) (first (behind h (start n) xs)) (h(res \<mapsto> n)))"
      using out by (subst region_loop.simps) simp
    then show ?thesis using region_here [OF assms(1) xs assms(4-7) free] by blast
  next
    case outside
    then have "request_resource0 par res (h(res \<mapsto> n)) = Some (Some par, h(res \<mapsto> n))"
      using out by (auto simp: free_range_def)
    then show ?thesis using region_refused less.prems assms(4) region_ok_None by blast
  next
    case clash
    obtain c post where c: "behind h (start n) xs = c # post" "c \<in> set xs" "h c \<noteq> None"
      using first_clash [OF xs clash] .
    have req: "request_resource0 par res (h(res \<mapsto> n)) = Some (Some c, h(res \<mapsto> n))"
      using out clash c(1) by simp
    have edge: "(c, par) \<in> parent_rel h" using kidsD(4,6) [OF xs c(2)] by (auto simp: parent_rel_def)
    show ?thesis
    proof (cases "c = par \<or> busy h c")
      case True
      then show ?thesis using region_refused [OF req c(3) assms(4)] region_ok_None by blast
    next
      case False
      then have "region_loop par res (h(res \<mapsto> n)) = region_loop c res (h(res \<mapsto> n))"
        using req c(3) assms(4) by (subst region_loop.simps) auto
      then show ?thesis
        using less.IH [OF edge c(3)] region_below [OF assms(1,2) xs assms(4,5) c(1,2) _ clash(2)] False
        by metis
    qed
  qed
qed

lemma region_exclusive:
  assumes "tree_ok h" "kids h par xs" "h res = None" "x \<in> set xs" "busy h x" "overlaps h (start n) (endr n) x"
  shows "region_loop par res (h(res \<mapsto> n)) = Some (None, h)"
proof -
  note out = request_new [OF assms(2,3), of n]
  have nf: "\<not> free_range h par xs (start n) (endr n)" using assms(4,6) by (auto simp: free_range_def)
  have par: "h par \<noteq> None" using kidsD(1) [OF assms(2)] by auto
  show ?thesis
  proof (cases "start n \<le> endr n \<and> holds h (start n) (endr n) par")
    case False
    then have "request_resource0 par res (h(res \<mapsto> n)) = Some (Some par, h(res \<mapsto> n))" using out nf by auto
    then show ?thesis using region_refused par assms(3) by blast
  next
    case True
    obtain c post where c: "behind h (start n) xs = c # post" "c \<in> set xs" "h c \<noteq> None"
      using first_clash [OF assms(2) _ _ nf] True by blast
    have req: "request_resource0 par res (h(res \<mapsto> n)) = Some (Some c, h(res \<mapsto> n))"
      using out True nf c(1) by simp
    show ?thesis
    proof (cases "c = par \<or> busy h c")
      case True
      then show ?thesis using region_refused [OF req c(3) assms(3)] by blast
    next
      case False
      then have down: "region_loop par res (h(res \<mapsto> n)) = region_loop c res (h(res \<mapsto> n))"
        using req c(3) assms(3) by (subst region_loop.simps) auto
      have xs: "xs = ahead h (start n) xs @ c # post" using c(1) by (metis takeWhile_dropWhile_id)
      have "x \<notin> set (ahead h (start n) xs)" using ahead_before assms(6) by (auto simp: overlaps_def)
      moreover have "x \<noteq> c" using False assms(5) by auto
      ultimately have "x \<in> set post" using assms(4) xs by (metis Un_iff set_ConsD set_append)
      moreover have "sorted_wrt (before h) (c # post)"
        using kidsD(3) [OF assms(2)] xs by (metis sorted_wrt_append)
      ultimately have "en h c < endr n"
        using assms(6) by (auto simp: overlaps_def not_less intro: order.strict_trans2)
      obtain ys where ys: "kids h c ys" using tree_okD(1) [OF assms(1) c(3)] by blast
      have "request_resource0 c res (h(res \<mapsto> n)) = Some (Some c, h(res \<mapsto> n))"
        using request_new [OF ys assms(3), of n] \<open>en h c < endr n\<close> by (auto simp: free_range_def)
      then show ?thesis using region_refused [OF _ c(3) assms(3)] down by simp
    qed
  qed
qed

text \<open>C12. Regions are exclusive and can be given back. In a well-formed tree without cycles,
  \<open>__request_region\<close> returns; when it fails the tree is as it was, and when it succeeds the tree
  is well formed with the new busy region in it, the range overlaps no busy child of \<open>par\<close>, and
  \<open>__release_region\<close> of the same range finds that region and restores the tree.\<close>

theorem region_round_trip:
  assumes "tree_ok h" "wf (parent_rel h)" "kids h par xs" "h res = None"
  shows "\<exists>out h2. request_region (Some res) par s len h = Some (out, h2) \<and>
    (if out = None then h2 = h
     else out = Some res \<and> tree_ok h2 \<and> release_region par s len h2 = Some (True, h) \<and>
       (\<forall>x \<in> set xs. busy h x \<longrightarrow> \<not> overlaps h s (s + len - 1) x))"
proof -
  define n where "n = \<lparr>start = s, endr = s + len - 1, flags = IORESOURCE_BUSY, parent = None,
    sibling = None, child = None\<rparr>"
  have par: "h par \<noteq> None" using kidsD(1) [OF assms(3)] by auto
  obtain out h2 where out: "region_loop par res (h(res \<mapsto> n)) = Some (out, h2)"
      "region_ok h par res n (out, h2)"
    using region_loop_ok [OF assms(1,2) par assms(4), of n] by (auto simp: n_def)
  have req: "request_region (Some res) par s len h = Some (out, h2)"
    using out(1) by (simp add: request_region_def n_def)
  have "\<not> overlaps h s (s + len - 1) x" if "x \<in> set xs" "busy h x" "out \<noteq> None" for x
    using region_exclusive [OF assms(1,3,4) that(1,2), of n] out(1) that(3) by (auto simp: n_def)
  then show ?thesis
    using req out(2) by (cases out) (auto simp: region_ok_def release_region_def n_def)
qed

section \<open>A small tree\<close>

text \<open>The range 0 to 99 with one busy child, 10 to 19, and a resource 30 to 39 in no tree.\<close>

definition demo_store :: store where
  "demo_store = [0 \<mapsto> \<lparr>start = 0, endr = 99, flags = 0, parent = None, sibling = None, child = Some 1\<rparr>,
     1 \<mapsto> \<lparr>start = 10, endr = 19, flags = IORESOURCE_BUSY, parent = Some 0, sibling = None, child = None\<rparr>,
     5 \<mapsto> \<lparr>start = 30, endr = 39, flags = 0, parent = None, sibling = None, child = None\<rparr>]"

lemma demo_lookup:
  "demo_store 0 = Some \<lparr>start = 0, endr = 99, flags = 0, parent = None, sibling = None, child = Some 1\<rparr>"
  "demo_store (Suc 0) =
     Some \<lparr>start = 10, endr = 19, flags = IORESOURCE_BUSY, parent = Some 0, sibling = None, child = None\<rparr>"
  "demo_store 5 = Some \<lparr>start = 30, endr = 39, flags = 0, parent = None, sibling = None, child = None\<rparr>"
  "demo_store 7 = None"
  by (simp_all add: demo_store_def)

lemma demo_kids: "kids demo_store 0 [1]" "kids demo_store 1 []" "kids demo_store 5 []"
  by (simp_all add: kids_def fits_def demo_lookup)

lemma demo_tree: "tree_ok demo_store"
proof -
  have "r = 0 \<or> r = 1 \<or> r = 5" if "r \<in> dom demo_store" for r
    using that by (auto simp: demo_store_def split: if_splits)
  then have "\<exists>xs. kids demo_store r xs" if "r \<in> dom demo_store" for r
    using that demo_kids by metis
  moreover have "r = 0 \<and> x = 1" if "demo_store x = Some a" "parent a = Some r" for x a r
    using that by (auto simp: demo_store_def split: if_splits)
  ultimately show ?thesis using demo_kids(1) unfolding tree_ok_def by (metis list.set_intros(1))
qed

lemma demo_wf: "wf (parent_rel demo_store)"
proof (rule wf_subset)
  show "wf (measure (\<lambda>x. 5 - x :: nat))" by simp
  show "parent_rel demo_store \<subseteq> measure (\<lambda>x. 5 - x)"
    by (auto simp: parent_rel_def demo_store_def split: if_splits)
qed

theorem request_resource_exact_witness:
  "\<exists>h'. request_resource 0 5 demo_store = Some (0, h') \<and> tree_ok h' \<and> kids h' 0 [1, 5]"
  using request_resource_exact [OF demo_tree demo_kids(1) demo_lookup(3)]
  by (simp add: free_range_def overlaps_def demo_lookup)

theorem release_resource_removes_witness:
  "\<exists>h'. release_resource 1 demo_store = Some (0, h') \<and> tree_ok h' \<and> kids h' 0 []"
  using release_resource_removes [OF demo_tree demo_kids(1), of 1] by simp

theorem check_resource_exact_witness:
  "check_resource 7 (the (demo_store 1)) 0 15 3 demo_store = Some (- EBUSY, demo_store)"
  using check_resource_exact [OF demo_kids(1) demo_lookup(4), of "the (demo_store 1)" 15 3]
  by (simp add: free_range_def overlaps_def demo_lookup)



text \<open>\<open>find_resource\<close> takes the first byte of the next child as the end of a gap, so it can settle on a
  gap that is one byte too small; the request then fails although a later gap would do.\<close>

lemma allocate_gap_off_by_one:
  "map_option fst (allocate_resource 0 5 11 0 99 1 None demo_store) = Some (- EBUSY) \<and>
   free_range demo_store 0 [1] 20 30"
proof
  show "map_option fst (allocate_resource 0 5 11 0 99 1 None demo_store) = Some (- EBUSY)" by code_simp
  show "free_range demo_store 0 [1] 20 30" by (simp add: free_range_def overlaps_def demo_lookup)
qed

lemma demo_region: "map_option fst (request_region (Some 7) 0 40 8 demo_store) = Some (Some 7)"
  by code_simp

theorem region_round_trip_witness:
  "\<exists>h2. request_region (Some 7) 0 40 8 demo_store = Some (Some 7, h2) \<and> tree_ok h2 \<and>
    release_region 0 40 8 h2 = Some (True, demo_store)"
proof -
  obtain out h2 where "request_region (Some 7) 0 40 8 demo_store = Some (out, h2)"
    "if out = None then h2 = demo_store
     else out = Some 7 \<and> tree_ok h2 \<and> release_region 0 40 8 h2 = Some (True, demo_store) \<and>
       (\<forall>x \<in> set [1]. busy demo_store x \<longrightarrow> \<not> overlaps demo_store 40 (40 + 8 - 1) x)"
    using region_round_trip [OF demo_tree demo_wf demo_kids(1) demo_lookup(4), of 40 8] by blast
  then show ?thesis using demo_region by (cases out) auto
qed

end
