(* ===== verification/Skb.thy ===== *)
theory Skb
  imports Prelude "HOL-Library.Monad_Syntax"
begin

text \<open>
  Socket buffers (include/linux/skbuff.h) as far as reading packets goes, and \<open>skb_copy_bits\<close> of
  net/core/skbuff.c. The memory that \<open>alloc_skb\<close> allocates at \<open>head\<close> is a list of bytes, and the
  pointers into it are offsets from \<open>head\<close>. The packet goes on in page fragments and in a list of
  further buffers. A read outside an allocation gives \<open>None\<close>. Lengths are below two to the 31, so the
  signed arithmetic of the source does not overflow and is that of \<open>int\<close>.
\<close>

section \<open>Buffers\<close>

record skb_frag =
  page :: "u8 list"
  page_offset :: nat
  frag_size :: nat

record skb_head =
  mem :: "u8 list"
  data_ptr :: int
  tail_ptr :: int
  nh_raw :: int
  mac_raw :: int
  skb_len :: int
  data_len :: int
  protocol :: u16
  pkt_type :: u8
  dev_ifindex :: "u32 option"
  frags :: "skb_frag list"

datatype sk_buff = SkBuff (skb_hd: skb_head) (frag_list: "sk_buff list")

text \<open>\<open>n\<close> bytes of an allocation from offset \<open>p\<close> on.\<close>

definition read_mem :: "u8 list \<Rightarrow> int \<Rightarrow> int \<Rightarrow> u8 list option" where
  "read_mem m p n = (if 0 \<le> p \<and> 0 \<le> n \<and> p + n \<le> int (length m)
     then Some (take (nat n) (drop (nat p) m)) else None)"

section \<open>Copying from a buffer\<close>

text \<open>
  The copy is in progress with \<open>len\<close> bytes to go, at \<open>offset\<close>, and \<open>dst\<close> copied so far; or it is done.
\<close>

datatype copying = Done "u8 list" | Going int int int "u8 list"

fun copy_frags :: "skb_frag list \<Rightarrow> int \<Rightarrow> int \<Rightarrow> int \<Rightarrow> u8 list \<Rightarrow> copying option" where
  "copy_frags [] start offset len dst = Some (Going start offset len dst)"
| "copy_frags (f # fs) start offset len dst =
     (let end1 = start + int (frag_size f); copy = end1 - offset in
      if copy > 0
      then let copy = (if copy > len then len else copy) in do {
        bs \<leftarrow> read_mem (page f) (int (page_offset f) + offset - start) copy;
        let len = len - copy;
        if len = 0 then Some (Done (dst @ bs))
        else copy_frags fs end1 (offset + copy) len (dst @ bs) }
      else copy_frags fs end1 offset len dst)"

text \<open>The outer option is a bad read; the inner one is \<open>None\<close> for the result \<open>-EFAULT\<close>.\<close>

fun skb_copy_bits :: "sk_buff \<Rightarrow> int \<Rightarrow> int \<Rightarrow> u8 list option option"
and copy_list :: "sk_buff list \<Rightarrow> int \<Rightarrow> int \<Rightarrow> int \<Rightarrow> u8 list \<Rightarrow> u8 list option option" where
  "skb_copy_bits (SkBuff skb lst) offset len =
     (let start = skb_len skb - data_len skb in
      if offset > skb_len skb - len then Some None
      else do {
        st \<leftarrow> (let copy = start - offset in
          if copy > 0
          then let copy = (if copy > len then len else copy) in do {
            bs \<leftarrow> read_mem (mem skb) (data_ptr skb + offset) copy;
            Some (if len - copy = 0 then Done bs else Going start (offset + copy) (len - copy) bs) }
          else Some (Going start offset len []));
        st \<leftarrow> (case st of Done bs \<Rightarrow> Some (Done bs)
               | Going start offset len dst \<Rightarrow> copy_frags (frags skb) start offset len dst);
        case st of Done bs \<Rightarrow> Some (Some bs)
        | Going start offset len dst \<Rightarrow> copy_list lst start offset len dst })"
| "copy_list [] start offset len dst = (if len = 0 then Some (Some dst) else Some None)"
| "copy_list (b # bs) start offset len dst =
     (let end1 = start + skb_len (skb_hd b); copy = end1 - offset in
      if copy > 0
      then let copy = (if copy > len then len else copy) in do {
        res \<leftarrow> skb_copy_bits b (offset - start) copy;
        case res of
          None \<Rightarrow> Some None
        | Some cs \<Rightarrow>
            let len = len - copy in
            if len = 0 then Some (Some (dst @ cs))
            else copy_list bs end1 (offset + copy) len (dst @ cs) }
      else copy_list bs end1 offset len dst)"

section \<open>The bytes of a packet\<close>

definition frag_bytes :: "skb_frag \<Rightarrow> u8 list" where
  "frag_bytes f = take (frag_size f) (drop (page_offset f) (page f))"

definition head_bytes :: "skb_head \<Rightarrow> u8 list" where
  "head_bytes h = take (nat (skb_len h - data_len h)) (drop (nat (data_ptr h)) (mem h))"

fun skb_bytes :: "sk_buff \<Rightarrow> u8 list" where
  "skb_bytes (SkBuff h l) =
     head_bytes h @ concat (map frag_bytes (frags h)) @ concat (map skb_bytes l)"

text \<open>
  A buffer as the networking code keeps it: the pointers are in order, the lengths add up, and
  the shared information behind the data makes the allocation at least four bytes longer than the data.
\<close>

definition head_ok :: "skb_head \<Rightarrow> bool" where
  "head_ok h \<longleftrightarrow> 0 \<le> data_ptr h \<and> data_ptr h + (skb_len h - data_len h) \<le> tail_ptr h \<and>
     tail_ptr h + 4 \<le> int (length (mem h)) \<and> data_len h \<le> skb_len h \<and>
     (\<forall>f \<in> set (frags h). page_offset f + frag_size f \<le> length (page f))"

fun skb_ok :: "sk_buff \<Rightarrow> bool" where
  "skb_ok (SkBuff h l) \<longleftrightarrow> head_ok h \<and> (\<forall>b \<in> set l. skb_ok b) \<and>
     data_len h = (\<Sum>f \<leftarrow> frags h. int (frag_size f)) + (\<Sum>b \<leftarrow> l. skb_len (skb_hd b))"

lemma length_frag_bytes: "page_offset f + frag_size f \<le> length (page f) \<Longrightarrow> length (frag_bytes f) = frag_size f"
  by (simp add: frag_bytes_def)

lemma length_head_bytes: "head_ok h \<Longrightarrow> int (length (head_bytes h)) = skb_len h - data_len h"
  by (auto simp: head_bytes_def head_ok_def min_def)

lemma length_frags_bytes:
  "(\<forall>f \<in> set fs. page_offset f + frag_size f \<le> length (page f)) \<Longrightarrow>
   int (length (concat (map frag_bytes fs))) = (\<Sum>f \<leftarrow> fs. int (frag_size f))"
  by (induction fs) (auto simp: length_frag_bytes)

lemma length_skb_bytes: "skb_ok b \<Longrightarrow> int (length (skb_bytes b)) = skb_len (skb_hd b)"
proof (induction b rule: skb_bytes.induct)
  case (1 h l)
  have "\<forall>b \<in> set l. int (length (skb_bytes b)) = skb_len (skb_hd b)" using 1 by auto
  then have "int (length (concat (map skb_bytes l))) = (\<Sum>b \<leftarrow> l. skb_len (skb_hd b))"
    by (induction l) auto
  then show ?case using 1 length_head_bytes [of h] length_frags_bytes [of "frags h"]
    by (simp add: head_ok_def)
qed

lemma skb_len_nonneg: "skb_ok b \<Longrightarrow> 0 \<le> skb_len (skb_hd b)"
  using length_skb_bytes [of b] by linarith

section \<open>Copying is reading the bytes of the packet\<close>

abbreviation slice :: "int \<Rightarrow> int \<Rightarrow> u8 list \<Rightarrow> u8 list" where
  "slice off n xs \<equiv> take (nat n) (drop (nat off) xs)"

lemma read_mem_frag:
  assumes "page_offset f + frag_size f \<le> length (page f)" "0 \<le> d" "0 \<le> n" "d + n \<le> int (frag_size f)"
  shows "read_mem (page f) (int (page_offset f) + d) n = Some (slice d n (frag_bytes f))"
proof -
  have "nat (int (page_offset f) + d) = page_offset f + nat d" using assms(2) by simp
  moreover have "nat d + nat n \<le> frag_size f" using assms(2-4) by linarith
  ultimately show ?thesis using assms
    by (simp add: read_mem_def frag_bytes_def drop_take min_def add.commute)
qed

lemma slice_append_left: "0 \<le> off \<Longrightarrow> 0 \<le> n \<Longrightarrow> off + n \<le> int (length xs) \<Longrightarrow> slice off n (xs @ ys) = slice off n xs"
  by simp

lemma slice_append_right:
  "int (length xs) \<le> off \<Longrightarrow> slice off n (xs @ ys) = slice (off - int (length xs)) n ys"
  by (simp add: nat_diff_distrib')

lemma slice_append_split:
  assumes "0 \<le> off" "off \<le> int (length xs)" "int (length xs) \<le> off + n"
  shows "slice off n (xs @ ys) = drop (nat off) xs @ take (nat (n - (int (length xs) - off))) ys"
proof -
  have "nat n - (length xs - nat off) = nat (n - (int (length xs) - off))" using assms by linarith
  then show ?thesis using assms by simp
qed

lemma copy_frags_ok:
  assumes "\<forall>f \<in> set fs. page_offset f + frag_size f \<le> length (page f)" "start \<le> offset" "0 < len"
    "bs = concat (map frag_bytes fs)"
  shows "copy_frags fs start offset len dst =
    (if offset - start + len \<le> int (length bs) then Some (Done (dst @ slice (offset - start) len bs))
     else Some (Going (start + int (length bs)) (max offset (start + int (length bs)))
       (len - int (length (drop (nat (offset - start)) bs))) (dst @ drop (nat (offset - start)) bs)))"
  using assms
proof (induction fs arbitrary: start offset len dst bs)
  case Nil
  then show ?case by simp
next
  case (Cons f fs)
  define bs' where "bs' = concat (map frag_bytes fs)"
  have bs: "bs = frag_bytes f @ bs'" using Cons.prems(4) by (simp add: bs'_def)
  have f: "page_offset f + frag_size f \<le> length (page f)" "length (frag_bytes f) = frag_size f"
    using Cons.prems(1) length_frag_bytes by auto
  define copy where "copy = start + int (frag_size f) - offset"
  note IH = Cons.IH [OF _ _ _ bs'_def]
  consider (skip) "copy \<le> 0" | (all) "0 < copy" "len \<le> copy" | (part) "0 < copy" "copy < len" by linarith
  then show ?case
  proof cases
    case skip
    then have "copy_frags (f # fs) start offset len dst = copy_frags fs (start + int (frag_size f)) offset len dst"
      by (simp add: copy_def Let_def)
    moreover have "nat (offset - start) - frag_size f = nat (offset - (start + int (frag_size f)))" by linarith
    then have "drop (nat (offset - start)) (frag_bytes f @ bs') = drop (nat (offset - (start + int (frag_size f)))) bs'"
      using skip f(2) by (simp add: copy_def)
    ultimately show ?thesis
      using IH [of "start + int (frag_size f)" offset len dst] Cons.prems skip f(2)
      by (simp add: copy_def algebra_simps bs)
  next
    case all
    have "read_mem (page f) (int (page_offset f) + (offset - start)) len = Some (slice (offset - start) len (frag_bytes f))"
      using f(1) all Cons.prems by (intro read_mem_frag) (auto simp: copy_def)
    moreover have "copy_frags (f # fs) start offset len dst =
        do {bs \<leftarrow> read_mem (page f) (int (page_offset f) + (offset - start)) len; Some (Done (dst @ bs))}"
    proof -
      have "(if copy > len then len else copy) = len" using all by auto
      then show ?thesis using all(1) unfolding copy_def by (simp only: copy_frags.simps Let_def) (simp add: add_diff_eq)
    qed
    ultimately show ?thesis using all Cons.prems f(2) by (simp add: copy_def algebra_simps bs)
  next
    case part
    have "read_mem (page f) (int (page_offset f) + (offset - start)) copy = Some (slice (offset - start) copy (frag_bytes f))"
      using f(1) part Cons.prems by (intro read_mem_frag) (auto simp: copy_def)
    moreover have "slice (offset - start) copy (frag_bytes f) = drop (nat (offset - start)) (frag_bytes f)"
      using part Cons.prems(2) f(2) by (simp add: copy_def)
    ultimately have "copy_frags (f # fs) start offset len dst =
        copy_frags fs (start + int (frag_size f)) (offset + copy) (len - copy) (dst @ drop (nat (offset - start)) (frag_bytes f))"
      using part by (simp add: copy_def Let_def algebra_simps)
    also have "offset + copy = start + int (frag_size f)" by (simp add: copy_def)
    finally show ?thesis
      using IH [of "start + int (frag_size f)" "start + int (frag_size f)" "len - copy"] Cons.prems part f(2)
        slice_append_split [of "offset - start" "frag_bytes f" len bs']
      by (simp add: copy_def algebra_simps bs)
  qed
qed

definition copies :: "sk_buff \<Rightarrow> bool" where
  "copies b \<longleftrightarrow> (\<forall>offset len. 0 \<le> offset \<longrightarrow> 0 < len \<longrightarrow> skb_copy_bits b offset len =
     Some (if offset + len \<le> skb_len (skb_hd b) then Some (slice offset len (skb_bytes b)) else None))"

lemma copy_list_ok:
  assumes "\<forall>b \<in> set l. skb_ok b \<and> copies b" "start \<le> offset" "0 < len" "bs = concat (map skb_bytes l)"
  shows "copy_list l start offset len dst =
     Some (if offset - start + len \<le> int (length bs) then Some (dst @ slice (offset - start) len bs) else None)"
  using assms
proof (induction l arbitrary: start offset len dst bs)
  case Nil
  then show ?case by simp
next
  case (Cons b l)
  define copy where "copy = start + skb_len (skb_hd b) - offset"
  define bs' where "bs' = concat (map skb_bytes l)"
  have bs: "bs = skb_bytes b @ bs'" using Cons.prems(4) by (simp add: bs'_def)
  have b: "skb_ok b" "copies b" "skb_len (skb_hd b) = int (length (skb_bytes b))"
    using Cons.prems(1) length_skb_bytes by auto
  have "\<forall>b \<in> set l. skb_ok b \<and> copies b" using Cons.prems(1) by simp
  note IH = Cons.IH [OF this _ _ bs'_def]
  have copy_b: "skb_copy_bits b (offset - start) n = Some (if offset - start + n \<le> skb_len (skb_hd b)
      then Some (slice (offset - start) n (skb_bytes b)) else None)" if "0 < n" for n
    using b(2) Cons.prems(2) that by (simp add: copies_def)
  consider (skip) "copy \<le> 0" | (all) "0 < copy" "len \<le> copy" | (part) "0 < copy" "copy < len" by linarith
  then show ?case
  proof cases
    case skip
    then have "copy_list (b # l) start offset len dst = copy_list l (start + skb_len (skb_hd b)) offset len dst"
      by (simp add: copy_def Let_def)
    then show ?thesis
      using IH [of "start + skb_len (skb_hd b)" offset len dst] Cons.prems(2,3) skip b(3)
        slice_append_right [of "skb_bytes b" "offset - start" len bs']
      by (simp add: copy_def algebra_simps bs)
  next
    case all
    have "(if copy > len then len else copy) = len" using all by auto
    then have "copy_list (b # l) start offset len dst =
        do {res \<leftarrow> skb_copy_bits b (offset - start) len;
            case res of None \<Rightarrow> Some None | Some cs \<Rightarrow> Some (Some (dst @ cs))}"
      using all(1) unfolding copy_def by (simp only: copy_list.simps Let_def) simp
    then show ?thesis using all Cons.prems(2,3) b(3) copy_b [of len] by (simp add: copy_def algebra_simps bs)
  next
    case part
    have "skb_copy_bits b (offset - start) copy = Some (Some (drop (nat (offset - start)) (skb_bytes b)))"
      using part Cons.prems(2) b(3) copy_b [of copy] by (simp add: copy_def)
    then have "copy_list (b # l) start offset len dst =
        copy_list l (start + skb_len (skb_hd b)) (offset + copy) (len - copy) (dst @ drop (nat (offset - start)) (skb_bytes b))"
      using part by (simp add: copy_def Let_def)
    also have "offset + copy = start + skb_len (skb_hd b)" by (simp add: copy_def)
    finally show ?thesis
      using IH [of "start + skb_len (skb_hd b)" "start + skb_len (skb_hd b)" "len - copy"] Cons.prems(2,3) part b(3)
        slice_append_split [of "offset - start" "skb_bytes b" len bs']
      by (simp add: copy_def algebra_simps bs)
  qed
qed

lemma read_mem_head:
  assumes "head_ok h" "0 \<le> offset" "0 \<le> n" "offset + n \<le> skb_len h - data_len h"
  shows "read_mem (mem h) (data_ptr h + offset) n = Some (slice offset n (head_bytes h))"
proof -
  have "nat (data_ptr h + offset) = nat (data_ptr h) + nat offset" using assms(1,2) by (simp add: head_ok_def nat_add_distrib)
  moreover have "nat n \<le> nat (skb_len h - data_len h) - nat offset" using assms(2-4) by linarith
  ultimately show ?thesis using assms
    by (simp add: read_mem_def head_bytes_def head_ok_def drop_take min_def add.commute)
qed

lemma copy_tail_ok:
  assumes "\<forall>f \<in> set fs. page_offset f + frag_size f \<le> length (page f)" "\<forall>b \<in> set l. skb_ok b \<and> copies b"
    "start \<le> offset" "0 < len"
  defines "fb \<equiv> concat (map frag_bytes fs)" and "lb \<equiv> concat (map skb_bytes l)"
  shows "do { st \<leftarrow> copy_frags fs start offset len dst;
      case st of Done bs \<Rightarrow> Some (Some bs) | Going start offset len dst \<Rightarrow> copy_list l start offset len dst } =
    Some (if offset - start + len \<le> int (length (fb @ lb))
          then Some (dst @ slice (offset - start) len (fb @ lb)) else None)"
proof -
  note frags = copy_frags_ok [OF assms(1,3,4), folded fb_def, OF refl, of dst]
  have lb: "lb = concat (map skb_bytes l)" by (simp add: lb_def)
  consider (all) "offset - start + len \<le> int (length fb)"
    | (part) "offset - start \<le> int (length fb)" "int (length fb) < offset - start + len"
    | (skip) "int (length fb) < offset - start" by linarith
  then show ?thesis
  proof cases
    case all
    then show ?thesis using frags assms(3,4) slice_append_left [of "offset - start" len fb lb] by simp
  next
    case part
    have mx: "max offset (start + int (length fb)) = start + int (length fb)" using part(1) by simp
    have rest: "len - int (length (drop (nat (offset - start)) fb)) = len - (int (length fb) - (offset - start))"
      using part(1) assms(3) by simp
    show ?thesis
      using frags part assms(3) slice_append_split [of "offset - start" fb len lb]
      by (simp add: mx rest copy_list_ok [OF assms(2) _ _ lb] algebra_simps)
  next
    case skip
    then have "max offset (start + int (length fb)) = offset" "drop (nat (offset - start)) fb = []" by simp_all
    then show ?thesis using frags skip assms(4) copy_list_ok [OF assms(2) _ assms(4) lb, of "start + int (length fb)" offset]
        slice_append_right [of fb "offset - start" len lb]
      by (simp add: algebra_simps)
  qed
qed

lemma copies_all: "skb_ok b \<Longrightarrow> copies b"
proof (induction b)
  case (SkBuff h l)
  have h: "head_ok h" "\<forall>f \<in> set (frags h). page_offset f + frag_size f \<le> length (page f)"
    using SkBuff.prems by (auto simp: head_ok_def)
  have l: "\<forall>b \<in> set l. skb_ok b \<and> copies b" using SkBuff by auto
  define start where "start = skb_len h - data_len h"
  define bs where "bs = concat (map frag_bytes (frags h)) @ concat (map skb_bytes l)"
  have hb: "int (length (head_bytes h)) = start" using length_head_bytes [OF h(1)] by (simp add: start_def)
  have len: "skb_len h = start + int (length bs)" using length_skb_bytes [OF SkBuff.prems] hb by (simp add: bs_def)
  have "skb_copy_bits (SkBuff h l) offset len = Some (if offset + len \<le> skb_len h
      then Some (slice offset len (head_bytes h @ bs)) else None)" if "0 \<le> offset" "0 < len" for offset len
  proof (cases "offset + len \<le> skb_len h")
    case False
    then show ?thesis by (simp add: Let_def)
  next
    case True
    note tail = copy_tail_ok [OF h(2) l, folded bs_def]
    consider (all) "offset + len \<le> start" | (part) "offset < start" "start < offset + len" | (skip) "start \<le> offset"
      by linarith
    then show ?thesis
    proof cases
      case all
      have "(if start - offset > len then len else start - offset) = len" using all by auto
      then show ?thesis
        using all True that read_mem_head [OF h(1) that(1), of len] hb slice_append_left [of offset len "head_bytes h" bs]
        by (simp only: skb_copy_bits.simps Let_def start_def [symmetric]) (simp add: start_def)
    next
      case part
      have "slice offset (start - offset) (head_bytes h) = drop (nat offset) (head_bytes h)"
        using hb by simp
      then have rd: "read_mem (mem h) (data_ptr h + offset) (start - offset) = Some (drop (nat offset) (head_bytes h))"
        using read_mem_head [OF h(1) that(1), of "start - offset"] part(1) by (simp add: start_def)
      have "(if start - offset > len then len else start - offset) = start - offset" "offset + (start - offset) = start"
        "\<not> skb_len h - len < offset" "len - (start - offset) \<noteq> 0" "start - offset > 0"
        using part True by auto
      then have "skb_copy_bits (SkBuff h l) offset len = do {
          st \<leftarrow> copy_frags (frags h) start start (len - (start - offset)) (drop (nat offset) (head_bytes h));
          case st of Done bs \<Rightarrow> Some (Some bs) | Going start offset len dst \<Rightarrow> copy_list l start offset len dst }"
        by (simp only: skb_copy_bits.simps Let_def start_def [symmetric] rd if_False if_True
            bind.bind_lunit copying.case)
      then show ?thesis
        using tail [of start start "len - (start - offset)" "drop (nat offset) (head_bytes h)"] part True that hb len
          slice_append_split [of offset "head_bytes h" len bs]
        by simp
    next
      case skip
      have "\<not> start - offset > 0" "\<not> skb_len h - len < offset" using skip True by auto
      then have "skb_copy_bits (SkBuff h l) offset len = do {
          st \<leftarrow> copy_frags (frags h) start offset len [];
          case st of Done bs \<Rightarrow> Some (Some bs) | Going start offset len dst \<Rightarrow> copy_list l start offset len dst }"
        by (simp only: skb_copy_bits.simps Let_def start_def [symmetric] if_False if_True
            bind.bind_lunit copying.case)
      then show ?thesis
        using True that skip tail [of start offset len "[]"] len slice_append_right [of "head_bytes h" offset len bs] hb
        by simp
    qed
  qed
  then show ?case by (simp add: copies_def bs_def)
qed

text \<open>C17. \<open>skb_copy_bits\<close> reads the packet as one string of bytes, wherever the bytes are: in the
  linear part, in page fragments, or in the buffers of the fragment list, however deep. It
  copies the \<open>len\<close> bytes at \<open>offset\<close> when the packet has them and fails otherwise, and never reads
  outside an allocation.\<close>

theorem skb_copy_bits_reads_packet:
  assumes "skb_ok b" "0 \<le> offset" "0 < len"
  shows "skb_copy_bits b offset len =
     Some (if offset + len \<le> skb_len (skb_hd b) then Some (slice offset len (skb_bytes b)) else None)"
  using copies_all [OF assms(1)] assms(2,3) by (simp add: copies_def)

end
