(* ===== verification/Bpf.thy ===== *)
theory Bpf
  imports Skb
begin

text \<open>
  Socket filters: the instructions of include/linux/filter.h, the checker \<open>sk_chk_filter\<close>, the
  interpreter \<open>sk_run_filter\<close> and \<open>sk_attach_filter\<close> of net/core/filter.c, and the accounting of
  include/net/sock.h. The interpreter works on the bytes of a socket buffer; a read outside an
  allocation, or outside the arrays \<open>filter\<close> and \<open>mem\<close>, is the outcome \<open>Oob\<close>. The contents of the
  uninitialised array \<open>mem\<close> are a parameter. The machine is the i386: multi-byte loads are
  little-endian, and a shift uses the low five bits of its count.
\<close>

section \<open>Instructions\<close>

record sock_filter =
  code :: u16
  jt :: u8
  jf :: u8
  k :: u32

definition BPF_CLASS :: "u16 \<Rightarrow> u16" where "BPF_CLASS c = c AND 0x07"
definition BPF_LD :: u16 where "BPF_LD = 0x00"
definition BPF_LDX :: u16 where "BPF_LDX = 0x01"
definition BPF_ST :: u16 where "BPF_ST = 0x02"
definition BPF_STX :: u16 where "BPF_STX = 0x03"
definition BPF_ALU :: u16 where "BPF_ALU = 0x04"
definition BPF_JMP :: u16 where "BPF_JMP = 0x05"
definition BPF_RET :: u16 where "BPF_RET = 0x06"
definition BPF_MISC :: u16 where "BPF_MISC = 0x07"
definition BPF_W :: u16 where "BPF_W = 0x00"
definition BPF_H :: u16 where "BPF_H = 0x08"
definition BPF_B :: u16 where "BPF_B = 0x10"
definition BPF_IMM :: u16 where "BPF_IMM = 0x00"
definition BPF_ABS :: u16 where "BPF_ABS = 0x20"
definition BPF_IND :: u16 where "BPF_IND = 0x40"
definition BPF_MEM :: u16 where "BPF_MEM = 0x60"
definition BPF_LEN :: u16 where "BPF_LEN = 0x80"
definition BPF_MSH :: u16 where "BPF_MSH = 0xa0"
definition BPF_OP :: "u16 \<Rightarrow> u16" where "BPF_OP c = c AND 0xf0"
definition BPF_ADD :: u16 where "BPF_ADD = 0x00"
definition BPF_SUB :: u16 where "BPF_SUB = 0x10"
definition BPF_MUL :: u16 where "BPF_MUL = 0x20"
definition BPF_DIV :: u16 where "BPF_DIV = 0x30"
definition BPF_OR :: u16 where "BPF_OR = 0x40"
definition BPF_AND :: u16 where "BPF_AND = 0x50"
definition BPF_LSH :: u16 where "BPF_LSH = 0x60"
definition BPF_RSH :: u16 where "BPF_RSH = 0x70"
definition BPF_NEG :: u16 where "BPF_NEG = 0x80"
definition BPF_JA :: u16 where "BPF_JA = 0x00"
definition BPF_JEQ :: u16 where "BPF_JEQ = 0x10"
definition BPF_JGT :: u16 where "BPF_JGT = 0x20"
definition BPF_JGE :: u16 where "BPF_JGE = 0x30"
definition BPF_JSET :: u16 where "BPF_JSET = 0x40"
definition BPF_K :: u16 where "BPF_K = 0x00"
definition BPF_X :: u16 where "BPF_X = 0x08"
definition BPF_A :: u16 where "BPF_A = 0x10"
definition BPF_TAX :: u16 where "BPF_TAX = 0x00"
definition BPF_TXA :: u16 where "BPF_TXA = 0x80"
definition BPF_MAXINSNS :: nat where "BPF_MAXINSNS = 4096"
definition BPF_MEMWORDS :: nat where "BPF_MEMWORDS = 16"
definition SKF_AD_OFF :: int where "SKF_AD_OFF = - 0x1000"
definition SKF_AD_PROTOCOL :: int where "SKF_AD_PROTOCOL = 0"
definition SKF_AD_PKTTYPE :: int where "SKF_AD_PKTTYPE = 4"
definition SKF_AD_IFINDEX :: int where "SKF_AD_IFINDEX = 8"
definition SKF_NET_OFF :: int where "SKF_NET_OFF = - 0x100000"
definition SKF_LL_OFF :: int where "SKF_LL_OFF = - 0x200000"

section \<open>Byte order\<close>

fun get16 :: "u8 list \<Rightarrow> u16" where
  "get16 [a, b] = ucast a OR push_bit 8 (ucast b)"
| "get16 _ = 0"

fun get32 :: "u8 list \<Rightarrow> u32" where
  "get32 [a, b, c, d] = ucast a OR push_bit 8 (ucast b) OR push_bit 16 (ucast c) OR push_bit 24 (ucast d)"
| "get32 _ = 0"

definition swab16 :: "u16 \<Rightarrow> u16" where
  "swab16 x = push_bit 8 (x AND 0x00ff) OR drop_bit 8 (x AND 0xff00)"

definition swab32 :: "u32 \<Rightarrow> u32" where
  "swab32 x = push_bit 24 (x AND 0x000000ff) OR push_bit 8 (x AND 0x0000ff00) OR
     drop_bit 8 (x AND 0x00ff0000) OR drop_bit 24 (x AND 0xff000000)"

section \<open>The interpreter\<close>

record bpf_regs =
  regA :: u32
  regX :: u32
  scratch :: "u32 list"

text \<open>What one instruction does: go on at \<open>pc\<close> plus an offset, return, or touch memory it must not.\<close>

datatype bpf_step = Cont bpf_regs u32 | Return u32 | Oob

definition load_pointer :: "skb_head \<Rightarrow> int \<Rightarrow> int option" where
  "load_pointer skb kk =
     (let ptr = (if kk \<ge> SKF_NET_OFF then Some (nh_raw skb + kk - SKF_NET_OFF)
                 else if kk \<ge> SKF_LL_OFF then Some (mac_raw skb + kk - SKF_LL_OFF)
                 else None)
      in case ptr of
           None \<Rightarrow> None
         | Some p \<Rightarrow> if p \<ge> 0 \<and> p < tail_ptr skb then Some p else None)"

text \<open>Ancillary data, after the first \<open>switch\<close>.\<close>

definition load_ancillary :: "skb_head \<Rightarrow> int \<Rightarrow> bpf_regs \<Rightarrow> bpf_step" where
  "load_ancillary skb kk r =
     (let anc = kk - SKF_AD_OFF in
      if anc = SKF_AD_PROTOCOL then Cont (r\<lparr>regA := ucast (swab16 (protocol skb))\<rparr>) 0
      else if anc = SKF_AD_PKTTYPE then Cont (r\<lparr>regA := ucast (pkt_type skb)\<rparr>) 0
      else if anc = SKF_AD_IFINDEX
      then (case dev_ifindex skb of None \<Rightarrow> Oob | Some i \<Rightarrow> Cont (r\<lparr>regA := i\<rparr>) 0)
      else Return 0)"

text \<open>The code at \<open>load_w\<close>, \<open>load_h\<close> and \<open>load_b\<close>, which differ in the size and the conversion.\<close>

definition load :: "int \<Rightarrow> (u8 list \<Rightarrow> u32) \<Rightarrow> sk_buff \<Rightarrow> int \<Rightarrow> bpf_regs \<Rightarrow> bpf_step" where
  "load sz conv b kk r =
     (let skb = skb_hd b; len = skb_len skb - data_len skb;
          got = (\<lambda>bs. case bs of None \<Rightarrow> Oob | Some bs \<Rightarrow> Cont (r\<lparr>regA := conv bs\<rparr>) 0)
      in if kk \<ge> 0 \<and> kk + sz \<le> len then got (read_mem (mem skb) (data_ptr skb + kk) sz)
         else if kk < 0
         then if kk \<ge> SKF_AD_OFF then load_ancillary skb kk r
              else (case load_pointer skb kk of
                      Some p \<Rightarrow> got (read_mem (mem skb) p sz)
                    | None \<Rightarrow> Return 0)
         else (case skb_copy_bits b kk sz of
                 None \<Rightarrow> Oob
               | Some None \<Rightarrow> Return 0
               | Some (Some bs) \<Rightarrow> got (Some bs)))"

definition load_w :: "sk_buff \<Rightarrow> int \<Rightarrow> bpf_regs \<Rightarrow> bpf_step" where
  "load_w = load 4 (\<lambda>bs. swab32 (get32 bs))"

definition load_h :: "sk_buff \<Rightarrow> int \<Rightarrow> bpf_regs \<Rightarrow> bpf_step" where
  "load_h = load 2 (\<lambda>bs. ucast (swab16 (get16 bs)))"

definition load_b :: "sk_buff \<Rightarrow> int \<Rightarrow> bpf_regs \<Rightarrow> bpf_step" where
  "load_b = load 1 (\<lambda>bs. ucast (hd bs))"

text \<open>The arithmetic instructions; \<open>None\<close> when the code is not one of them.\<close>

definition bpf_alu :: "sock_filter \<Rightarrow> bpf_regs \<Rightarrow> bpf_step option" where
  "bpf_alu f r =
     (let c = code f; A = regA r; X = regX r; set_A = (\<lambda>v. Some (Cont (r\<lparr>regA := v\<rparr>) 0)) in
      if c = BPF_ALU OR BPF_ADD OR BPF_X then set_A (A + X)
      else if c = BPF_ALU OR BPF_ADD OR BPF_K then set_A (A + k f)
      else if c = BPF_ALU OR BPF_SUB OR BPF_X then set_A (A - X)
      else if c = BPF_ALU OR BPF_SUB OR BPF_K then set_A (A - k f)
      else if c = BPF_ALU OR BPF_MUL OR BPF_X then set_A (A * X)
      else if c = BPF_ALU OR BPF_MUL OR BPF_K then set_A (A * k f)
      else if c = BPF_ALU OR BPF_DIV OR BPF_X
      then (if X = 0 then Some (Return 0) else set_A (A div X))
      else if c = BPF_ALU OR BPF_DIV OR BPF_K
      then (if k f = 0 then Some (Return 0) else set_A (A div k f))
      else if c = BPF_ALU OR BPF_AND OR BPF_X then set_A (A AND X)
      else if c = BPF_ALU OR BPF_AND OR BPF_K then set_A (A AND k f)
      else if c = BPF_ALU OR BPF_OR OR BPF_X then set_A (A OR X)
      else if c = BPF_ALU OR BPF_OR OR BPF_K then set_A (A OR k f)
      else if c = BPF_ALU OR BPF_LSH OR BPF_X then set_A (push_bit (unat (X AND 31)) A)
      else if c = BPF_ALU OR BPF_LSH OR BPF_K then set_A (push_bit (unat (k f AND 31)) A)
      else if c = BPF_ALU OR BPF_RSH OR BPF_X then set_A (drop_bit (unat (X AND 31)) A)
      else if c = BPF_ALU OR BPF_RSH OR BPF_K then set_A (drop_bit (unat (k f AND 31)) A)
      else if c = BPF_ALU OR BPF_NEG then set_A (- A)
      else None)"

definition bpf_jump :: "sock_filter \<Rightarrow> bpf_regs \<Rightarrow> bpf_step option" where
  "bpf_jump f r =
     (let c = code f; A = regA r; X = regX r;
          jump = (\<lambda>b. Some (Cont r (ucast (if b then jt f else jf f)))) in
      if c = BPF_JMP OR BPF_JA then Some (Cont r (k f))
      else if c = BPF_JMP OR BPF_JGT OR BPF_K then jump (A > k f)
      else if c = BPF_JMP OR BPF_JGE OR BPF_K then jump (A \<ge> k f)
      else if c = BPF_JMP OR BPF_JEQ OR BPF_K then jump (A = k f)
      else if c = BPF_JMP OR BPF_JSET OR BPF_K then jump (A AND k f \<noteq> 0)
      else if c = BPF_JMP OR BPF_JGT OR BPF_X then jump (A > X)
      else if c = BPF_JMP OR BPF_JGE OR BPF_X then jump (A \<ge> X)
      else if c = BPF_JMP OR BPF_JEQ OR BPF_X then jump (A = X)
      else if c = BPF_JMP OR BPF_JSET OR BPF_X then jump (A AND X \<noteq> 0)
      else None)"

text \<open>\<open>mem[k]\<close>, read and written.\<close>

definition mem_get :: "bpf_regs \<Rightarrow> u32 \<Rightarrow> (u32 \<Rightarrow> bpf_step) \<Rightarrow> bpf_step" where
  "mem_get r i f = (if unat i < length (scratch r) then f (scratch r ! unat i) else Oob)"

definition mem_set :: "bpf_regs \<Rightarrow> u32 \<Rightarrow> u32 \<Rightarrow> bpf_step" where
  "mem_set r i v = (if unat i < length (scratch r) then Cont (r\<lparr>scratch := (scratch r)[unat i := v]\<rparr>) 0 else Oob)"

definition bpf_load :: "sk_buff \<Rightarrow> sock_filter \<Rightarrow> bpf_regs \<Rightarrow> bpf_step option" where
  "bpf_load b f r =
     (let c = code f; X = regX r; skb = skb_hd b; len = skb_len skb - data_len skb in
      if c = BPF_LD OR BPF_W OR BPF_ABS then Some (load_w b (sint (k f)) r)
      else if c = BPF_LD OR BPF_H OR BPF_ABS then Some (load_h b (sint (k f)) r)
      else if c = BPF_LD OR BPF_B OR BPF_ABS then Some (load_b b (sint (k f)) r)
      else if c = BPF_LD OR BPF_W OR BPF_LEN then Some (Cont (r\<lparr>regA := of_int len\<rparr>) 0)
      else if c = BPF_LDX OR BPF_W OR BPF_LEN then Some (Cont (r\<lparr>regX := of_int len\<rparr>) 0)
      else if c = BPF_LD OR BPF_W OR BPF_IND then Some (load_w b (sint (X + k f)) r)
      else if c = BPF_LD OR BPF_H OR BPF_IND then Some (load_h b (sint (X + k f)) r)
      else if c = BPF_LD OR BPF_B OR BPF_IND then Some (load_b b (sint (X + k f)) r)
      else if c = BPF_LDX OR BPF_B OR BPF_MSH
      then let kk = sint (k f) in
           if kk \<ge> 0 \<and> kk \<ge> len then Some (Return 0)
           else (case read_mem (mem skb) (data_ptr skb + kk) 1 of
                   None \<Rightarrow> Some Oob
                 | Some bs \<Rightarrow> Some (Cont (r\<lparr>regX := push_bit 2 (ucast (hd bs AND 0xf))\<rparr>) 0))
      else None)"

definition bpf_other :: "sock_filter \<Rightarrow> bpf_regs \<Rightarrow> bpf_step" where
  "bpf_other f r =
     (let c = code f; A = regA r; X = regX r in
      if c = BPF_LD OR BPF_IMM then Cont (r\<lparr>regA := k f\<rparr>) 0
      else if c = BPF_LDX OR BPF_IMM then Cont (r\<lparr>regX := k f\<rparr>) 0
      else if c = BPF_LD OR BPF_MEM then mem_get r (k f) (\<lambda>v. Cont (r\<lparr>regA := v\<rparr>) 0)
      else if c = BPF_LDX OR BPF_MEM then mem_get r (k f) (\<lambda>v. Cont (r\<lparr>regX := v\<rparr>) 0)
      else if c = BPF_MISC OR BPF_TAX then Cont (r\<lparr>regX := A\<rparr>) 0
      else if c = BPF_MISC OR BPF_TXA then Cont (r\<lparr>regA := X\<rparr>) 0
      else if c = BPF_RET OR BPF_K then Return (k f)
      else if c = BPF_RET OR BPF_A then Return A
      else if c = BPF_ST then mem_set r (k f) A
      else if c = BPF_STX then mem_set r (k f) X
      else Return 0)"

text \<open>The \<open>switch\<close>.\<close>

definition bpf_insn :: "sk_buff \<Rightarrow> sock_filter \<Rightarrow> bpf_regs \<Rightarrow> bpf_step" where
  "bpf_insn b f r =
     (case bpf_alu f r of Some s \<Rightarrow> s
      | None \<Rightarrow> (case bpf_jump f r of Some s \<Rightarrow> s
        | None \<Rightarrow> (case bpf_load b f r of Some s \<Rightarrow> s | None \<Rightarrow> bpf_other f r)))"

text \<open>
  The loop. \<open>pc\<close> is a signed 32-bit integer, kept as a word; \<open>Inl ()\<close> is a bad memory access.
\<close>

partial_function (option) run_loop ::
  "sk_buff \<Rightarrow> sock_filter list \<Rightarrow> u32 \<Rightarrow> u32 \<Rightarrow> bpf_regs \<Rightarrow> (unit + u32) option" where
  "run_loop b prog flen pc r =
     (if sint pc < sint flen
      then if unat pc < length prog
        then (case bpf_insn b (prog ! unat pc) r of
                Cont r off \<Rightarrow> run_loop b prog flen (pc + off + 1) r
              | Return v \<Rightarrow> Some (Inr v)
              | Oob \<Rightarrow> Some (Inl ()))
        else Some (Inl ())
      else Some (Inr 0))"

definition sk_run_filter :: "u32 list \<Rightarrow> sk_buff \<Rightarrow> sock_filter list \<Rightarrow> u32 \<Rightarrow> (unit + u32) option" where
  "sk_run_filter junk b prog flen =
     run_loop b prog flen 0 \<lparr>regA = 0, regX = 0, scratch = junk\<rparr>"

declare run_loop.simps [code]

section \<open>The checker\<close>

text \<open>
  One instruction at \<open>pc\<close>. The comparison of the jump is unsigned for \<open>BPF_JA\<close> and signed otherwise.
\<close>

definition chk_insn :: "u32 \<Rightarrow> nat \<Rightarrow> sock_filter \<Rightarrow> bool" where
  "chk_insn flen pc f =
     ((if BPF_CLASS (code f) = BPF_JMP
       then if BPF_OP (code f) = BPF_JA
            then \<not> k f \<ge> flen - of_nat pc - 1
            else \<not> (int pc + uint (jt f) + 1 \<ge> sint flen \<or> int pc + uint (jf f) + 1 \<ge> sint flen)
       else True) \<and>
      (k f \<ge> of_nat BPF_MEMWORDS \<longrightarrow>
       code f \<notin> {BPF_ST, BPF_STX, BPF_LD OR BPF_MEM, BPF_LDX OR BPF_MEM}))"

fun chk_loop :: "u32 \<Rightarrow> nat \<Rightarrow> sock_filter list \<Rightarrow> bool" where
  "chk_loop flen pc [] = True"
| "chk_loop flen pc (f # fs) = (chk_insn flen pc f \<and> chk_loop flen (pc + 1) fs)"

text \<open>
  \<open>before\<close> is what the code reads as \<open>filter[-1].code\<close> when \<open>flen\<close> is 0.
\<close>

definition sk_chk_filter :: "u16 \<Rightarrow> sock_filter list \<Rightarrow> int" where
  "sk_chk_filter before prog =
     (let flen = of_nat (length prog) :: u32 in
      if flen \<ge> 0xffffffff div 8 then - EINVAL
      else if \<not> chk_loop flen 0 prog then - EINVAL
      else if BPF_CLASS (if prog = [] then before else code (last prog)) = BPF_RET then 0
      else - EINVAL)"

section \<open>Attaching a filter to a socket\<close>

record sk_filter =
  refcnt :: nat
  insns :: "sock_filter list"

record sock =
  filter_ptr :: "sk_filter option"
  omem_alloc :: int

definition sizeof_sock_filter :: int where "sizeof_sock_filter = 8"
definition sizeof_sk_filter :: int where "sizeof_sk_filter = 8"

definition sk_filter_len :: "sk_filter \<Rightarrow> int" where
  "sk_filter_len fp = int (length (insns fp)) * sizeof_sock_filter + sizeof_sk_filter"

text \<open>\<open>kmalloc_ok\<close> tells whether the allocator has memory.\<close>

definition sock_kmalloc :: "int \<Rightarrow> bool \<Rightarrow> int \<Rightarrow> sock \<Rightarrow> bool \<times> sock" where
  "sock_kmalloc optmem_max kmalloc_ok sz sk =
     (if sz \<le> optmem_max \<and> omem_alloc sk + sz < optmem_max
      then let sk = sk\<lparr>omem_alloc := omem_alloc sk + sz\<rparr> in
           if kmalloc_ok then (True, sk) else (False, sk\<lparr>omem_alloc := omem_alloc sk - sz\<rparr>)
      else (False, sk))"

definition sock_kfree_s :: "int \<Rightarrow> sock \<Rightarrow> sock" where
  "sock_kfree_s sz sk = sk\<lparr>omem_alloc := omem_alloc sk - sz\<rparr>"

text \<open>The result has the filter with its count lowered, \<open>None\<close> when the count has reached zero and it is freed.\<close>

definition sk_filter_release :: "sk_filter \<Rightarrow> sock \<Rightarrow> sk_filter option \<times> sock" where
  "sk_filter_release fp sk =
     (let sk = sk\<lparr>omem_alloc := omem_alloc sk - sk_filter_len fp\<rparr>;
          fp = fp\<lparr>refcnt := refcnt fp - 1\<rparr>
      in (if refcnt fp = 0 then None else Some fp, sk))"

definition sk_filter_charge :: "sk_filter \<Rightarrow> sock \<Rightarrow> sk_filter \<times> sock" where
  "sk_filter_charge fp sk =
     (fp\<lparr>refcnt := refcnt fp + 1\<rparr>, sk\<lparr>omem_alloc := omem_alloc sk + sk_filter_len fp\<rparr>)"

text \<open>
  \<open>user\<close> is the user's program, \<open>None\<close> for a null pointer; \<open>copy_ok\<close> tells whether it can be
  copied. In a new filter, \<open>insns[-1].code\<close> is the low half of the reference count, which is 1.
\<close>

definition sk_attach_filter ::
  "int \<Rightarrow> bool \<Rightarrow> bool \<Rightarrow> sock_filter list option \<Rightarrow> sock \<Rightarrow> int \<times> sk_filter option \<times> sock" where
  "sk_attach_filter optmem_max kmalloc_ok copy_ok user sk =
     (case user of
        None \<Rightarrow> (- EINVAL, None, sk)
      | Some prog \<Rightarrow>
          if length prog > BPF_MAXINSNS then (- EINVAL, None, sk)
          else let fsize = sizeof_sock_filter * int (length prog);
                   (got, sk) = sock_kmalloc optmem_max kmalloc_ok (fsize + sizeof_sk_filter) sk in
            if \<not> got then (- ENOMEM, None, sk)
            else if \<not> copy_ok then (- EFAULT, None, sock_kfree_s (fsize + sizeof_sk_filter) sk)
            else let fp = \<lparr>refcnt = 1, insns = prog\<rparr>; err = sk_chk_filter 1 prog;
                     (fp, sk) = (if err = 0 then (filter_ptr sk, sk\<lparr>filter_ptr := Some fp\<rparr>)
                                 else (Some fp, sk));
                     (left, sk) = (case fp of None \<Rightarrow> (None, sk) | Some fp \<Rightarrow> sk_filter_release fp sk)
                 in (err, left, sk))"

end
