(* ===== verification/BpfProof.thy ===== *)
theory BpfProof
  imports Bpf
begin

text \<open>
  What the filter checker guarantees: a program that it accepts terminates and stays inside its
  memory, with one exception, and loads see the packet as one string of bytes in network order.
\<close>

section \<open>Instruction classes\<close>





section \<open>Loads\<close>


definition skb_valid :: "sk_buff \<Rightarrow> bool" where
  "skb_valid b \<longleftrightarrow> skb_ok b \<and> dev_ifindex (skb_hd b) \<noteq> None"






section \<open>Checked programs run safely\<close>








section \<open>The value of a load\<close>

fun be32 :: "u8 list \<Rightarrow> u32" where
  "be32 [a, b, c, d] = push_bit 24 (ucast a) OR push_bit 16 (ucast b) OR push_bit 8 (ucast c) OR ucast d"
| "be32 _ = 0"

fun be16 :: "u8 list \<Rightarrow> u32" where
  "be16 [a, b] = push_bit 8 (ucast a) OR ucast b"
| "be16 _ = 0"

lemma byte_masks32:
  "(0x000000ff :: u32) = mask 8" "(0x0000ff00 :: u32) = push_bit 8 (mask 8)"
  "(0x00ff0000 :: u32) = push_bit 16 (mask 8)" "(0xff000000 :: u32) = push_bit 24 (mask 8)"
  by (simp_all add: mask_eq_exp_minus_1 push_bit_eq_mult)

lemma byte_masks16: "(0x00ff :: u16) = mask 8" "(0xff00 :: u16) = push_bit 8 (mask 8)"
  by (simp_all add: mask_eq_exp_minus_1 push_bit_eq_mult)

lemma bit_u8: "bit (a :: u8) n \<Longrightarrow> n < 8"
  using bit_imp_le_length [of a n] by simp

lemma swab16_get16: "ucast (swab16 (get16 [a, b])) = be16 [a, b]"
  by (rule bit_word_eqI) (auto simp: swab16_def byte_masks16 bit_simps dest: bit_u8)

lemma swab32_get32: "swab32 (get32 [a, b, c, d]) = be32 [a, b, c, d]"
proof (rule bit_word_eqI)
  fix n assume "n < LENGTH(32)"
  then consider "n < 8" | "8 \<le> n" "n < 16" | "16 \<le> n" "n < 24" | "24 \<le> n" "n < 32" by fastforce
  then show "bit (swab32 (get32 [a, b, c, d])) n = bit (be32 [a, b, c, d]) n"
    by cases (auto simp: swab32_def byte_masks32 bit_simps dest: bit_u8)
qed

lemma load_value:
  assumes "skb_ok b" "0 \<le> kk" "0 < sz"
  shows "load sz conv b kk r =
    (if kk + sz \<le> skb_len (skb_hd b) then Cont (r\<lparr>regA := conv (slice kk sz (skb_bytes b))\<rparr>) 0 else Return 0)"
proof (cases "kk + sz \<le> skb_len (skb_hd b) - data_len (skb_hd b)")
  case True
  obtain h l where b: "b = SkBuff h l" by (cases b)
  then have h: "head_ok h" using assms(1) by simp
  have "slice kk sz (skb_bytes b) = slice kk sz (head_bytes h)"
    using True assms(2,3) length_head_bytes [OF h] by (simp add: b slice_append_left)
  moreover have "0 \<le> data_len h"
    using assms(1) length_frags_bytes [of "frags h"] skb_len_nonneg h
    by (auto simp: b head_ok_def intro!: add_nonneg_nonneg sum_list_nonneg)
  moreover have "skb_hd b = h" by (simp add: b)
  ultimately show ?thesis using True assms(2,3) read_mem_head [OF h, of kk sz] by (simp add: load_def Let_def)
next
  case False
  then show ?thesis using copies_all [OF assms(1)] assms(2,3) by (simp add: load_def Let_def copies_def)
qed

lemma slice_lengths:
  assumes "skb_ok b" "0 \<le> kk" "0 < sz" "kk + sz \<le> skb_len (skb_hd b)"
  shows "length (slice kk sz (skb_bytes b)) = nat sz"
  using assms length_skb_bytes [OF assms(1)] by simp

lemma conv32: "length bs = 4 \<Longrightarrow> swab32 (get32 bs) = be32 bs"
  using swab32_get32 by (auto simp: numeral_eq_Suc length_Suc_conv simp del: get32.simps be32.simps)

lemma conv16: "length bs = 2 \<Longrightarrow> ucast (swab16 (get16 bs)) = be16 bs"
  using swab16_get16 by (auto simp: numeral_eq_Suc length_Suc_conv simp del: get16.simps be16.simps)

text \<open>C16. A load with a non-negative offset puts the bytes of the packet at that offset, in network byte
  order, into the accumulator, wherever the packet's bytes are stored; if the packet is too short the
  filter returns 0.\<close>

theorem load_network_order:
  assumes "skb_ok b" "0 \<le> kk"
  shows "load_w b kk r = (if kk + 4 \<le> skb_len (skb_hd b)
      then Cont (r\<lparr>regA := be32 (slice kk 4 (skb_bytes b))\<rparr>) 0 else Return 0) \<and>
    load_h b kk r = (if kk + 2 \<le> skb_len (skb_hd b)
      then Cont (r\<lparr>regA := be16 (slice kk 2 (skb_bytes b))\<rparr>) 0 else Return 0) \<and>
    load_b b kk r = (if kk < skb_len (skb_hd b)
      then Cont (r\<lparr>regA := ucast (skb_bytes b ! nat kk)\<rparr>) 0 else Return 0)"
proof (intro conjI)
  show "load_w b kk r = (if kk + 4 \<le> skb_len (skb_hd b)
      then Cont (r\<lparr>regA := be32 (slice kk 4 (skb_bytes b))\<rparr>) 0 else Return 0)"
    using load_value [OF assms, of 4] slice_lengths [OF assms, of 4] conv32 by (simp add: load_w_def)
  show "load_h b kk r = (if kk + 2 \<le> skb_len (skb_hd b)
      then Cont (r\<lparr>regA := be16 (slice kk 2 (skb_bytes b))\<rparr>) 0 else Return 0)"
    using load_value [OF assms, of 2] slice_lengths [OF assms, of 2] conv16 by (simp add: load_h_def)
  have "hd (slice kk 1 (skb_bytes b)) = skb_bytes b ! nat kk" if "kk < skb_len (skb_hd b)"
    using that length_skb_bytes [OF assms(1)] assms(2) by (simp add: hd_drop_conv_nth hd_take)
  then show "load_b b kk r = (if kk < skb_len (skb_hd b)
      then Cont (r\<lparr>regA := ucast (skb_bytes b ! nat kk)\<rparr>) 0 else Return 0)"
    using load_value [OF assms, of 1] by (auto simp: load_b_def)
qed

section \<open>Attaching\<close>



section \<open>A packet and a filter\<close>

text \<open>Ten bytes: four in the linear part, four in a page and two in a further buffer.\<close>

definition demo_skb :: sk_buff where
  "demo_skb = SkBuff \<lparr>mem = [0, 0, 1, 2, 3, 4, 0, 0, 0, 0], data_ptr = 2, tail_ptr = 6, nh_raw = 2, mac_raw = 2,
     skb_len = 10, data_len = 6, protocol = 8, pkt_type = 0, dev_ifindex = Some 1,
     frags = [\<lparr>page = [0, 5, 6, 7, 8, 0], page_offset = 1, frag_size = 4\<rparr>]\<rparr>
     [SkBuff \<lparr>mem = [9, 10, 0, 0, 0, 0], data_ptr = 0, tail_ptr = 2, nh_raw = 0, mac_raw = 0,
        skb_len = 2, data_len = 0, protocol = 8, pkt_type = 0, dev_ifindex = None, frags = []\<rparr> []]"

lemma demo_skb_valid: "skb_valid demo_skb" "skb_ok demo_skb" "skb_len (skb_hd demo_skb) = 10"
  by (simp_all add: demo_skb_def skb_valid_def head_ok_def)

lemma demo_skb_bytes: "skb_bytes demo_skb = [1, 2, 3, 4, 5, 6, 7, 8, 9, 10]"
  by (simp add: demo_skb_def head_bytes_def frag_bytes_def)

theorem skb_copy_bits_witness: "skb_copy_bits demo_skb 3 6 = Some (Some [4, 5, 6, 7, 8, 9])"
  using skb_copy_bits_reads_packet [OF demo_skb_valid(2), of 3 6] by (simp add: demo_skb_valid demo_skb_bytes)




theorem load_network_order_witness:
  "load_w demo_skb 6 \<lparr>regA = 0, regX = 0, scratch = []\<rparr> = Cont \<lparr>regA = 0x0708090a, regX = 0, scratch = []\<rparr> 0"
  using load_network_order [OF demo_skb_valid(2), of 6 "\<lparr>regA = 0, regX = 0, scratch = []\<rparr>"]
  by (simp add: demo_skb_valid demo_skb_bytes)




end
