(* ===== verification/IpcUtil.thy ===== *)
theory IpcUtil
  imports Prelude "HOL-Library.Monad_Syntax"
begin

text \<open>
  The helpers of ipc/util.c and ipc/util.h that System V semaphores and message queues
  share: the table of identifiers (\<open>struct ipc_ids\<close>), the check of permissions, and the
  conversions of permission structures. An object of the table is known by its address;
  \<open>entries[id].p\<close> is the address or \<open>NULL\<close>. A function that may hit \<open>BUG()\<close>, an invalid
  address or an index outside the array returns \<open>None\<close> there. The semaphore and the
  spinlock of the table appear as the atomic sections of the callers. The theory ends with
  the contract of an identifier table as a locale, interpreted on these definitions.
\<close>

section \<open>Tasks and permissions\<close>

type_synonym ptr = nat
type_synonym task = nat

text \<open>Of the states of a task the IPC code uses two.\<close>

datatype task_state = TASK_RUNNING | TASK_INTERRUPTIBLE

text \<open>The part of \<open>task_struct\<close> that the permission checks read.\<close>

record task_cred =
  pid :: int
  euid :: u32
  egid :: u32
  fsgid :: u32
  groups :: "u32 list"
  cap_effective :: u32

definition CAP_IPC_OWNER :: nat where "CAP_IPC_OWNER = 15"
definition CAP_SYS_ADMIN :: nat where "CAP_SYS_ADMIN = 21"
definition CAP_SYS_RESOURCE :: nat where "CAP_SYS_RESOURCE = 24"

definition cap_raised :: "u32 \<Rightarrow> nat \<Rightarrow> bool" where
  "cap_raised c flag \<longleftrightarrow> c AND push_bit flag 1 \<noteq> 0"

definition capable :: "task_cred \<Rightarrow> nat \<Rightarrow> bool" where
  "capable current cap = cap_raised (cap_effective current) cap"

fun group_among :: "u32 \<Rightarrow> u32 list \<Rightarrow> bool" where
  "group_among grp [] = False"
| "group_among grp (g # gs) = (if g = grp then True else group_among grp gs)"

definition supplemental_group_member :: "task_cred \<Rightarrow> u32 \<Rightarrow> bool" where
  "supplemental_group_member current grp = group_among grp (groups current)"

definition in_group_p :: "task_cred \<Rightarrow> u32 \<Rightarrow> bool" where
  "in_group_p current grp =
     (if grp \<noteq> fsgid current then supplemental_group_member current grp else True)"

record kern_ipc_perm =
  p_key :: int
  p_uid :: u32
  p_gid :: u32
  p_cuid :: u32
  p_cgid :: u32
  p_mode :: u16
  p_seq :: ulong

definition S_IRWXUGO :: int where "S_IRWXUGO = 511"
definition S_IRUGO :: int where "S_IRUGO = 292"
definition S_IWUGO :: int where "S_IWUGO = 146"

definition IPC_CREAT :: u32 where "IPC_CREAT = 512"
definition IPC_EXCL :: u32 where "IPC_EXCL = 1024"
definition IPC_NOWAIT :: u32 where "IPC_NOWAIT = 2048"
definition IPC_PRIVATE :: int where "IPC_PRIVATE = 0"
definition IPC_RMID :: u32 where "IPC_RMID = 0"
definition IPC_SET :: u32 where "IPC_SET = 1"
definition IPC_STAT :: u32 where "IPC_STAT = 2"
definition IPC_INFO :: u32 where "IPC_INFO = 3"
definition IPC_OLD :: u32 where "IPC_OLD = 0"
definition IPC_64 :: u32 where "IPC_64 = 256"

text \<open>The result is \<open>-1\<close> or \<open>0\<close>; \<open>flag\<close> is a \<open>short\<close>, promoted to \<open>int\<close> before it is shifted.\<close>

definition ipcperms :: "task_cred \<Rightarrow> kern_ipc_perm \<Rightarrow> int \<Rightarrow> int" where
  "ipcperms current ipcp flag =
     (let requested_mode = drop_bit 6 flag OR drop_bit 3 flag OR flag;
          granted_mode = uint (p_mode ipcp);
          granted_mode =
            (if euid current = p_cuid ipcp \<or> euid current = p_uid ipcp
             then drop_bit 6 granted_mode
             else if in_group_p current (p_cgid ipcp) \<or> in_group_p current (p_gid ipcp)
             then drop_bit 3 granted_mode else granted_mode)
      in if requested_mode AND NOT granted_mode AND 7 \<noteq> 0 \<and> \<not> capable current CAP_IPC_OWNER
         then -1 else 0)"

section \<open>The table of identifiers\<close>

definition IPCMNI :: int where "IPCMNI = 32768"
definition SEQ_MULTIPLIER :: int where "SEQ_MULTIPLIER = IPCMNI"
definition USHRT_MAX :: int where "USHRT_MAX = 65535"
definition INT_MAX :: int where "INT_MAX = 2147483647"

record ipc_ids =
  ids_size :: int
  in_use :: int
  max_id :: int
  ids_seq :: u16
  seq_max :: u16
  entries :: "ptr option list"

text \<open>The read of \<open>entries[id].p\<close>; an index outside the array is an error.\<close>

definition entry :: "ipc_ids \<Rightarrow> int \<Rightarrow> ptr option option" where
  "entry ids i = (if 0 \<le> i \<and> nat i < length (entries ids) then Some (entries ids ! nat i) else None)"

definition ipc_init_ids :: "bool \<Rightarrow> int \<Rightarrow> ipc_ids" where
  "ipc_init_ids mem n =
     (let n = (if n > IPCMNI then IPCMNI else n);
          seq_limit = INT_MAX sdiv SEQ_MULTIPLIER;
          smax = (if seq_limit > USHRT_MAX then word_of_int USHRT_MAX else word_of_int seq_limit);
          n = (if mem then n else 0)
      in \<lparr>ids_size = n, in_use = 0, max_id = -1, ids_seq = 0, seq_max = smax,
          entries = replicate (nat n) None\<rparr>)"

fun find_key :: "(ptr \<rightharpoonup> kern_ipc_perm) \<Rightarrow> ipc_ids \<Rightarrow> int \<Rightarrow> int list \<Rightarrow> int option" where
  "find_key perm ids key [] = Some (-1)"
| "find_key perm ids key (i # is) =
     do { p \<leftarrow> entry ids i;
          case p of
            None \<Rightarrow> find_key perm ids key is
          | Some p \<Rightarrow> do { q \<leftarrow> perm p;
                           if key = p_key q then Some i else find_key perm ids key is } }"

definition ipc_findkey :: "(ptr \<rightharpoonup> kern_ipc_perm) \<Rightarrow> ipc_ids \<Rightarrow> int \<Rightarrow> int option" where
  "ipc_findkey perm ids key = find_key perm ids key [0..max_id ids]"

text \<open>The flag \<open>mem\<close> says whether \<open>ipc_alloc\<close> of the larger array succeeds.\<close>

definition grow_ary :: "bool \<Rightarrow> ipc_ids \<Rightarrow> int \<Rightarrow> int \<times> ipc_ids" where
  "grow_ary mem ids newsize =
     (let newsize = (if newsize > IPCMNI then IPCMNI else newsize) in
      if newsize \<le> ids_size ids then (newsize, ids)
      else if \<not> mem then (ids_size ids, ids)
      else let ids = ids\<lparr>entries := take (nat (ids_size ids)) (entries ids)
                                   @ replicate (nat (newsize - ids_size ids)) None,
                         ids_size := newsize\<rparr>
           in (ids_size ids, ids))"

fun first_free :: "ipc_ids \<Rightarrow> int list \<Rightarrow> int option" where
  "first_free ids [] = Some (-1)"
| "first_free ids (i # is) =
     do { p \<leftarrow> entry ids i; if p = None then Some i else first_free ids is }"

text \<open>The result is the index or \<open>-1\<close>, the table, and the permission object as filled in.\<close>

definition ipc_addid ::
  "task_cred \<Rightarrow> bool \<Rightarrow> ipc_ids \<Rightarrow> ptr \<Rightarrow> kern_ipc_perm \<Rightarrow> int \<Rightarrow> (int \<times> ipc_ids \<times> kern_ipc_perm) option"
where
  "ipc_addid current mem ids p new n =
     (let (n, ids) = grow_ary mem ids n in
      do { id \<leftarrow> first_free ids [0..n - 1];
           if id = -1 then Some (-1, ids, new)
           else
             let ids = ids\<lparr>in_use := in_use ids + 1\<rparr>;
                 ids = (if id > max_id ids then ids\<lparr>max_id := id\<rparr> else ids);
                 new = new\<lparr>p_cuid := euid current, p_uid := euid current,
                           p_gid := egid current, p_cgid := egid current,
                           p_seq := ucast (ids_seq ids)\<rparr>;
                 ids = ids\<lparr>ids_seq := ids_seq ids + 1\<rparr>;
                 ids = (if ids_seq ids > seq_max ids then ids\<lparr>ids_seq := 0\<rparr> else ids);
                 ids = ids\<lparr>entries := (entries ids)[nat id := Some p]\<rparr>
             in Some (id, ids, new) })"

text \<open>The loop that looks for the last used index below \<open>lid\<close>, entered with \<open>lid\<close>.\<close>

fun last_used :: "ipc_ids \<Rightarrow> nat \<Rightarrow> int option" where
  "last_used ids 0 = Some (-1)"
| "last_used ids (Suc lid) =
     do { p \<leftarrow> entry ids (int lid); if p = None then last_used ids lid else Some (int lid) }"

definition ipc_rmid :: "ipc_ids \<Rightarrow> int \<Rightarrow> (ptr \<times> ipc_ids) option" where
  "ipc_rmid ids i =
     (let lid = i smod SEQ_MULTIPLIER in
      if lid \<ge> ids_size ids then None
      else do {
        p \<leftarrow> entry ids lid;
        let ids = ids\<lparr>entries := (entries ids)[nat lid := None]\<rparr>;
        p \<leftarrow> p;
        let ids = ids\<lparr>in_use := in_use ids - 1\<rparr>;
        if lid = max_id ids
        then do { m \<leftarrow> last_used ids (nat lid); Some (p, ids\<lparr>max_id := m\<rparr>) }
        else Some (p, ids) })"

definition ipc_get :: "ipc_ids \<Rightarrow> int \<Rightarrow> ptr option option" where
  "ipc_get ids i =
     (let lid = i smod SEQ_MULTIPLIER in
      if lid \<ge> ids_size ids then Some None else entry ids lid)"

text \<open>\<open>ipc_lock\<close> differs from \<open>ipc_get\<close> in the spinlock, which is free again when \<open>NULL\<close> is returned.\<close>

definition ipc_lock :: "ipc_ids \<Rightarrow> int \<Rightarrow> ptr option option" where
  "ipc_lock ids i =
     (let lid = i smod SEQ_MULTIPLIER in
      if lid \<ge> ids_size ids then Some None else entry ids lid)"

definition ipc_buildid :: "int \<Rightarrow> int \<Rightarrow> int" where
  "ipc_buildid i seq = s32 (SEQ_MULTIPLIER * seq + i)"

text \<open>The comparison converts the quotient to \<open>unsigned long\<close>.\<close>

definition ipc_checkid :: "kern_ipc_perm \<Rightarrow> int \<Rightarrow> bool" where
  "ipc_checkid ipcp uid \<longleftrightarrow> word_of_int (uid sdiv SEQ_MULTIPLIER) \<noteq> p_seq ipcp"

section \<open>Permission structures for user space\<close>

record ipc64_perm =
  key64 :: int
  uid64 :: u32
  gid64 :: u32
  cuid64 :: u32
  cgid64 :: u32
  mode64 :: u16
  seq64 :: u16

record ipc_perm =
  key16 :: int
  uid16 :: u16
  gid16 :: u16
  cuid16 :: u16
  cgid16 :: u16
  mode16 :: u16
  seq16 :: u16

definition kernel_to_ipc64_perm :: "kern_ipc_perm \<Rightarrow> ipc64_perm" where
  "kernel_to_ipc64_perm p =
     \<lparr>key64 = p_key p, uid64 = p_uid p, gid64 = p_gid p, cuid64 = p_cuid p, cgid64 = p_cgid p,
      mode64 = p_mode p, seq64 = ucast (p_seq p)\<rparr>"

text \<open>The arguments \<open>ou\<close> and \<open>og\<close> are the sysctl variables \<open>overflowuid\<close> and \<open>overflowgid\<close>.\<close>

definition high2lowuid :: "int \<Rightarrow> u32 \<Rightarrow> u16" where
  "high2lowuid ou uid = (if uid > 65535 then word_of_int ou else ucast uid)"

definition high2lowgid :: "int \<Rightarrow> u32 \<Rightarrow> u16" where
  "high2lowgid og gid = (if gid > 65535 then word_of_int og else ucast gid)"

definition ipc64_perm_to_ipc_perm :: "int \<Rightarrow> int \<Rightarrow> ipc64_perm \<Rightarrow> ipc_perm" where
  "ipc64_perm_to_ipc_perm ou og p =
     \<lparr>key16 = key64 p, uid16 = high2lowuid ou (uid64 p), gid16 = high2lowgid og (gid64 p),
      cuid16 = high2lowuid ou (cuid64 p), cgid16 = high2lowgid og (cgid64 p),
      mode16 = mode64 p, seq16 = seq64 p\<rparr>"

definition ipc_parse_version :: "u32 \<Rightarrow> u32 \<times> u32" where
  "ipc_parse_version cmd =
     (if cmd AND IPC_64 \<noteq> 0 then (IPC_64, cmd XOR IPC_64) else (IPC_OLD, cmd))"

section \<open>The contract of an identifier table\<close>

text \<open>
  What semaphores and message queues rely on: locking an identifier finds the object in the
  slot that the identifier selects, adding an object fills one free slot, removing one
  empties its slot, and an object is in one slot at most.
\<close>

locale id_table =
  fixes ok :: "'t \<Rightarrow> bool"
    and slot :: "'t \<Rightarrow> nat \<Rightarrow> 'p option"
    and lock :: "'t \<Rightarrow> int \<Rightarrow> 'p option option"
    and added :: "'t \<Rightarrow> 'p \<Rightarrow> nat \<Rightarrow> 't \<Rightarrow> bool"
    and removed :: "'t \<Rightarrow> int \<Rightarrow> 'p \<Rightarrow> 't \<Rightarrow> bool"
  assumes lock_slot: "ok t \<Longrightarrow> 0 \<le> n \<Longrightarrow> lock t n = Some (slot t (nat (n mod 32768)))"
    and slot_inj: "ok t \<Longrightarrow> slot t i = Some p \<Longrightarrow> slot t j = Some p \<Longrightarrow> i = j"
    and added_slot: "ok t \<Longrightarrow> added t p i t' \<Longrightarrow>
           i < 32768 \<and> slot t i = None \<and> slot t' = (slot t)(i := Some p)"
    and added_ok: "ok t \<Longrightarrow> added t p i t' \<Longrightarrow> (\<forall>j. slot t j \<noteq> Some p) \<Longrightarrow> ok t'"
    and removed_slot: "ok t \<Longrightarrow> 0 \<le> n \<Longrightarrow> removed t n p t' \<Longrightarrow>
           slot t (nat (n mod 32768)) = Some p \<and> slot t' = (slot t)(nat (n mod 32768) := None)"
    and removed_ok: "ok t \<Longrightarrow> 0 \<le> n \<Longrightarrow> removed t n p t' \<Longrightarrow> ok t'"
begin

lemma lock_added:
  assumes "ok t" "added t p i t'" "\<forall>j. slot t j \<noteq> Some p" "0 \<le> n"
  shows "lock t' n = (if nat (n mod 32768) = i then Some (Some p) else lock t n)"
  using lock_slot [OF added_ok [OF assms(1-3)] assms(4)] lock_slot [OF assms(1,4)]
    added_slot [OF assms(1,2)] by simp

lemma lock_removed:
  assumes "ok t" "0 \<le> n" "removed t n p t'" "0 \<le> m"
  shows "lock t' m = (if m mod 32768 = n mod 32768 then Some None else lock t m)"
proof -
  have "nat (m mod 32768) = nat (n mod 32768) \<longleftrightarrow> m mod 32768 = n mod 32768"
    using assms(2,4) by (simp add: eq_nat_nat_iff)
  with lock_slot [OF removed_ok [OF assms(1-3)] assms(4)] lock_slot [OF assms(1,4)]
    removed_slot [OF assms(1-3)] show ?thesis by auto
qed

lemma removed_gone:
  assumes "ok t" "0 \<le> n" "removed t n p t'"
  shows "slot t' j \<noteq> Some p"
  using removed_slot [OF assms] slot_inj [OF assms(1)] by (metis fun_upd_apply option.distinct(1))

lemma lock_found:
  assumes "ok t" "0 \<le> n" "lock t n = Some (Some p)"
  shows "slot t (nat (n mod 32768)) = Some p"
  using assms lock_slot by simp

end

section \<open>The table meets the contract\<close>

definition slot :: "ipc_ids \<Rightarrow> nat \<Rightarrow> ptr option" where
  "slot ids i = (if i < length (entries ids) then entries ids ! i else None)"

text \<open>The data-type invariant of \<open>struct ipc_ids\<close>.\<close>

definition ids_ok :: "ipc_ids \<Rightarrow> bool" where
  "ids_ok ids \<longleftrightarrow>
     ids_size ids = int (length (entries ids)) \<and> ids_size ids \<le> IPCMNI \<and>
     in_use ids = int (length (filter (\<lambda>e. e \<noteq> None) (entries ids))) \<and>
     -1 \<le> max_id ids \<and> max_id ids < ids_size ids \<and>
     (\<forall>i. int i > max_id ids \<longrightarrow> slot ids i = None) \<and>
     (0 \<le> max_id ids \<longrightarrow> slot ids (nat (max_id ids)) \<noteq> None) \<and>
     (\<forall>i j p. slot ids i = Some p \<longrightarrow> slot ids j = Some p \<longrightarrow> i = j) \<and>
     seq_max ids = 65535"

lemma ids_okD:
  assumes "ids_ok ids"
  shows "ids_size ids = int (length (entries ids))" "length (entries ids) \<le> 32768"
    "in_use ids = int (length (filter (\<lambda>e. e \<noteq> None) (entries ids)))"
    "-1 \<le> max_id ids" "max_id ids < int (length (entries ids))"
    "\<And>i. int i > max_id ids \<Longrightarrow> slot ids i = None"
    "0 \<le> max_id ids \<Longrightarrow> slot ids (nat (max_id ids)) \<noteq> None"
    "\<And>i j p. slot ids i = Some p \<Longrightarrow> slot ids j = Some p \<Longrightarrow> i = j"
    "seq_max ids = 65535"
  using assms unfolding ids_ok_def IPCMNI_def by auto

lemma ids_okI:
  assumes "ids_size ids = int (length (entries ids))" "length (entries ids) \<le> 32768"
    "in_use ids = int (length (filter (\<lambda>e. e \<noteq> None) (entries ids)))"
    "-1 \<le> max_id ids" "max_id ids < int (length (entries ids))"
    "\<And>i. int i > max_id ids \<Longrightarrow> slot ids i = None"
    "0 \<le> max_id ids \<Longrightarrow> slot ids (nat (max_id ids)) \<noteq> None"
    "\<And>i j p. slot ids i = Some p \<Longrightarrow> slot ids j = Some p \<Longrightarrow> i = j"
    "seq_max ids = 65535"
  shows "ids_ok ids"
proof -
  have "ids_size ids \<le> 32768" "max_id ids < ids_size ids" using assms(1,2,5) by linarith+
  then show ?thesis unfolding ids_ok_def IPCMNI_def using assms by blast
qed

lemma slot_update [simp]:
  "slot (ids\<lparr>in_use := a\<rparr>) = slot ids" "slot (ids\<lparr>max_id := b\<rparr>) = slot ids"
  "slot (ids\<lparr>ids_seq := c\<rparr>) = slot ids" "slot (ids\<lparr>ids_size := d\<rparr>) = slot ids"
  by (simp_all add: slot_def fun_eq_iff)

lemma slot_entries_update:
  "i < length (entries ids) \<Longrightarrow> slot (ids\<lparr>entries := (entries ids)[i := e]\<rparr>) = (slot ids)(i := e)"
  by (auto simp: slot_def fun_eq_iff)

lemma entry_slot: "0 \<le> i \<Longrightarrow> nat i < length (entries ids) \<Longrightarrow> entry ids i = Some (slot ids (nat i))"
  by (simp add: entry_def slot_def)

lemma slot_in_range: "slot ids i = Some p \<Longrightarrow> i < length (entries ids)"
  by (simp add: slot_def split: if_splits)

lemma init_ids_ok: "0 \<le> n \<Longrightarrow> ids_ok (ipc_init_ids mem n)"
  by (auto simp: ids_ok_def ipc_init_ids_def Let_def IPCMNI_def INT_MAX_def SEQ_MULTIPLIER_def
      USHRT_MAX_def slot_def sdiv_nonneg)

lemma ipc_lock_slot:
  assumes "ids_ok ids" "0 \<le> n"
  shows "ipc_lock ids n = Some (slot ids (nat (n mod 32768)))"
  using assms ids_okD(1) [OF assms(1)]
  by (simp add: ipc_lock_def Let_def SEQ_MULTIPLIER_def IPCMNI_def smod_nonneg entry_def slot_def
      nat_less_iff le_nat_iff not_le)

lemma length_filter_update:
  "i < length xs \<Longrightarrow>
   length (filter P (xs[i := y])) + of_bool (P (xs ! i)) = length (filter P xs) + of_bool (P y)"
proof (induction xs arbitrary: i)
  case (Cons x xs)
  then show ?case by (cases i) auto
qed simp

lemma grow_ary_ok:
  assumes ok: "ids_ok ids" and g: "grow_ary mem ids n = (n', ids')"
  shows "ids_ok ids' \<and> slot ids' = slot ids \<and> n' \<le> int (length (entries ids')) \<and>
         ids_seq ids' = ids_seq ids \<and> ids_size ids \<le> ids_size ids'"
proof (cases "(if n > IPCMNI then IPCMNI else n) \<le> ids_size ids \<or> \<not> mem")
  case True
  with g ok show ?thesis by (auto simp: grow_ary_def Let_def ids_okD(1) split: if_splits)
next
  case False
  let ?n = "if n > IPCMNI then IPCMNI else n"
  note d = ids_okD [OF ok]
  have big: "int (length (entries ids)) < ?n" "?n \<le> IPCMNI" using False d(1) by auto
  have r: "n' = ?n" "ids' = ids\<lparr>entries := entries ids @ replicate (nat (?n - ids_size ids)) None,
                                 ids_size := ?n\<rparr>"
    using g False d(1) by (auto simp: grow_ary_def Let_def)
  have s: "slot ids' = slot ids" by (auto simp: r(2) slot_def fun_eq_iff nth_append)
  have len: "int (length (entries ids')) = ?n" using big d(1) by (simp add: r(2))
  have "ids_ok ids'" unfolding ids_ok_def s
    using d big len by (auto simp: r(2) simp del: of_nat_add)
  with s len r big d(1) show ?thesis by simp
qed

lemma first_free_cases:
  assumes "\<forall>i\<in>set is. 0 \<le> i \<and> nat i < length (entries ids)"
  shows "(first_free ids is = Some (-1) \<and> (\<forall>i\<in>set is. slot ids (nat i) \<noteq> None)) \<or>
         (\<exists>i\<in>set is. first_free ids is = Some i \<and> slot ids (nat i) = None)"
  using assms by (induction "is") (auto simp: entry_slot)

text \<open>The outcome of \<open>ipc_addid\<close>: no free slot below the limit, or the new object in one of them.\<close>

lemma ipc_addid_cases:
  assumes ok: "ids_ok ids" and g: "grow_ary mem ids n = (n', ids0)"
  shows "(ipc_addid current mem ids p new n = Some (-1, ids0, new) \<and>
          (\<forall>i. int i < n' \<longrightarrow> slot ids i \<noteq> None)) \<or>
         (\<exists>i ids' new'. ipc_addid current mem ids p new n = Some (int i, ids', new') \<and>
            int i < n' \<and> i < 32768 \<and> slot ids i = None \<and> slot ids' = (slot ids)(i := Some p) \<and>
            entries ids' = (entries ids0)[i := Some p] \<and> i < length (entries ids0) \<and>
            ids_size ids' = ids_size ids0 \<and> in_use ids' = in_use ids0 + 1 \<and>
            max_id ids' = max (max_id ids0) (int i) \<and> seq_max ids' = seq_max ids0 \<and>
            new' = new\<lparr>p_cuid := euid current, p_uid := euid current, p_gid := egid current,
                       p_cgid := egid current, p_seq := ucast (ids_seq ids)\<rparr>)"
proof -
  note g' = grow_ary_ok [OF ok g]
  have "\<forall>i\<in>set [0..n' - 1]. 0 \<le> i \<and> nat i < length (entries ids0)" using g' by auto
  from first_free_cases [OF this] show ?thesis
  proof
    assume f: "first_free ids0 [0..n' - 1] = Some (-1) \<and> (\<forall>i\<in>set [0..n' - 1]. slot ids0 (nat i) \<noteq> None)"
    then have "ipc_addid current mem ids p new n = Some (-1, ids0, new)"
      by (simp add: ipc_addid_def g)
    moreover have "\<forall>i. int i < n' \<longrightarrow> slot ids i \<noteq> None"
    proof (intro allI impI)
      fix i assume "int i < n'"
      then have "int i \<in> set [0..n' - 1]" by simp
      with f g' show "slot ids i \<noteq> None" by (metis nat_int)
    qed
    ultimately show ?thesis by simp
  next
    assume "\<exists>i\<in>set [0..n' - 1]. first_free ids0 [0..n' - 1] = Some i \<and> slot ids0 (nat i) = None"
    then obtain i where i: "0 \<le> i" "i < n'" "first_free ids0 [0..n' - 1] = Some i"
      "slot ids0 (nat i) = None" by auto
    have len: "nat i < length (entries ids0)" "length (entries ids0) \<le> 32768"
      using i(1,2) g' ids_okD(2) [of ids0] by auto
    obtain ids' new' where r: "ipc_addid current mem ids p new n = Some (i, ids', new')"
        "entries ids' = (entries ids0)[nat i := Some p]" "ids_size ids' = ids_size ids0"
        "in_use ids' = in_use ids0 + 1" "max_id ids' = max (max_id ids0) i" "seq_max ids' = seq_max ids0"
        "new' = new\<lparr>p_cuid := euid current, p_uid := euid current, p_gid := egid current,
                    p_cgid := egid current, p_seq := ucast (ids_seq ids0)\<rparr>"
      using i(1,3) by (simp add: ipc_addid_def g Let_def max_def split: if_splits)
    have "slot ids' = (slot ids0)(nat i := Some p)"
      using r(2) len by (auto simp: slot_def fun_eq_iff)
    with r i len g' show ?thesis
      by (intro disjI2 exI [of _ "nat i"] exI [of _ ids'] exI [of _ new']) simp
  qed
qed

definition ipc_added :: "ipc_ids \<Rightarrow> ptr \<Rightarrow> nat \<Rightarrow> ipc_ids \<Rightarrow> bool" where
  "ipc_added ids p i ids' \<longleftrightarrow>
     (\<exists>current mem new n new'. ipc_addid current mem ids p new n = Some (int i, ids', new'))"

definition ipc_removed :: "ipc_ids \<Rightarrow> int \<Rightarrow> ptr \<Rightarrow> ipc_ids \<Rightarrow> bool" where
  "ipc_removed ids i p ids' \<longleftrightarrow> ipc_rmid ids i = Some (p, ids')"

lemma ipc_added_slot:
  assumes ok: "ids_ok ids" and a: "ipc_added ids p i ids'"
  shows "i < 32768 \<and> slot ids i = None \<and> slot ids' = (slot ids)(i := Some p)"
proof -
  obtain current mem new n new' where a: "ipc_addid current mem ids p new n = Some (int i, ids', new')"
    using a by (auto simp: ipc_added_def)
  obtain n' ids0 where g: "grow_ary mem ids n = (n', ids0)" by (metis surj_pair)
  show ?thesis using ipc_addid_cases [OF ok g, of current p new] a by auto
qed

lemma ipc_added_ok:
  assumes ok: "ids_ok ids" and a: "ipc_added ids p i ids'" and fresh: "\<forall>j. slot ids j \<noteq> Some p"
  shows "ids_ok ids'"
proof -
  obtain current mem new n new' where a: "ipc_addid current mem ids p new n = Some (int i, ids', new')"
    using a by (auto simp: ipc_added_def)
  obtain n' ids0 where g: "grow_ary mem ids n = (n', ids0)" by (metis surj_pair)
  note g' = grow_ary_ok [OF ok g] and d = ids_okD [OF conjunct1 [OF grow_ary_ok [OF ok g]]]
  from ipc_addid_cases [OF ok g, of current p new] a
  have r: "slot ids i = None" "slot ids' = (slot ids)(i := Some p)"
      "entries ids' = (entries ids0)[i := Some p]" "i < length (entries ids0)"
      "ids_size ids' = ids_size ids0" "in_use ids' = in_use ids0 + 1"
      "max_id ids' = max (max_id ids0) (int i)" "seq_max ids' = seq_max ids0" by auto
  have s0: "slot ids0 = slot ids" using g' by simp
  have "entries ids0 ! i = None" using r(1,4) s0 by (metis slot_def)
  then have "length (filter (\<lambda>e. e \<noteq> None) (entries ids')) = Suc (length (filter (\<lambda>e. e \<noteq> None) (entries ids0)))"
    using length_filter_update [OF r(4), of "\<lambda>e. e \<noteq> None" "Some p"] by (simp add: r(3))
  moreover have "slot ids' (nat (max_id ids')) \<noteq> None"
    using d(4,6,7) r(1,2,7) s0 by (auto simp: max_def)
  moreover have "\<forall>j. int j > max_id ids' \<longrightarrow> slot ids' j = None"
    using d(6) r(2,7) s0 by auto
  moreover have "\<forall>j k q. slot ids' j = Some q \<longrightarrow> slot ids' k = Some q \<longrightarrow> j = k"
    using d(8) r(2) s0 fresh by (auto split: if_splits)
  ultimately show ?thesis unfolding ids_ok_def
    using d(1-5,9) r(3-8) by (simp add: IPCMNI_def)
qed

lemma last_used_spec:
  assumes "n \<le> length (entries ids)"
  shows "\<exists>m. last_used ids n = Some m \<and> -1 \<le> m \<and> m < int n \<and>
             (\<forall>i<n. int i > m \<longrightarrow> slot ids i = None) \<and> (0 \<le> m \<longrightarrow> slot ids (nat m) \<noteq> None)"
  using assms
proof (induction n)
  case (Suc n)
  then have e: "entry ids (int n) = Some (slot ids n)" by (simp add: entry_slot)
  show ?case
  proof (cases "slot ids n")
    case None
    with Suc e show ?thesis by (force simp: less_Suc_eq)
  next
    case (Some p)
    with e show ?thesis by (intro exI [of _ "int n"]) auto
  qed
qed simp

lemma ipc_rmid_spec:
  assumes ok: "ids_ok ids" and n: "0 \<le> n" and p: "slot ids (nat (n mod 32768)) = Some p"
  shows "\<exists>ids'. ipc_rmid ids n = Some (p, ids') \<and> ids_ok ids' \<and>
                slot ids' = (slot ids)(nat (n mod 32768) := None) \<and> ids_seq ids' = ids_seq ids"
proof -
  let ?l = "nat (n mod 32768)"
  note d = ids_okD [OF ok]
  define ids1 where "ids1 = ids\<lparr>entries := (entries ids)[?l := None], in_use := in_use ids - 1\<rparr>"
  have l: "?l < length (entries ids)" using p by (rule slot_in_range)
  then have l': "n mod 32768 < int (length (entries ids))" using n by (simp add: nat_less_iff)
  have s1: "slot ids1 = (slot ids)(?l := None)"
    using slot_entries_update [OF l] by (simp add: ids1_def)
  have "entries ids ! ?l \<noteq> None" using p l by (simp add: slot_def)
  then have cnt: "int (length (filter (\<lambda>e. e \<noteq> None) (entries ids1))) = in_use ids1"
    using length_filter_update [OF l, of "\<lambda>e. e \<noteq> None" None] d(3) by (simp add: ids1_def)
  have inj: "i = j" if "slot ids1 i = Some q" "slot ids1 j = Some q" for i j q
    using d(8) [of i q j] that by (simp add: s1 split: if_splits)
  have len1: "length (entries ids1) = length (entries ids)" by (simp add: ids1_def)
  have f1: "ids_size ids1 = ids_size ids" "max_id ids1 = max_id ids" "seq_max ids1 = seq_max ids"
    by (simp_all add: ids1_def)
  have rm: "ipc_rmid ids n =
      (if n mod 32768 = max_id ids
       then do { m \<leftarrow> last_used ids1 ?l; Some (p, ids1\<lparr>max_id := m\<rparr>) } else Some (p, ids1))"
    using n l' d(1) p
    by (simp add: ipc_rmid_def Let_def SEQ_MULTIPLIER_def IPCMNI_def smod_nonneg entry_slot l ids1_def)
  show ?thesis
  proof (cases "n mod 32768 = max_id ids")
    case True
    have "?l \<le> length (entries ids1)" using l by (simp add: ids1_def)
    from last_used_spec [OF this] obtain m where m: "last_used ids1 ?l = Some m" "-1 \<le> m" "m < int ?l"
      "\<forall>i<?l. int i > m \<longrightarrow> slot ids1 i = None" "0 \<le> m \<longrightarrow> slot ids1 (nat m) \<noteq> None" by auto
    have "slot ids1 i = None" if "int i > m" for i
    proof (cases "i < ?l")
      case True with m(4) that show ?thesis by simp
    next
      case False
      then show ?thesis using d(6) [of i] True n by (cases "i = ?l") (auto simp: s1)
    qed
    moreover have "m < int (length (entries ids))" using m(3) l by simp
    ultimately have "ids_ok (ids1\<lparr>max_id := m\<rparr>)"
      using m(2,5) inj cnt d(1,2,9) by (intro ids_okI) (simp_all add: len1 f1)
    with rm m(1) s1 True show ?thesis by (simp add: ids1_def)
  next
    case False
    have "ids_ok ids1"
    proof (rule ids_okI)
      show "slot ids1 i = None" if "max_id ids1 < int i" for i
        using d(6) that by (simp add: s1 f1)
      show "slot ids1 (nat (max_id ids1)) \<noteq> None" if "0 \<le> max_id ids1"
        using d(7) that False n by (simp add: s1 f1 eq_nat_nat_iff)
    qed (use inj cnt d(1,2,4,5,9) in \<open>simp_all add: len1 f1\<close>)
    with rm s1 False show ?thesis by (simp add: ids1_def)
  qed
qed

lemma ipc_rmid_found:
  assumes ok: "ids_ok ids" and n: "0 \<le> n" and r: "ipc_rmid ids n = Some (p, ids')"
  shows "slot ids (nat (n mod 32768)) = Some p"
proof -
  have "entry ids (n mod 32768) = Some (slot ids (nat (n mod 32768)))"
    if "n mod 32768 < ids_size ids"
    using that n ids_okD(1) [OF ok] by (simp add: entry_slot nat_less_iff)
  with r n show ?thesis
    by (auto simp: ipc_rmid_def Let_def SEQ_MULTIPLIER_def IPCMNI_def smod_nonneg
        split: if_splits bind_splits)
qed

interpretation it: id_table ids_ok slot ipc_lock ipc_added ipc_removed
proof unfold_locales
  fix ids :: ipc_ids and n p i j ids'
  show "ids_ok ids \<Longrightarrow> 0 \<le> n \<Longrightarrow> ipc_lock ids n = Some (slot ids (nat (n mod 32768)))"
    by (rule ipc_lock_slot)
  show "ids_ok ids \<Longrightarrow> slot ids i = Some p \<Longrightarrow> slot ids j = Some p \<Longrightarrow> i = j"
    by (rule ids_okD(8))
  show "ids_ok ids \<Longrightarrow> ipc_added ids p i ids' \<Longrightarrow>
        i < 32768 \<and> slot ids i = None \<and> slot ids' = (slot ids)(i := Some p)"
    by (rule ipc_added_slot)
  show "ids_ok ids \<Longrightarrow> ipc_added ids p i ids' \<Longrightarrow> \<forall>j. slot ids j \<noteq> Some p \<Longrightarrow> ids_ok ids'"
    by (rule ipc_added_ok)
  show "slot ids (nat (n mod 32768)) = Some p \<and> slot ids' = (slot ids)(nat (n mod 32768) := None)"
    if "ids_ok ids" "0 \<le> n" "ipc_removed ids n p ids'"
    using ipc_rmid_found [OF that(1,2)] ipc_rmid_spec [OF that(1,2)] that(3)
    by (fastforce simp: ipc_removed_def)
  show "ids_ok ids'" if "ids_ok ids" "0 \<le> n" "ipc_removed ids n p ids'"
    using ipc_rmid_found [OF that(1,2)] ipc_rmid_spec [OF that(1,2)] that(3)
    by (fastforce simp: ipc_removed_def)
qed

section \<open>Identifiers, keys and permissions\<close>

lemma small_seq:
  assumes "unat (q :: ulong) < 65536"
  shows "sint q = uint q" "0 \<le> uint q" "uint q < 65536"
proof -
  have "int (unat q) < int 65536" using assms by (subst of_nat_less_iff)
  then show u: "uint q < 65536" by simp
  show "0 \<le> uint q" by simp
  then have "-2147483648 \<le> uint q" "uint q < 2147483648" using u by linarith+
  then show "sint q = uint q" using s32_id by (simp add: sint_uint s32_def)
qed

lemma buildid:
  assumes "i < 32768" "unat (q :: ulong) < 65536"
  shows "ipc_buildid (int i) (sint q) = 32768 * uint q + int i"
    and "0 \<le> ipc_buildid (int i) (sint q)"
    and "ipc_buildid (int i) (sint q) mod 32768 = int i"
    and "ipc_buildid (int i) (sint q) div 32768 = uint q"
proof -
  note q = small_seq [OF assms(2)]
  have "32768 * uint q + int i < 2147483648" "-2147483648 \<le> 32768 * uint q + int i"
    using q assms(1) by linarith+
  then show e: "ipc_buildid (int i) (sint q) = 32768 * uint q + int i"
    by (simp add: ipc_buildid_def SEQ_MULTIPLIER_def IPCMNI_def q(1) s32_id)
  show "0 \<le> ipc_buildid (int i) (sint q)" "ipc_buildid (int i) (sint q) mod 32768 = int i"
    "ipc_buildid (int i) (sint q) div 32768 = uint q"
    using assms(1) by (simp_all add: e)
qed

lemma checkid:
  assumes "0 \<le> n" "n < 2 ^ 31"
  shows "ipc_checkid perm n \<longleftrightarrow> n div 32768 \<noteq> uint (p_seq perm)"
proof -
  have "0 \<le> n div 32768" "n div 32768 < 2 ^ 32" using assms by simp_all
  then have "uint (word_of_int (n div 32768) :: ulong) = n div 32768"
    by (simp add: uint_word_of_int)
  then show ?thesis
    using assms by (simp add: ipc_checkid_def SEQ_MULTIPLIER_def IPCMNI_def sdiv_nonneg)
      (metis word_of_int_uint)
qed

lemma addid_new_seq:
  assumes "ids_ok ids" "ipc_addid current mem ids p new n = Some (i, ids', new')" "i \<noteq> -1"
  shows "0 \<le> i" "i < 32768" "ipc_added ids p (nat i) ids'"
    "new' = new\<lparr>p_cuid := euid current, p_uid := euid current, p_gid := egid current,
                p_cgid := egid current, p_seq := ucast (ids_seq ids)\<rparr>"
    "unat (p_seq new') < 65536"
proof -
  obtain n' ids0 where g: "grow_ary mem ids n = (n', ids0)" by (metis surj_pair)
  from ipc_addid_cases [OF assms(1) g, of current p new] assms(2,3)
  show r: "0 \<le> i" "i < 32768" and n: "new' = new\<lparr>p_cuid := euid current, p_uid := euid current,
      p_gid := egid current, p_cgid := egid current, p_seq := ucast (ids_seq ids)\<rparr>" by auto
  show "ipc_added ids p (nat i) ids'" using assms(2) r(1) unfolding ipc_added_def by (simp, blast)
  show "unat (p_seq new') < 65536" using unsigned_less [where 'a = nat, of "ids_seq ids"] by (simp add: n unsigned_ucast_eq take_bit_nat_eq_self)
qed

text \<open>C26. Creating an object puts it under a number that \<open>ipc_lock\<close> finds it by and
  \<open>ipc_checkid\<close> accepts, leaves every other number as it was, keeps the table well formed, and
  removing the number gives the object back and restores all slots.\<close>

theorem ipc_addid_round_trip:
  assumes ok: "ids_ok ids" and fresh: "\<forall>j. slot ids j \<noteq> Some p"
    and add: "ipc_addid current mem ids p new n = Some (i, ids', new')" and i: "i \<noteq> -1"
  shows "\<exists>ids''. 0 \<le> ipc_buildid i (sint (p_seq new')) \<and>
     ipc_lock ids' (ipc_buildid i (sint (p_seq new'))) = Some (Some p) \<and>
     \<not> ipc_checkid new' (ipc_buildid i (sint (p_seq new'))) \<and>
     (\<forall>m\<ge>0. m mod 32768 \<noteq> i \<longrightarrow> ipc_lock ids' m = ipc_lock ids m) \<and> ids_ok ids' \<and>
     ipc_rmid ids' (ipc_buildid i (sint (p_seq new'))) = Some (p, ids'') \<and>
     ids_ok ids'' \<and> slot ids'' = slot ids"
proof -
  note a = addid_new_seq [OF ok add i]
  have i': "nat i < 32768" "int (nat i) = i" using a(1,2) by auto
  note b = buildid [OF i'(1) a(5), unfolded i'(2)]
  let ?id = "ipc_buildid i (sint (p_seq new'))"
  have s: "slot ids (nat i) = None" "slot ids' = (slot ids)(nat i := Some p)"
    using it.added_slot [OF ok a(3)] by auto
  have ok': "ids_ok ids'" by (rule it.added_ok [OF ok a(3) fresh])
  have "?id < 2 ^ 31" using b(1) small_seq(3) [OF a(5)] a(2) by simp
  then have c: "\<not> ipc_checkid new' ?id" using checkid [OF b(2)] b(4) by simp
  have "slot ids' (nat (?id mod 32768)) = Some p" using b(3) s(2) by simp
  from ipc_rmid_spec [OF ok' b(2) this] obtain ids'' where
    r: "ipc_rmid ids' ?id = Some (p, ids'')" "ids_ok ids''" "slot ids'' = (slot ids')(nat i := None)"
    using b(3) by auto
  have "slot ids'' = slot ids" using r(3) s by (simp add: fun_eq_iff)
  moreover have "ipc_lock ids' m = ipc_lock ids m" if "0 \<le> m" "m mod 32768 \<noteq> i" for m
    using it.lock_added [OF ok a(3) fresh that(1)] that a(1) by (simp add: eq_nat_nat_iff)
  moreover have "ipc_lock ids' ?id = Some (Some p)"
    using it.lock_added [OF ok a(3) fresh b(2)] b(3) by simp
  ultimately show ?thesis using b(2) c ok' r by blast
qed

text \<open>A table of two slots whose first is in use.\<close>

definition two_slots :: ipc_ids where
  "two_slots = \<lparr>ids_size = 2, in_use = 1, max_id = 0, ids_seq = 7, seq_max = 65535,
                entries = [Some 100, None]\<rparr>"

definition some_perm :: kern_ipc_perm where
  "some_perm = \<lparr>p_key = 5, p_uid = 0, p_gid = 0, p_cuid = 0, p_cgid = 0, p_mode = 416, p_seq = 6\<rparr>"

definition some_task :: task_cred where
  "some_task = \<lparr>pid = 42, euid = 10, egid = 20, fsgid = 20, groups = [0], cap_effective = 0\<rparr>"

lemma two_slots_ok: "ids_ok two_slots"
  by (rule ids_okI) (auto simp: two_slots_def slot_def less_Suc_eq nth_Cons split: if_splits nat.splits)

theorem ipc_addid_round_trip_witness:
  "\<exists>ids' ids'' new'. ipc_addid some_task True two_slots 200 some_perm 2 = Some (1, ids', new') \<and>
     ipc_lock ids' 229377 = Some (Some 200) \<and> ipc_rmid ids' 229377 = Some (200, ids'')"
proof -
  obtain ids' new' where r: "ipc_addid some_task True two_slots 200 some_perm 2 = Some (1, ids', new')"
      "p_seq new' = 7"
    by (simp add: ipc_addid_def grow_ary_def Let_def two_slots_def IPCMNI_def entry_def
        upto.simps [of 0 1] some_perm_def some_task_def)
  have fresh: "\<forall>j. slot two_slots j \<noteq> Some 200"
    by (auto simp: slot_def two_slots_def nth_Cons split: nat.splits)
  have "ipc_buildid 1 (sint (p_seq new')) = 229377"
    by (simp add: r(2) ipc_buildid_def SEQ_MULTIPLIER_def IPCMNI_def s32_def)
  with ipc_addid_round_trip [OF two_slots_ok fresh r(1)] r(1) show ?thesis by auto
qed

lemma find_key_cases:
  assumes "\<forall>i\<in>set is. 0 \<le> i \<and> nat i < length (entries ids)"
    and "\<forall>i p. slot ids i = Some p \<longrightarrow> perm p \<noteq> None" and "sorted is"
  shows "(find_key perm ids key is = Some (-1) \<and>
            (\<forall>i\<in>set is. \<forall>p q. slot ids (nat i) = Some p \<longrightarrow> perm p = Some q \<longrightarrow> p_key q \<noteq> key)) \<or>
         (\<exists>i p q. i \<in> set is \<and> find_key perm ids key is = Some i \<and> slot ids (nat i) = Some p \<and>
            perm p = Some q \<and> p_key q = key \<and>
            (\<forall>j\<in>set is. j < i \<longrightarrow> (\<forall>p q. slot ids (nat j) = Some p \<longrightarrow> perm p = Some q \<longrightarrow> p_key q \<noteq> key)))"
  using assms
proof (induction "is")
  case (Cons i "is")
  then have e: "entry ids i = Some (slot ids (nat i))" by (simp add: entry_slot)
  have ge: "\<forall>j\<in>set is. i \<le> j" using Cons.prems(3) by simp
  show ?case
  proof (cases "\<exists>p q. slot ids (nat i) = Some p \<and> perm p = Some q \<and> p_key q = key")
    case True
    with e ge have "find_key perm ids key (i # is) = Some i" by auto
    with True ge show ?thesis by (intro disjI2) fastforce
  next
    case False
    then have "find_key perm ids key (i # is) = find_key perm ids key is"
      using e Cons.prems(2) [rule_format, of "nat i"] by (cases "slot ids (nat i)") auto
    moreover note Cons.IH [OF _ Cons.prems(2)]
    ultimately show ?thesis using Cons.prems(1,3) False by auto
  qed
qed simp

lemma findkey_live:
  assumes ok: "ids_ok ids" and live: "\<forall>i p. slot ids i = Some p \<longrightarrow> perm p \<noteq> None"
  shows "\<exists>r. ipc_findkey perm ids key = Some r \<and>
             (r \<noteq> -1 \<longrightarrow> 0 \<le> r \<and> r < 32768 \<and> (\<exists>p. slot ids (nat r) = Some p))"
proof -
  note d = ids_okD [OF ok]
  have "\<forall>i\<in>set [0..max_id ids]. 0 \<le> i \<and> nat i < length (entries ids)" using d(5) by auto
  from find_key_cases [OF this live sorted_upto, of key] show ?thesis
  proof (elim disjE exE conjE)
    fix i p q assume i: "i \<in> set [0..max_id ids]" "find_key perm ids key [0..max_id ids] = Some i" "slot ids (nat i) = Some p"
    then have "0 \<le> i" "i < 32768" using d(2,5) by auto
    with i show ?thesis by (auto simp: ipc_findkey_def)
  qed (simp_all add: ipc_findkey_def)
qed

text \<open>C27. \<open>ipc_findkey\<close> returns the lowest slot whose object has the key, and \<open>-1\<close> exactly when
  no object in the whole table has it, although it stops at \<open>max_id\<close>; it never reads an
  invalid object.\<close>

theorem ipc_findkey_first:
  assumes ok: "ids_ok ids" and live: "\<forall>i p. slot ids i = Some p \<longrightarrow> perm p \<noteq> None"
  shows "\<exists>r. ipc_findkey perm ids key = Some r \<and>
     (r = -1 \<longrightarrow> (\<forall>i p q. slot ids i = Some p \<longrightarrow> perm p = Some q \<longrightarrow> p_key q \<noteq> key)) \<and>
     (r \<noteq> -1 \<longrightarrow> 0 \<le> r \<and> (\<exists>p q. slot ids (nat r) = Some p \<and> perm p = Some q \<and> p_key q = key) \<and>
        (\<forall>j p q. int j < r \<longrightarrow> slot ids j = Some p \<longrightarrow> perm p = Some q \<longrightarrow> p_key q \<noteq> key))"
proof -
  note d = ids_okD [OF ok]
  have up: "int j \<in> set [0..max_id ids]" if "slot ids j = Some p" for j p
    using d(6) [of j] that by (cases "int j > max_id ids") auto
  have "\<forall>i\<in>set [0..max_id ids]. 0 \<le> i \<and> nat i < length (entries ids)" using d(5) by auto
  from find_key_cases [OF this live sorted_upto, of key] show ?thesis
  proof (elim disjE exE conjE)
    assume f: "find_key perm ids key [0..max_id ids] = Some (-1)"
      and n: "\<forall>i\<in>set [0..max_id ids]. \<forall>p q. slot ids (nat i) = Some p \<longrightarrow> perm p = Some q \<longrightarrow> p_key q \<noteq> key"
    have "p_key q \<noteq> key" if "slot ids j = Some p" "perm p = Some q" for j p q
      using n up [OF that(1)] that by (metis nat_int)
    with f show ?thesis unfolding ipc_findkey_def by auto
  next
    fix i p q assume i: "i \<in> set [0..max_id ids]" "find_key perm ids key [0..max_id ids] = Some i"
      "slot ids (nat i) = Some p" "perm p = Some q" "p_key q = key"
      and l: "\<forall>j\<in>set [0..max_id ids]. j < i \<longrightarrow>
                (\<forall>p q. slot ids (nat j) = Some p \<longrightarrow> perm p = Some q \<longrightarrow> p_key q \<noteq> key)"
    have "p_key q' \<noteq> key" if "int j < i" "slot ids j = Some p'" "perm p' = Some q'" for j p' q'
      using l up [OF that(2)] that by (metis nat_int)
    with i show ?thesis unfolding ipc_findkey_def by (intro exI [of _ i]) auto
  qed
qed

theorem ipc_findkey_first_witness:
  "\<exists>r. ipc_findkey [100 \<mapsto> some_perm] two_slots 5 = Some r \<and> (r \<noteq> -1 \<longrightarrow> 0 \<le> r)"
proof -
  have "\<forall>i p. slot two_slots i = Some p \<longrightarrow> [100 \<mapsto> some_perm] p \<noteq> None"
    by (auto simp: slot_def two_slots_def nth_Cons split: if_splits nat.splits)
  from ipc_findkey_first [OF two_slots_ok this, of 5] show ?thesis by blast
qed

text \<open>The class of bits of the mode that applies to a task: owner, group or others.\<close>

definition perm_class :: "task_cred \<Rightarrow> kern_ipc_perm \<Rightarrow> nat" where
  "perm_class current ipcp =
     (if euid current \<in> {p_cuid ipcp, p_uid ipcp} then 2
      else if \<exists>g\<in>{p_cgid ipcp, p_gid ipcp}. g = fsgid current \<or> g \<in> set (groups current) then 1
      else 0)"

lemma group_among_set: "group_among g gs \<longleftrightarrow> g \<in> set gs"
  by (induction gs) auto

lemma and_7_iff: "(k :: int) AND 7 \<noteq> 0 \<longleftrightarrow> (\<exists>b<3. bit k b)"
proof -
  have "(7 :: int) = mask 3" by (simp add: mask_eq_exp_minus_1)
  then have "k AND 7 = take_bit 3 k" by (simp add: take_bit_eq_mask)
  then show ?thesis by (auto simp: bit_eq_iff bit_take_bit_iff)
qed

text \<open>C28. \<open>ipcperms\<close> grants a request exactly when the task has the capability or every
  permission asked for in any of the three classes is set in the class of the mode that applies to
  the task.\<close>

theorem ipcperms_class:
  "ipcperms current ipcp flag = 0 \<longleftrightarrow>
     bit (cap_effective current) CAP_IPC_OWNER \<or>
     (\<forall>b\<in>{0..<3}. bit flag b \<or> bit flag (b + 3) \<or> bit flag (b + 6) \<longrightarrow>
        bit (p_mode ipcp) (b + 3 * perm_class current ipcp))"
proof -
  have cap: "capable current CAP_IPC_OWNER \<longleftrightarrow> bit (cap_effective current) CAP_IPC_OWNER"
    by (simp add: capable_def cap_raised_def bit_iff_and_push_bit_not_eq_0)
  let ?g = "drop_bit (3 * perm_class current ipcp) (uint (p_mode ipcp))"
  have "ipcperms current ipcp flag = 0 \<longleftrightarrow> capable current CAP_IPC_OWNER \<or>
          \<not> ((drop_bit 6 flag OR drop_bit 3 flag OR flag) AND NOT ?g AND 7 \<noteq> 0)"
    by (auto simp: ipcperms_def Let_def perm_class_def in_group_p_def supplemental_group_member_def
        group_among_set)
  also have "\<dots> \<longleftrightarrow> capable current CAP_IPC_OWNER \<or>
      \<not> (\<exists>b<3. bit ((drop_bit 6 flag OR drop_bit 3 flag OR flag) AND NOT ?g) b)"
    by (simp add: and_7_iff and.assoc flip: and_7_iff)
  finally show ?thesis
    unfolding cap by (auto simp: bit_simps bit_uint_iff ac_simps)
qed

theorem ipcperms_class_witness:
  "ipcperms some_task some_perm S_IRUGO = 0 \<and> ipcperms some_task some_perm S_IWUGO \<noteq> 0"
  using ipcperms_class [of some_task some_perm S_IRUGO] ipcperms_class [of some_task some_perm S_IWUGO]
  by (simp add: some_task_def some_perm_def perm_class_def S_IRUGO_def S_IWUGO_def CAP_IPC_OWNER_def
      atLeast0_lessThan_Suc numeral_3_eq_3 bit_iff_odd)

end
