(* ===== verification/Sem.thy ===== *)
theory Sem
  imports IpcUtil
begin

text \<open>
  System V semaphores, ipc/sem.c. A set of semaphores (\<open>struct sem_array\<close>) and an undo
  structure live at addresses of two stores; reading a freed address fails (\<open>None\<close>), as do
  \<open>BUG()\<close>, \<open>NULL\<close> and an index outside an array. The structure \<open>sem_queue\<close> of a sleeping task
  is on its stack and is found under the task. The lists of pending operations and of undo
  structures are lists of tasks and of addresses.

  All code between taking and releasing the lock of the table is one atomic section, a
  function of the state \<open>sem_sys\<close>. Where a system call gives the lock up (to allocate memory,
  to copy from user space, to sleep) its section ends with \<open>Wait\<close> and what the call still has
  to do, and a second function continues it. The results of allocations and of copies from and
  to user space are arguments.
\<close>

section \<open>Data\<close>

record sembuf =
  sem_num :: u16
  sem_op :: "16 word"
  sem_flg :: u16

record sem =
  semval :: int
  sempid :: int

record sem_array =
  sem_perm :: kern_ipc_perm
  sem_otime :: int
  sem_ctime :: int
  sem_base :: "sem list"
  sem_pending :: "task list"
  sma_undo :: "ptr list"
  sem_nsems :: nat

text \<open>\<open>q_prev\<close> says that the field \<open>prev\<close> is not \<open>NULL\<close>, the mark of a queued entry.\<close>

record sem_queue =
  q_prev :: bool
  q_undo :: "ptr option"
  q_pid :: int
  q_status :: int
  q_sma :: ptr
  q_id :: int
  q_sops :: "sembuf list"
  q_alter :: bool

record sem_undo =
  un_semid :: int
  semadj :: "int list"

record sem_sys =
  sem_ids :: ipc_ids
  sc_semmsl :: int
  sc_semmns :: int
  sc_semopm :: int
  sc_semmni :: int
  used_sems :: int
  semas :: "ptr \<rightharpoonup> sem_array"
  undos :: "ptr \<rightharpoonup> sem_undo"
  semundo :: "task \<Rightarrow> ptr list"
  semsleeping :: "task \<Rightarrow> bool"
  queues :: "task \<rightharpoonup> sem_queue"
  tsk_state :: "task \<Rightarrow> task_state"
  creds :: "task \<Rightarrow> task_cred"
  overflowuid :: int
  overflowgid :: int
  current_time :: int

definition SEM_UNDO :: u16 where "SEM_UNDO = 4096"
definition SEMMNI :: int where "SEMMNI = 128"
definition SEMMSL :: int where "SEMMSL = 250"
definition SEMMNS :: int where "SEMMNS = SEMMNI * SEMMSL"
definition SEMOPM :: int where "SEMOPM = 32"
definition SEMVMX :: int where "SEMVMX = 32767"
definition SEMAEM :: int where "SEMAEM = SEMVMX"
definition SEMUME :: int where "SEMUME = SEMOPM"
definition SEMMNU :: int where "SEMMNU = SEMMNS"
definition SEMMAP :: int where "SEMMAP = SEMMNS"
definition SEMUSZ :: int where "SEMUSZ = 20"
definition SEMMSL_FAST :: nat where "SEMMSL_FAST = 256"
definition SEMOPM_FAST :: nat where "SEMOPM_FAST = 64"
definition GETPID :: u32 where "GETPID = 11"
definition GETVAL :: u32 where "GETVAL = 12"
definition GETALL :: u32 where "GETALL = 13"
definition GETNCNT :: u32 where "GETNCNT = 14"
definition GETZCNT :: u32 where "GETZCNT = 15"
definition SETVAL :: u32 where "SETVAL = 16"
definition SETALL :: u32 where "SETALL = 17"
definition SEM_STAT :: u32 where "SEM_STAT = 18"
definition SEM_INFO :: u32 where "SEM_INFO = 19"

section \<open>One operation array\<close>

definition wants_undo :: "sembuf \<Rightarrow> bool" where
  "wants_undo sop \<longleftrightarrow> sem_flg sop AND SEM_UNDO \<noteq> 0"

definition nowait :: "sembuf \<Rightarrow> bool" where
  "nowait sop \<longleftrightarrow> sem_flg sop AND ucast IPC_NOWAIT \<noteq> 0"

text \<open>How the loop over the operations is left.\<close>

datatype semop_exit = All_done | Would_block | Out_of_range

text \<open>
  The loop: \<open>prev\<close> holds the operations up to and including the current one, the latest
  first; the argument \<open>adj\<close> is \<open>un->semadj\<close>, or \<open>None\<close> when \<open>un\<close> is \<open>NULL\<close>.
\<close>

fun semop_loop ::
  "int \<Rightarrow> sembuf list \<Rightarrow> sembuf list \<Rightarrow> sem list \<Rightarrow> int list option \<Rightarrow>
   (semop_exit \<times> sembuf list \<times> sembuf list \<times> sem list \<times> int list option) option"
where
  "semop_loop cpid prev [] base adj = Some (All_done, prev, [], base, adj)"
| "semop_loop cpid prev (sop # sops) base adj =
     (let n = unat (sem_num sop); v = sint (sem_op sop) in
      if n \<ge> length base then None
      else let c = base ! n in
      if v = 0 \<and> semval c \<noteq> 0 then Some (Would_block, sop # prev, sops, base, adj)
      else
        let c = c\<lparr>sempid := s32 (push_bit 16 (sempid c)) OR cpid\<rparr>;
            c = c\<lparr>semval := s32 (semval c + v)\<rparr>;
            base = base[n := c];
            check = (\<lambda>adj. if semval c < 0 then Some (Would_block, sop # prev, sops, base, adj)
                           else if semval c > SEMVMX
                           then Some (Out_of_range, sop # prev, sops, base, adj)
                           else semop_loop cpid (sop # prev) sops base adj)
        in if wants_undo sop
           then (case adj of
                   None \<Rightarrow> None
                 | Some a \<Rightarrow>
                     if n \<ge> length a then None
                     else let undo = a ! n - v in
                     if undo < - SEMAEM - 1 \<or> undo > SEMAEM
                     then let sop = sop\<lparr>sem_flg := sem_flg sop AND NOT SEM_UNDO\<rparr>
                          in Some (Out_of_range, sop # prev, sops, base, adj)
                     else check (Some (a[n := undo])))
           else check adj)"

text \<open>The loop at the label \<open>undo\<close>, over the operations from the current one down.\<close>

fun undo_loop :: "sembuf list \<Rightarrow> sem list \<Rightarrow> int list option \<Rightarrow> (sem list \<times> int list option) option" where
  "undo_loop [] base adj = Some (base, adj)"
| "undo_loop (sop # prev) base adj =
     (let n = unat (sem_num sop); v = sint (sem_op sop) in
      if n \<ge> length base then None
      else
        let c = base ! n;
            c = c\<lparr>semval := s32 (semval c - v)\<rparr>;
            c = c\<lparr>sempid := drop_bit 16 (sempid c)\<rparr>;
            base = base[n := c]
        in if wants_undo sop
           then (case adj of
                   None \<Rightarrow> None
                 | Some a \<Rightarrow>
                     if n \<ge> length a then None
                     else undo_loop prev base (Some (a[n := s16 (a ! n + v)])))
           else undo_loop prev base adj)"

text \<open>
  The whole of \<open>try_atomic_semop\<close> on the two arrays: the result, the operations (a flag may
  have been cleared), the arrays, and whether \<open>sem_otime\<close> is set.
\<close>

definition try_semop ::
  "int \<Rightarrow> bool \<Rightarrow> sembuf list \<Rightarrow> sem list \<Rightarrow> int list option \<Rightarrow>
   (int \<times> sembuf list \<times> sem list \<times> int list option \<times> bool) option"
where
  "try_semop cpid do_undo sops base adj = do {
     (ex, prev, rest, base, adj) \<leftarrow> semop_loop cpid [] sops base adj;
     let sops = rev prev @ rest;
     if ex = All_done \<and> \<not> do_undo then Some (0, sops, base, adj, True)
     else do {
       let result = (case ex of
                       All_done \<Rightarrow> 0
                     | Out_of_range \<Rightarrow> - ERANGE
                     | Would_block \<Rightarrow> if nowait (hd prev) then - EAGAIN else 1);
       (base, adj) \<leftarrow> undo_loop prev base adj;
       Some (result, sops, base, adj, False) } }"

text \<open>The same on the stores.\<close>

definition get_adj :: "ptr option \<Rightarrow> sem_sys \<Rightarrow> int list option option" where
  "get_adj un s =
     (case un of None \<Rightarrow> Some None | Some u \<Rightarrow> do { x \<leftarrow> undos s u; Some (Some (semadj x)) })"

definition put_adj :: "ptr option \<Rightarrow> int list option \<Rightarrow> sem_sys \<Rightarrow> sem_sys" where
  "put_adj un adj s =
     (case (un, adj) of
        (Some u, Some a) \<Rightarrow>
          (case undos s u of
             None \<Rightarrow> s
           | Some x \<Rightarrow> s\<lparr>undos := (undos s)(u \<mapsto> x\<lparr>semadj := a\<rparr>)\<rparr>)
      | _ \<Rightarrow> s)"

definition try_atomic_semop ::
  "ptr \<Rightarrow> sembuf list \<Rightarrow> ptr option \<Rightarrow> int \<Rightarrow> bool \<Rightarrow> sem_sys \<Rightarrow> (int \<times> sembuf list \<times> sem_sys) option"
where
  "try_atomic_semop p sops un cpid do_undo s = do {
     sma \<leftarrow> semas s p;
     adj \<leftarrow> get_adj un s;
     (result, sops, base, adj, changed) \<leftarrow> try_semop cpid do_undo sops (sem_base sma) adj;
     let sma = sma\<lparr>sem_base := base\<rparr>;
     let sma = (if changed then sma\<lparr>sem_otime := current_time s\<rparr> else sma);
     let s = s\<lparr>semas := (semas s)(p \<mapsto> sma)\<rparr>;
     Some (result, sops, put_adj un adj s) }"

section \<open>The queue of pending operations\<close>

definition append_to_queue :: "ptr \<Rightarrow> task \<Rightarrow> sem_sys \<Rightarrow> sem_sys option" where
  "append_to_queue p t s = do {
     sma \<leftarrow> semas s p;
     q \<leftarrow> queues s t;
     Some (s\<lparr>semas := (semas s)(p \<mapsto> sma\<lparr>sem_pending := sem_pending sma @ [t]\<rparr>),
             queues := (queues s)(t \<mapsto> q\<lparr>q_prev := True\<rparr>)\<rparr>) }"

definition prepend_to_queue :: "ptr \<Rightarrow> task \<Rightarrow> sem_sys \<Rightarrow> sem_sys option" where
  "prepend_to_queue p t s = do {
     sma \<leftarrow> semas s p;
     q \<leftarrow> queues s t;
     Some (s\<lparr>semas := (semas s)(p \<mapsto> sma\<lparr>sem_pending := t # sem_pending sma\<rparr>),
             queues := (queues s)(t \<mapsto> q\<lparr>q_prev := True\<rparr>)\<rparr>) }"

definition remove_from_queue :: "ptr \<Rightarrow> task \<Rightarrow> sem_sys \<Rightarrow> sem_sys option" where
  "remove_from_queue p t s = do {
     sma \<leftarrow> semas s p;
     q \<leftarrow> queues s t;
     if \<not> q_prev q then None
     else Some (s\<lparr>semas := (semas s)(p \<mapsto> sma\<lparr>sem_pending := remove1 t (sem_pending sma)\<rparr>),
                  queues := (queues s)(t \<mapsto> q\<lparr>q_prev := False\<rparr>)\<rparr>) }"

definition wake_up_process :: "task \<Rightarrow> sem_sys \<Rightarrow> sem_sys" where
  "wake_up_process t s = s\<lparr>tsk_state := (tsk_state s)(t := TASK_RUNNING)\<rparr>"

definition put_queue :: "task \<Rightarrow> sem_queue \<Rightarrow> sem_sys \<Rightarrow> sem_sys" where
  "put_queue t q s = s\<lparr>queues := (queues s)(t \<mapsto> q)\<rparr>"

text \<open>The loop of \<open>update_queue\<close>; removing the current entry does not change what follows it.\<close>

fun update_loop :: "ptr \<Rightarrow> task list \<Rightarrow> sem_sys \<Rightarrow> sem_sys option" where
  "update_loop p [] s = Some s"
| "update_loop p (t # ts) s = do {
     q \<leftarrow> queues s t;
     if q_status q = 1 then update_loop p ts s
     else do {
       (error, sops, s) \<leftarrow> try_atomic_semop p (q_sops q) (q_undo q) (q_pid q) (q_alter q) s;
       let q = q\<lparr>q_sops := sops\<rparr>;
       let s = put_queue t q s;
       if error \<le> 0 then do {
         let s = wake_up_process t s;
         if error = 0 \<and> q_alter q then Some (put_queue t (q\<lparr>q_status := 1\<rparr>) s)
         else do {
           s \<leftarrow> remove_from_queue p t (put_queue t (q\<lparr>q_status := error\<rparr>) s);
           update_loop p ts s } }
       else update_loop p ts s } }"

definition update_queue :: "ptr \<Rightarrow> sem_sys \<Rightarrow> sem_sys option" where
  "update_queue p s = do { sma \<leftarrow> semas s p; update_loop p (sem_pending sma) s }"

fun count_ops :: "(sembuf \<Rightarrow> bool) \<Rightarrow> sembuf list \<Rightarrow> int" where
  "count_ops P [] = 0"
| "count_ops P (sop # sops) = (if P sop then 1 + count_ops P sops else count_ops P sops)"

fun count_pending :: "(sembuf \<Rightarrow> bool) \<Rightarrow> task list \<Rightarrow> sem_sys \<Rightarrow> int option" where
  "count_pending P [] s = Some 0"
| "count_pending P (t # ts) s = do {
     q \<leftarrow> queues s t; n \<leftarrow> count_pending P ts s; Some (count_ops P (q_sops q) + n) }"

definition count_semncnt :: "ptr \<Rightarrow> u16 \<Rightarrow> sem_sys \<Rightarrow> int option" where
  "count_semncnt p semnum s = do {
     sma \<leftarrow> semas s p;
     count_pending (\<lambda>sop. sem_num sop = semnum \<and> sint (sem_op sop) < 0 \<and> \<not> nowait sop)
       (sem_pending sma) s }"

definition count_semzcnt :: "ptr \<Rightarrow> u16 \<Rightarrow> sem_sys \<Rightarrow> int option" where
  "count_semzcnt p semnum s = do {
     sma \<leftarrow> semas s p;
     count_pending (\<lambda>sop. sem_num sop = semnum \<and> sint (sem_op sop) = 0 \<and> \<not> nowait sop)
       (sem_pending sma) s }"

section \<open>Creating and freeing a set\<close>

definition sem_lock :: "int \<Rightarrow> sem_sys \<Rightarrow> ptr option option" where
  "sem_lock semid s = ipc_lock (sem_ids s) semid"

definition sem_init :: "bool \<Rightarrow> sem_sys \<Rightarrow> sem_sys" where
  "sem_init mem s = s\<lparr>used_sems := 0, sem_ids := ipc_init_ids mem (sc_semmni s)\<rparr>"

definition zero_perm :: kern_ipc_perm where
  "zero_perm = \<lparr>p_key = 0, p_uid = 0, p_gid = 0, p_cuid = 0, p_cgid = 0, p_mode = 0, p_seq = 0\<rparr>"

text \<open>
  \<open>mem\<close> is the result of \<open>ipc_alloc\<close> for the set, \<open>grow\<close> whether the larger table can be
  allocated.
\<close>

definition newary ::
  "task \<Rightarrow> int \<Rightarrow> int \<Rightarrow> u32 \<Rightarrow> ptr option \<Rightarrow> bool \<Rightarrow> sem_sys \<Rightarrow> (int \<times> sem_sys) option"
where
  "newary t key nsems semflg mem grow s =
     (if nsems = 0 then Some (- EINVAL, s)
      else if s32 (used_sems s + nsems) > sc_semmns s then Some (- ENOSPC, s)
      else case mem of
        None \<Rightarrow> Some (- ENOMEM, s)
      | Some p \<Rightarrow> do {
          (id, ids, perm) \<leftarrow> ipc_addid (creds s t) grow (sem_ids s) p zero_perm (sc_semmni s);
          if id = -1 then Some (- ENOSPC, s\<lparr>sem_ids := ids\<rparr>)
          else
            let perm = perm\<lparr>p_mode := ucast (semflg AND word_of_int S_IRWXUGO), p_key := key\<rparr>;
                sma = \<lparr>sem_perm = perm, sem_otime = 0, sem_ctime = current_time s,
                       sem_base = replicate (nat nsems) \<lparr>semval = 0, sempid = 0\<rparr>,
                       sem_pending = [], sma_undo = [], sem_nsems = nat nsems\<rparr>
            in Some (ipc_buildid id (sint (p_seq perm)),
                     s\<lparr>sem_ids := ids, used_sems := s32 (used_sems s + nsems),
                       semas := (semas s)(p \<mapsto> sma)\<rparr>) })"

definition sys_semget ::
  "task \<Rightarrow> int \<Rightarrow> int \<Rightarrow> u32 \<Rightarrow> ptr option \<Rightarrow> bool \<Rightarrow> sem_sys \<Rightarrow> (int \<times> sem_sys) option"
where
  "sys_semget t key nsems semflg mem grow s =
     (if nsems < 0 \<or> nsems > sc_semmsl s then Some (- EINVAL, s)
      else if key = IPC_PRIVATE then newary t key nsems semflg mem grow s
      else do {
        id \<leftarrow> ipc_findkey (\<lambda>p. map_option sem_perm (semas s p)) (sem_ids s) key;
        if id = -1
        then if semflg AND IPC_CREAT = 0 then Some (- ENOENT, s)
             else newary t key nsems semflg mem grow s
        else if semflg AND IPC_CREAT \<noteq> 0 \<and> semflg AND IPC_EXCL \<noteq> 0 then Some (- EEXIST, s)
        else do {
          l \<leftarrow> sem_lock id s;
          p \<leftarrow> l;
          sma \<leftarrow> semas s p;
          Some (if nsems > int (sem_nsems sma) then - EINVAL
                else if ipcperms (creds s t) (sem_perm sma) (s16 (sint semflg)) \<noteq> 0 then - EACCES
                else ipc_buildid id (sint (p_seq (sem_perm sma))), s) } })"

definition sem_revalidate :: "task \<Rightarrow> int \<Rightarrow> ptr \<Rightarrow> nat \<Rightarrow> int \<Rightarrow> sem_sys \<Rightarrow> int option" where
  "sem_revalidate t semid p nsems flg s = do {
     l \<leftarrow> sem_lock semid s;
     case l of
       None \<Rightarrow> Some (- EIDRM)
     | Some smanew \<Rightarrow>
         if smanew \<noteq> p then Some (- EIDRM)
         else do {
           sma \<leftarrow> semas s p;
           if ipc_checkid (sem_perm sma) semid \<or> sem_nsems sma \<noteq> nsems then Some (- EIDRM)
           else if ipcperms (creds s t) (sem_perm sma) flg \<noteq> 0 then Some (- EACCES)
           else Some 0 } }"

fun invalidate_undos :: "ptr list \<Rightarrow> sem_sys \<Rightarrow> sem_sys option" where
  "invalidate_undos [] s = Some s"
| "invalidate_undos (u # us) s = do {
     un \<leftarrow> undos s u;
     invalidate_undos us (s\<lparr>undos := (undos s)(u \<mapsto> un\<lparr>un_semid := -1\<rparr>)\<rparr>) }"

fun wake_pending :: "task list \<Rightarrow> sem_sys \<Rightarrow> sem_sys option" where
  "wake_pending [] s = Some s"
| "wake_pending (t # ts) s = do {
     q \<leftarrow> queues s t;
     wake_pending ts (wake_up_process t (put_queue t (q\<lparr>q_status := - EIDRM, q_prev := False\<rparr>) s)) }"

definition freeary :: "int \<Rightarrow> sem_sys \<Rightarrow> sem_sys option" where
  "freeary semid s = do {
     (p, ids) \<leftarrow> ipc_rmid (sem_ids s) semid;
     let s = s\<lparr>sem_ids := ids\<rparr>;
     sma \<leftarrow> semas s p;
     s \<leftarrow> invalidate_undos (sma_undo sma) s;
     s \<leftarrow> wake_pending (sem_pending sma) s;
     Some (s\<lparr>used_sems := s32 (used_sems s - int (sem_nsems sma)), semas := (semas s)(p := None)\<rparr>) }"

section \<open>sys_semop\<close>

text \<open>What a call still has to do when it gives up the lock.\<close>

datatype sem_wait =
    Alloc_undo int ptr nat "sembuf list" bool bool
  | Semop_sleep int ptr "ptr option" bool
  | Getall_alloc int ptr nat
  | Setall_copy int ptr nat

datatype sem_ret = Ret int | Wait sem_wait

text \<open>The scan of the operations: \<open>undos\<close>, \<open>decrease\<close> and \<open>alter\<close>; \<open>None\<close> when a number is too large.\<close>

fun scan_sops :: "nat \<Rightarrow> sembuf list \<Rightarrow> nat \<Rightarrow> bool \<Rightarrow> bool \<Rightarrow> (nat \<times> bool \<times> bool) option" where
  "scan_sops nsems [] nundo decrease alter = Some (nundo, decrease, alter)"
| "scan_sops nsems (sop # sops) nundo decrease alter =
     (if unat (sem_num sop) \<ge> nsems then None
      else scan_sops nsems sops
             (if wants_undo sop then Suc nundo else nundo)
             (if sint (sem_op sop) < 0 then True else decrease)
             (if sint (sem_op sop) > 0 then True else alter))"

text \<open>An undo structure that is not on the task's list is reported by the code as an error.\<close>

definition freeundos :: "task \<Rightarrow> ptr \<Rightarrow> sem_sys \<Rightarrow> sem_sys option" where
  "freeundos t u s =
     (if u \<in> set (semundo s t)
      then Some (s\<lparr>semundo := (semundo s)(t := remove1 u (semundo s t)),
                   undos := (undos s)(u := None)\<rparr>)
      else None)"

text \<open>The search for the task's undo structure, \<open>us\<close> being the list from \<open>un\<close> on.\<close>

fun find_undo :: "task \<Rightarrow> int \<Rightarrow> ptr list \<Rightarrow> sem_sys \<Rightarrow> (ptr option \<times> sem_sys) option" where
  "find_undo t semid [] s = Some (None, s)"
| "find_undo t semid (u # us) s = do {
     un \<leftarrow> undos s u;
     if un_semid un = semid then Some (Some u, s)
     else if un_semid un = -1 then do { s \<leftarrow> freeundos t u s; find_undo t semid us s }
     else find_undo t semid us s }"

definition drop_queue :: "task \<Rightarrow> sem_sys \<Rightarrow> sem_sys" where
  "drop_queue t s = s\<lparr>queues := (queues s)(t := None)\<rparr>"

text \<open>The label \<open>update\<close>.\<close>

definition semop_update :: "task \<Rightarrow> ptr \<Rightarrow> bool \<Rightarrow> int \<Rightarrow> sem_sys \<Rightarrow> (sem_ret \<times> sem_sys) option" where
  "semop_update t p alter error s = do {
     s \<leftarrow> (if alter then update_queue p s else Some s);
     Some (Ret error, drop_queue t s) }"

text \<open>The head of the loop in which the call sleeps.\<close>

definition go_to_sleep :: "task \<Rightarrow> sem_sys \<Rightarrow> sem_sys option" where
  "go_to_sleep t s = do {
     q \<leftarrow> queues s t;
     Some ((put_queue t (q\<lparr>q_status := - EINTR\<rparr>) s)
             \<lparr>tsk_state := (tsk_state s)(t := TASK_INTERRUPTIBLE)\<rparr>) }"

definition semop_try ::
  "task \<Rightarrow> int \<Rightarrow> ptr \<Rightarrow> sembuf list \<Rightarrow> ptr option \<Rightarrow> bool \<Rightarrow> bool \<Rightarrow> sem_sys \<Rightarrow> (sem_ret \<times> sem_sys) option"
where
  "semop_try t semid p sops un decrease alter s = do {
     (error, sops, s) \<leftarrow> try_atomic_semop p sops un (pid (creds s t)) False s;
     if error \<le> 0 then semop_update t p alter error s
     else do {
       let q = \<lparr>q_prev = False, q_undo = un, q_pid = pid (creds s t), q_status = 0, q_sma = p,
                q_id = semid, q_sops = sops, q_alter = decrease\<rparr>;
       let s = put_queue t q s;
       s \<leftarrow> (if alter then append_to_queue p t s else prepend_to_queue p t s);
       let s = s\<lparr>semsleeping := (semsleeping s)(t := True)\<rparr>;
       s \<leftarrow> go_to_sleep t s;
       Some (Wait (Semop_sleep semid p un alter), s) } }"

text \<open>
  \<open>mem\<close> is whether the array for more than \<open>SEMOPM_FAST\<close> operations can be allocated, and
  \<open>copy\<close> whether the operations can be read from user space; \<open>nsops\<close> is their number.
\<close>

definition sys_semop ::
  "task \<Rightarrow> int \<Rightarrow> sembuf list \<Rightarrow> bool \<Rightarrow> bool \<Rightarrow> sem_sys \<Rightarrow> (sem_ret \<times> sem_sys) option"
where
  "sys_semop t semid sops mem copy s =
     (let nsops = length sops in
      if nsops < 1 \<or> semid < 0 then Some (Ret (- EINVAL), s)
      else if int nsops > uint (word_of_int (sc_semopm s) :: u32) then Some (Ret (- E2BIG), s)
      else if nsops > SEMOPM_FAST \<and> \<not> mem then Some (Ret (- ENOMEM), s)
      else if \<not> copy then Some (Ret (- EFAULT), s)
      else do {
        l \<leftarrow> sem_lock semid s;
        case l of
          None \<Rightarrow> Some (Ret (- EINVAL), s)
        | Some p \<Rightarrow> do {
            sma \<leftarrow> semas s p;
            if ipc_checkid (sem_perm sma) semid then Some (Ret (- EIDRM), s)
            else case scan_sops (sem_nsems sma) sops 0 False False of
              None \<Rightarrow> Some (Ret (- EFBIG), s)
            | Some (nundo, decrease, alter) \<Rightarrow>
                let alter = (alter \<or> decrease) in
                if ipcperms (creds s t) (sem_perm sma) (if alter then S_IWUGO else S_IRUGO) \<noteq> 0
                then Some (Ret (- EACCES), s)
                else if nundo \<noteq> 0 then do {
                  (un, s) \<leftarrow> find_undo t semid (semundo s t) s;
                  case un of
                    None \<Rightarrow> Some (Wait (Alloc_undo semid p (sem_nsems sma) sops decrease alter), s)
                  | Some u \<Rightarrow> semop_try t semid p sops (Some u) decrease alter s }
                else semop_try t semid p sops None decrease alter s } })"

text \<open>
  The rest of \<open>alloc_undo\<close>, with \<open>mem\<close> the result of \<open>kmalloc\<close>, and of the call.
\<close>

definition alloc_undo ::
  "task \<Rightarrow> int \<Rightarrow> ptr \<Rightarrow> nat \<Rightarrow> bool \<Rightarrow> ptr option \<Rightarrow> sem_sys \<Rightarrow> (int \<times> ptr option \<times> sem_sys) option"
where
  "alloc_undo t semid p nsems alter mem s =
     (case mem of
        None \<Rightarrow> Some (- ENOMEM, None, s)
      | Some u \<Rightarrow> do {
          error \<leftarrow> sem_revalidate t semid p nsems (if alter then S_IWUGO else S_IRUGO) s;
          if error \<noteq> 0 then Some (error, None, s)
          else do {
            sma \<leftarrow> semas s p;
            Some (0, Some u,
              s\<lparr>undos := (undos s)(u \<mapsto> \<lparr>un_semid = semid, semadj = replicate nsems 0\<rparr>),
                semundo := (semundo s)(t := u # semundo s t),
                semas := (semas s)(p \<mapsto> sma\<lparr>sma_undo := u # sma_undo sma\<rparr>)\<rparr>) } })"

definition semop_alloc ::
  "task \<Rightarrow> int \<Rightarrow> ptr \<Rightarrow> nat \<Rightarrow> sembuf list \<Rightarrow> bool \<Rightarrow> bool \<Rightarrow> ptr option \<Rightarrow> sem_sys \<Rightarrow>
   (sem_ret \<times> sem_sys) option"
where
  "semop_alloc t semid p nsems sops decrease alter mem s = do {
     (error, un, s) \<leftarrow> alloc_undo t semid p nsems alter mem s;
     if error \<noteq> 0 then Some (Ret error, s)
     else semop_try t semid p sops un decrease alter s }"

text \<open>What the call does when \<open>schedule()\<close> returns, up to the next sleep or to the end.\<close>

definition semop_wakeup ::
  "task \<Rightarrow> int \<Rightarrow> ptr \<Rightarrow> ptr option \<Rightarrow> bool \<Rightarrow> sem_sys \<Rightarrow> (sem_ret \<times> sem_sys) option"
where
  "semop_wakeup t semid p un alter s = do {
     let s = s\<lparr>tsk_state := (tsk_state s)(t := TASK_RUNNING)\<rparr>;
     tmp \<leftarrow> sem_lock semid s;
     q \<leftarrow> queues s t;
     let awake = s\<lparr>semsleeping := (semsleeping s)(t := False)\<rparr>;
     case tmp of
       None \<Rightarrow> if q_prev q then None else Some (Ret (- EIDRM), drop_queue t awake)
     | Some _ \<Rightarrow>
         if q_status q = 1 then do {
           (error, sops, s) \<leftarrow> try_atomic_semop p (q_sops q) un (pid (creds s t)) False s;
           let s = put_queue t (q\<lparr>q_sops := sops\<rparr>) s;
           if error \<le> 0 then do {
             s \<leftarrow> remove_from_queue p t (s\<lparr>semsleeping := (semsleeping s)(t := False)\<rparr>);
             semop_update t p alter error s }
           else do { s \<leftarrow> go_to_sleep t s; Some (Wait (Semop_sleep semid p un alter), s) } }
         else if q_prev q then do {
           s \<leftarrow> remove_from_queue p t awake;
           semop_update t p alter (q_status q) s }
         else Some (Ret (q_status q), drop_queue t awake) }"

section \<open>sys_semctl\<close>

record seminfo =
  i_semmap :: int
  i_semmni :: int
  i_semmns :: int
  i_semmnu :: int
  i_semmsl :: int
  i_semopm :: int
  i_semume :: int
  i_semusz :: int
  i_semvmx :: int
  i_semaem :: int

record semid64_ds =
  s64_perm :: ipc64_perm
  s64_otime :: int
  s64_ctime :: int
  s64_nsems :: nat

record semid_ds =
  ds_perm :: ipc_perm
  ds_otime :: int
  ds_ctime :: int
  ds_base :: u32
  ds_pending :: u32
  ds_pending_last :: u32
  ds_undo :: u32
  ds_nsems :: u16

text \<open>
  The argument of the call and what it points to in user memory; \<open>user_ok\<close> says whether
  that memory can be accessed, \<open>stack\<close> is what the kernel stack holds where the code
  declares a variable of type \<open>struct semid_ds\<close>.
\<close>

record semun =
  val :: int
  buf64 :: semid64_ds
  buf_old :: semid_ds
  user_array :: "nat \<Rightarrow> u16"
  user_ok :: bool
  stack :: semid_ds

text \<open>What is written to user memory.\<close>

datatype sem_out =
    No_out
  | Out_info seminfo
  | Out_ds64 semid64_ds
  | Out_ds semid_ds
  | Out_array "u16 list"

type_synonym semctl_result = "sem_ret \<times> sem_out \<times> sem_sys"

definition copy_semid_to_user ::
  "semun \<Rightarrow> semid64_ds \<Rightarrow> u32 \<Rightarrow> sem_sys \<Rightarrow> (bool \<times> sem_out)"
where
  "copy_semid_to_user arg tbuf version s =
     (if version = IPC_64 then (user_ok arg, if user_ok arg then Out_ds64 tbuf else No_out)
      else if version = IPC_OLD
      then let out = stack arg;
               out = out\<lparr>ds_perm := ipc64_perm_to_ipc_perm (overflowuid s) (overflowgid s) (s64_perm tbuf)\<rparr>;
               out = out\<lparr>ds_otime := s64_otime tbuf, ds_ctime := s64_ctime tbuf,
                         ds_nsems := of_nat (s64_nsems tbuf)\<rparr>
           in (user_ok arg, if user_ok arg then Out_ds out else No_out)
      else (False, No_out))"

definition fill_tbuf :: "sem_array \<Rightarrow> semid64_ds" where
  "fill_tbuf sma =
     \<lparr>s64_perm = kernel_to_ipc64_perm (sem_perm sma), s64_otime = sem_otime sma,
      s64_ctime = sem_ctime sma, s64_nsems = sem_nsems sma\<rparr>"

definition semctl_nolock ::
  "task \<Rightarrow> int \<Rightarrow> u32 \<Rightarrow> u32 \<Rightarrow> semun \<Rightarrow> sem_sys \<Rightarrow> semctl_result option"
where
  "semctl_nolock t semid cmd version arg s =
     (if cmd = IPC_INFO \<or> cmd = SEM_INFO
      then let info = \<lparr>i_semmap = SEMMAP, i_semmni = sc_semmni s, i_semmns = sc_semmns s,
                       i_semmnu = SEMMNU, i_semmsl = sc_semmsl s, i_semopm = sc_semopm s,
                       i_semume = SEMUME,
                       i_semusz = (if cmd = SEM_INFO then in_use (sem_ids s) else SEMUSZ),
                       i_semvmx = SEMVMX,
                       i_semaem = (if cmd = SEM_INFO then used_sems s else SEMAEM)\<rparr>;
               m = max_id (sem_ids s)
           in if \<not> user_ok arg then Some (Ret (- EFAULT), No_out, s)
              else Some (Ret (if m < 0 then 0 else m), Out_info info, s)
      else if cmd = SEM_STAT
      then if semid \<ge> ids_size (sem_ids s) then Some (Ret (- EINVAL), No_out, s)
           else do {
             l \<leftarrow> sem_lock semid s;
             case l of
               None \<Rightarrow> Some (Ret (- EINVAL), No_out, s)
             | Some p \<Rightarrow> do {
                 sma \<leftarrow> semas s p;
                 if ipcperms (creds s t) (sem_perm sma) S_IRUGO \<noteq> 0
                 then Some (Ret (- EACCES), No_out, s)
                 else let id = ipc_buildid semid (sint (p_seq (sem_perm sma)));
                          (copied, out) = copy_semid_to_user arg (fill_tbuf sma) version s
                      in Some (Ret (if copied then id else - EFAULT), out, s) } }
      else Some (Ret (- EINVAL), No_out, s))"

definition read_values :: "sem_array \<Rightarrow> u16 list" where
  "read_values sma = map (\<lambda>x. word_of_int (semval x)) (take (sem_nsems sma) (sem_base sma))"

text \<open>\<open>un->semadj[i] = 0\<close> for each undo structure of the set and the given indices.\<close>

fun zero_index :: "nat list \<Rightarrow> int list \<Rightarrow> int list option" where
  "zero_index [] a = Some a"
| "zero_index (i # is) a = (if i < length a then zero_index is (a[i := 0]) else None)"

fun zero_undos :: "nat list \<Rightarrow> ptr list \<Rightarrow> sem_sys \<Rightarrow> sem_sys option" where
  "zero_undos is [] s = Some s"
| "zero_undos is (u # us) s = do {
     un \<leftarrow> undos s u;
     a \<leftarrow> zero_index is (semadj un);
     zero_undos is us (s\<lparr>undos := (undos s)(u \<mapsto> un\<lparr>semadj := a\<rparr>)\<rparr>) }"

definition getall_copy :: "semun \<Rightarrow> sem_array \<Rightarrow> sem_sys \<Rightarrow> semctl_result" where
  "getall_copy arg sma s =
     (if user_ok arg then (Ret 0, Out_array (read_values sma), s) else (Ret (- EFAULT), No_out, s))"

text \<open>\<open>GETALL\<close> of a large set, from \<open>ipc_alloc\<close> on.\<close>

definition getall_alloc ::
  "task \<Rightarrow> int \<Rightarrow> ptr \<Rightarrow> nat \<Rightarrow> bool \<Rightarrow> semun \<Rightarrow> sem_sys \<Rightarrow> semctl_result option"
where
  "getall_alloc t semid p nsems mem arg s =
     (if \<not> mem then Some (Ret (- ENOMEM), No_out, s)
      else do {
        err \<leftarrow> sem_revalidate t semid p nsems S_IRUGO s;
        if err \<noteq> 0 then Some (Ret err, No_out, s)
        else do { sma \<leftarrow> semas s p; Some (getall_copy arg sma s) } })"

text \<open>\<open>SETALL\<close> from where the lock has been released.\<close>

definition setall_copy ::
  "task \<Rightarrow> int \<Rightarrow> ptr \<Rightarrow> nat \<Rightarrow> bool \<Rightarrow> semun \<Rightarrow> sem_sys \<Rightarrow> semctl_result option"
where
  "setall_copy t semid p nsems mem arg s =
     (if nsems > SEMMSL_FAST \<and> \<not> mem then Some (Ret (- ENOMEM), No_out, s)
      else if \<not> user_ok arg then Some (Ret (- EFAULT), No_out, s)
      else
        let sem_io = map (user_array arg) [0..<nsems] in
        if \<exists>v\<in>set sem_io. uint v > SEMVMX then Some (Ret (- ERANGE), No_out, s)
        else do {
          err \<leftarrow> sem_revalidate t semid p nsems S_IWUGO s;
          if err \<noteq> 0 then Some (Ret err, No_out, s)
          else do {
            sma \<leftarrow> semas s p;
            if length (sem_base sma) < nsems then None
            else do {
              let sma = sma\<lparr>sem_base := map2 (\<lambda>x v. x\<lparr>semval := uint v\<rparr>) (take nsems (sem_base sma)) sem_io
                                       @ drop nsems (sem_base sma)\<rparr>;
              s \<leftarrow> zero_undos [0..<nsems] (sma_undo sma) (s\<lparr>semas := (semas s)(p \<mapsto> sma)\<rparr>);
              let s = s\<lparr>semas := (semas s)(p \<mapsto> sma\<lparr>sem_ctime := current_time s\<rparr>)\<rparr>;
              s \<leftarrow> update_queue p s;
              Some (Ret 0, No_out, s) } } })"

definition semctl_setval ::
  "task \<Rightarrow> ptr \<Rightarrow> sem_array \<Rightarrow> nat \<Rightarrow> int \<Rightarrow> sem_sys \<Rightarrow> semctl_result option"
where
  "semctl_setval t p sma n v s =
     (if v > SEMVMX \<or> v < 0 then Some (Ret (- ERANGE), No_out, s)
      else do {
        s \<leftarrow> zero_undos [n] (sma_undo sma) s;
        let c = (sem_base sma ! n)\<lparr>semval := v, sempid := pid (creds s t)\<rparr>;
        let s = s\<lparr>semas := (semas s)(p \<mapsto> sma\<lparr>sem_base := (sem_base sma)[n := c],
                                               sem_ctime := current_time s\<rparr>)\<rparr>;
        s \<leftarrow> update_queue p s;
        Some (Ret 0, No_out, s) })"

definition semctl_main ::
  "task \<Rightarrow> int \<Rightarrow> int \<Rightarrow> u32 \<Rightarrow> u32 \<Rightarrow> semun \<Rightarrow> sem_sys \<Rightarrow> semctl_result option"
where
  "semctl_main t semid semnum cmd version arg s = do {
     l \<leftarrow> sem_lock semid s;
     case l of
       None \<Rightarrow> Some (Ret (- EINVAL), No_out, s)
     | Some p \<Rightarrow> do {
         sma \<leftarrow> semas s p;
         let nsems = sem_nsems sma;
         if ipc_checkid (sem_perm sma) semid then Some (Ret (- EIDRM), No_out, s)
         else if ipcperms (creds s t) (sem_perm sma)
                   (if cmd = SETVAL \<or> cmd = SETALL then S_IWUGO else S_IRUGO) \<noteq> 0
         then Some (Ret (- EACCES), No_out, s)
         else if cmd = GETALL
         then if nsems > SEMMSL_FAST then Some (Wait (Getall_alloc semid p nsems), No_out, s)
              else Some (getall_copy arg sma s)
         else if cmd = SETALL then Some (Wait (Setall_copy semid p nsems), No_out, s)
         else if cmd = IPC_STAT
         then let (copied, out) = copy_semid_to_user arg (fill_tbuf sma) version s
              in Some (Ret (if copied then 0 else - EFAULT), out, s)
         else if semnum < 0 \<or> semnum \<ge> int nsems then Some (Ret (- EINVAL), No_out, s)
         else if nat semnum \<ge> length (sem_base sma) then None
         else
           let c = sem_base sma ! nat semnum in
           if cmd = GETVAL then Some (Ret (semval c), No_out, s)
           else if cmd = GETPID then Some (Ret (sempid c AND 65535), No_out, s)
           else if cmd = GETNCNT
           then do { n \<leftarrow> count_semncnt p (word_of_int semnum) s; Some (Ret n, No_out, s) }
           else if cmd = GETZCNT
           then do { n \<leftarrow> count_semzcnt p (word_of_int semnum) s; Some (Ret n, No_out, s) }
           else if cmd = SETVAL then semctl_setval t p sma (nat semnum) (val arg) s
           else Some (Ret (- EINVAL), No_out, s) } }"

record sem_setbuf =
  set_uid :: u32
  set_gid :: u32
  set_mode :: u16

definition copy_semid_from_user :: "semun \<Rightarrow> u32 \<Rightarrow> sem_setbuf option" where
  "copy_semid_from_user arg version =
     (if \<not> user_ok arg then None
      else if version = IPC_64
      then Some \<lparr>set_uid = uid64 (s64_perm (buf64 arg)), set_gid = gid64 (s64_perm (buf64 arg)),
                 set_mode = mode64 (s64_perm (buf64 arg))\<rparr>
      else if version = IPC_OLD
      then Some \<lparr>set_uid = ucast (uid16 (ds_perm (buf_old arg))),
                 set_gid = ucast (gid16 (ds_perm (buf_old arg))),
                 set_mode = mode16 (ds_perm (buf_old arg))\<rparr>
      else None)"

definition semctl_down ::
  "task \<Rightarrow> int \<Rightarrow> u32 \<Rightarrow> u32 \<Rightarrow> semun \<Rightarrow> sem_sys \<Rightarrow> semctl_result option"
where
  "semctl_down t semid cmd version arg s =
     (let setbuf = copy_semid_from_user arg version in
      if cmd = IPC_SET \<and> setbuf = None then Some (Ret (- EFAULT), No_out, s)
      else do {
        l \<leftarrow> sem_lock semid s;
        case l of
          None \<Rightarrow> Some (Ret (- EINVAL), No_out, s)
        | Some p \<Rightarrow> do {
            sma \<leftarrow> semas s p;
            let ipcp = sem_perm sma;
            if ipc_checkid ipcp semid then Some (Ret (- EIDRM), No_out, s)
            else if euid (creds s t) \<noteq> p_cuid ipcp \<and> euid (creds s t) \<noteq> p_uid ipcp \<and>
                    \<not> capable (creds s t) CAP_SYS_ADMIN
            then Some (Ret (- EPERM), No_out, s)
            else if cmd = IPC_RMID then do { s \<leftarrow> freeary semid s; Some (Ret 0, No_out, s) }
            else if cmd = IPC_SET then do {
              b \<leftarrow> setbuf;
              let ipcp = ipcp\<lparr>p_uid := set_uid b, p_gid := set_gid b,
                              p_mode := (p_mode ipcp AND NOT (word_of_int S_IRWXUGO))
                                        OR (set_mode b AND word_of_int S_IRWXUGO)\<rparr>;
              Some (Ret 0, No_out,
                    s\<lparr>semas := (semas s)(p \<mapsto> sma\<lparr>sem_perm := ipcp, sem_ctime := current_time s\<rparr>)\<rparr>) }
            else Some (Ret (- EINVAL), No_out, s) } })"

definition sys_semctl ::
  "task \<Rightarrow> int \<Rightarrow> int \<Rightarrow> u32 \<Rightarrow> semun \<Rightarrow> sem_sys \<Rightarrow> semctl_result option"
where
  "sys_semctl t semid semnum cmd arg s =
     (if semid < 0 then Some (Ret (- EINVAL), No_out, s)
      else let (version, cmd) = ipc_parse_version cmd in
      if cmd \<in> {IPC_INFO, SEM_INFO, SEM_STAT} then semctl_nolock t semid cmd version arg s
      else if cmd \<in> {GETALL, GETVAL, GETPID, GETNCNT, GETZCNT, IPC_STAT, SETVAL, SETALL}
      then semctl_main t semid semnum cmd version arg s
      else if cmd \<in> {IPC_RMID, IPC_SET} then semctl_down t semid cmd version arg s
      else Some (Ret (- EINVAL), No_out, s))"

section \<open>sem_exit\<close>

definition adjust :: "int \<Rightarrow> sem \<Rightarrow> int \<Rightarrow> sem" where
  "adjust cpid x a =
     (let v = s32 (semval x + a) in x\<lparr>semval := (if v < 0 then 0 else v), sempid := cpid\<rparr>)"

text \<open>The first part: a sleeping task leaves its queue.\<close>

definition exit_sleeping :: "task \<Rightarrow> sem_sys \<Rightarrow> sem_sys option" where
  "exit_sleeping t s =
     (if \<not> semsleeping s t then Some s
      else do {
        q \<leftarrow> queues s t;
        l \<leftarrow> sem_lock (q_id q) s;
        let s = s\<lparr>semsleeping := (semsleeping s)(t := False)\<rparr>;
        if q_prev q then if l = None then None else remove_from_queue (q_sma q) t s
        else Some s })"

text \<open>The body of the loop over the undo structures, for the first one of the list.\<close>

definition apply_undo :: "task \<Rightarrow> ptr \<Rightarrow> sem_undo \<Rightarrow> sem_sys \<Rightarrow> sem_sys option" where
  "apply_undo t u un s =
     (if un_semid un = -1 then Some s
      else do {
        l \<leftarrow> sem_lock (un_semid un) s;
        case l of
          None \<Rightarrow> Some s
        | Some p \<Rightarrow> do {
            sma \<leftarrow> semas s p;
            if ipc_checkid (sem_perm sma) (un_semid un) \<or> u \<notin> set (sma_undo sma) then Some s
            else if length (sem_base sma) < sem_nsems sma \<or> length (semadj un) < sem_nsems sma then None
            else update_queue p
              (s\<lparr>semas := (semas s)(p \<mapsto>
                 sma\<lparr>sma_undo := remove1 u (sma_undo sma),
                     sem_base := map2 (adjust (pid (creds s t)))
                                   (take (sem_nsems sma) (sem_base sma)) (semadj un)
                                 @ drop (sem_nsems sma) (sem_base sma),
                     sem_otime := current_time s\<rparr>)\<rparr>) } })"

definition exit_undo :: "task \<Rightarrow> sem_sys \<Rightarrow> sem_sys option" where
  "exit_undo t s =
     (case semundo s t of
        [] \<Rightarrow> Some s
      | u # us \<Rightarrow> do {
          un \<leftarrow> undos s u;
          s \<leftarrow> apply_undo t u un s;
          Some (s\<lparr>semundo := (semundo s)(t := us), undos := (undos s)(u := None)\<rparr>) })"

text \<open>Without another task in between, the whole of \<open>sem_exit\<close>.\<close>

fun exit_undos :: "nat \<Rightarrow> task \<Rightarrow> sem_sys \<Rightarrow> sem_sys option" where
  "exit_undos 0 t s = Some s"
| "exit_undos (Suc n) t s = do { s \<leftarrow> exit_undo t s; exit_undos n t s }"

definition sem_exit :: "task \<Rightarrow> sem_sys \<Rightarrow> sem_sys option" where
  "sem_exit t s = do {
     s \<leftarrow> exit_sleeping t s;
     s \<leftarrow> exit_undos (length (semundo s t)) t s;
     Some (s\<lparr>semundo := (semundo s)(t := [])\<rparr>) }"

end
