(* ===== verification/SemAtomic.thy ===== *)
theory SemAtomic
  imports Sem
begin

text \<open>
  An array of semaphore operations takes effect as a whole or not at all: the verdict of
  \<open>try_atomic_semop\<close> depends on the values and adjustments alone, a verdict other than
  success leaves both as they were, and success adds up the operations.
\<close>

section \<open>Shapes\<close>

definition vals :: "sem list \<Rightarrow> int list" where
  "vals = map semval"

lemma vals_simps [simp]:
  "length (vals base) = length base"
  "n < length base \<Longrightarrow> vals base ! n = semval (base ! n)"
  "vals (base[n := c]) = (vals base)[n := semval c]"
  by (simp_all add: vals_def map_update)

text \<open>The values are of type \<open>int\<close> and the adjustments of type \<open>short\<close>.\<close>

definition in_s32 :: "int \<Rightarrow> bool" where
  "in_s32 k \<longleftrightarrow> -2147483648 \<le> k \<and> k < 2147483648"

definition in_s16 :: "int \<Rightarrow> bool" where
  "in_s16 k \<longleftrightarrow> -32768 \<le> k \<and> k < 32768"

lemma in_s32_s32 [simp]: "in_s32 (s32 k)" using s32_range by (simp add: in_s32_def)
lemma in_s16_s16 [simp]: "in_s16 (s16 k)" using s16_range by (simp add: in_s16_def)
lemma s32_in [simp]: "in_s32 k \<Longrightarrow> s32 k = k" by (simp add: in_s32_def s32_id)
lemma s16_in [simp]: "in_s16 k \<Longrightarrow> s16 k = k" by (simp add: in_s16_def s16_id)

definition adj_fits :: "nat \<Rightarrow> int list option \<Rightarrow> bool" where
  "adj_fits n adj = (case adj of None \<Rightarrow> True | Some a \<Rightarrow> length a = n \<and> list_all in_s16 a)"

text \<open>The operations name semaphores of the set, and those with \<open>SEM_UNDO\<close> have an undo structure.\<close>

definition sops_fit :: "nat \<Rightarrow> bool \<Rightarrow> sembuf list \<Rightarrow> bool" where
  "sops_fit n has_undo sops =
     list_all (\<lambda>sop. unat (sem_num sop) < n \<and> (wants_undo sop \<longrightarrow> has_undo)) sops"

lemma sops_fit_simps [simp]:
  "sops_fit n h []"
  "sops_fit n h (sop # sops) \<longleftrightarrow>
     unat (sem_num sop) < n \<and> (wants_undo sop \<longrightarrow> h) \<and> sops_fit n h sops"
  "sops_fit n h (xs @ ys) \<longleftrightarrow> sops_fit n h xs \<and> sops_fit n h ys"
  "sops_fit n h (rev xs) \<longleftrightarrow> sops_fit n h xs"
  by (auto simp: sops_fit_def list_all_iff)

lemma wants_undo_cleared [simp]: "\<not> wants_undo (sop\<lparr>sem_flg := sem_flg sop AND NOT SEM_UNDO\<rparr>)"
  by (simp add: wants_undo_def and.assoc)

lemma adj_fits_update:
  "adj_fits n (Some a) \<Longrightarrow> in_s16 k \<Longrightarrow> adj_fits n (Some (a[i := k]))"
  by (cases "i < length a") (auto simp: adj_fits_def list_all_length nth_list_update)

lemma undo_in_s16: "\<not> (k < - SEMAEM - 1 \<or> k > SEMAEM) \<Longrightarrow> in_s16 k"
  by (auto simp: in_s16_def SEMAEM_def SEMVMX_def)

section \<open>Undoing the loop\<close>

definition forget :: "sem list \<times> int list option \<Rightarrow> int list \<times> int list option" where
  "forget r = (vals (fst r), snd r)"

lemma undo_loop_cong:
  assumes "vals base1 = vals base2"
  shows "map_option forget (undo_loop prev base1 adj) =
         map_option forget (undo_loop prev base2 adj)"
  using assms
proof (induction prev arbitrary: base1 base2 adj)
  case (Cons sop prev)
  let ?n = "unat (sem_num sop)"
  have len: "length base1 = length base2" using Cons.prems by (metis vals_simps(1))
  show ?case
  proof (cases "?n < length base1")
    case True
    then have "semval (base1 ! ?n) = semval (base2 ! ?n)"
      using Cons.prems len by (metis vals_simps(2))
    then have v: "vals (base1[?n := c1]) = vals (base2[?n := c2])" if "semval c1 = semval c2" for c1 c2
      using Cons.prems that by simp
    show ?thesis
      using True len \<open>semval (base1 ! ?n) = semval (base2 ! ?n)\<close>
      by (auto simp: Let_def intro!: Cons.IH v split: option.split)
  qed (simp add: len)
qed (simp add: forget_def)

abbreviation undo_vals :: "sembuf list \<Rightarrow> sem list \<Rightarrow> int list option \<Rightarrow> (int list \<times> int list option) option" where
  "undo_vals prev base adj \<equiv> map_option forget (undo_loop prev base adj)"

text \<open>Undoing one more operation after it has been applied changes nothing.\<close>

lemma undo_vals_applied:
  assumes n: "n = unat (sem_num sop)" "n < length base" and r: "list_all in_s32 (vals base)"
    and c: "semval c = s32 (semval (base ! n) + sint (sem_op sop))"
  shows "\<not> wants_undo sop \<Longrightarrow> undo_vals (sop # prev) (base[n := c]) adj = undo_vals prev base adj"
    and "wants_undo sop \<Longrightarrow> adj_fits (length base) (Some a) \<Longrightarrow>
         undo_vals (sop # prev) (base[n := c]) (Some (a[n := a ! n - sint (sem_op sop)])) =
         undo_vals prev base (Some a)"
proof -
  let ?c = "base[n := c, n := c\<lparr>semval := s32 (semval c - sint (sem_op sop)), sempid := drop_bit 16 (sempid c)\<rparr>]"
  have "in_s32 (semval (base ! n))" using r n by (simp add: list_all_length)
  then have "s32 (semval c - sint (sem_op sop)) = semval (base ! n)"
    by (simp add: c s32_add_diff)
  then have v: "vals ?c = vals base"
    using n by (simp add: list_eq_iff_nth_eq nth_list_update)
  show "undo_vals (sop # prev) (base[n := c]) adj = undo_vals prev base adj" if "\<not> wants_undo sop"
    using that n undo_loop_cong [OF v] by (simp add: Let_def)
  show "undo_vals (sop # prev) (base[n := c]) (Some (a[n := a ! n - sint (sem_op sop)])) =
        undo_vals prev base (Some a)" if "wants_undo sop" "adj_fits (length base) (Some a)"
  proof -
    have "n < length a" "in_s16 (a ! n)" using that(2) n by (auto simp: adj_fits_def list_all_length)
    then show ?thesis using that n undo_loop_cong [OF v] by (simp add: Let_def)
  qed
qed

lemma undo_vals_skipped:
  assumes n: "n = unat (sem_num sop)" "n < length base" and r: "list_all in_s32 (vals base)"
    and z: "sint (sem_op sop) = 0" and fits: "wants_undo sop \<longrightarrow> adj \<noteq> None" "adj_fits (length base) adj"
  shows "undo_vals (sop # prev) base adj = undo_vals prev base adj"
proof -
  let ?c = "base[n := (base ! n)\<lparr>semval := s32 (semval (base ! n)), sempid := drop_bit 16 (sempid (base ! n))\<rparr>]"
  have "in_s32 (semval (base ! n))" using r n by (simp add: list_all_length)
  then have v: "vals ?c = vals base"
    using n by (simp add: list_eq_iff_nth_eq nth_list_update)
  show ?thesis
  proof (cases adj)
    case None
    with fits n z undo_loop_cong [OF v] show ?thesis by (simp add: Let_def)
  next
    case (Some a)
    then have "n < length a" "in_s16 (a ! n)" using fits(2) n by (auto simp: adj_fits_def list_all_length)
    with Some fits n z undo_loop_cong [OF v] show ?thesis by (simp add: Let_def)
  qed
qed

lemma in_s32_update:
  "list_all in_s32 (vals base) \<Longrightarrow> in_s32 (semval c) \<Longrightarrow> list_all in_s32 (vals (base[n := c]))"
  by (cases "n < length base") (auto simp: list_all_length nth_list_update)

section \<open>One turn of the loop\<close>

text \<open>The semaphore after an operation, and the adjustments after it.\<close>

definition op_sem :: "int \<Rightarrow> sembuf \<Rightarrow> sem \<Rightarrow> sem" where
  "op_sem cpid sop c = c\<lparr>sempid := s32 (push_bit 16 (sempid c)) OR cpid,
                         semval := s32 (semval c + sint (sem_op sop))\<rparr>"

definition op_adj :: "sembuf \<Rightarrow> int list option \<Rightarrow> int list option" where
  "op_adj sop adj =
     (if wants_undo sop
      then map_option (\<lambda>a. a[unat (sem_num sop) := a ! unat (sem_num sop) - sint (sem_op sop)]) adj
      else adj)"

definition adj_bad :: "sembuf \<Rightarrow> int list option \<Rightarrow> bool" where
  "adj_bad sop adj \<longleftrightarrow> wants_undo sop \<and>
     (\<exists>a. adj = Some a \<and> (a ! unat (sem_num sop) - sint (sem_op sop) < - SEMAEM - 1 \<or>
                          a ! unat (sem_num sop) - sint (sem_op sop) > SEMAEM))"

lemma semval_op_sem [simp]: "semval (op_sem cpid sop c) = s32 (semval c + sint (sem_op sop))"
  by (simp add: op_sem_def)

lemma semop_loop_Cons:
  assumes n: "n = unat (sem_num sop)" "n < length base"
    and adj: "adj_fits (length base) adj" "wants_undo sop \<longrightarrow> adj \<noteq> None"
  shows "semop_loop cpid prev (sop # sops) base adj =
    (if sint (sem_op sop) = 0 \<and> semval (base ! n) \<noteq> 0
     then Some (Would_block, sop # prev, sops, base, adj)
     else let base1 = base[n := op_sem cpid sop (base ! n)];
              v = s32 (semval (base ! n) + sint (sem_op sop)) in
     if adj_bad sop adj
     then Some (Out_of_range, sop\<lparr>sem_flg := sem_flg sop AND NOT SEM_UNDO\<rparr> # prev, sops, base1, adj)
     else if v < 0 then Some (Would_block, sop # prev, sops, base1, op_adj sop adj)
     else if v > SEMVMX then Some (Out_of_range, sop # prev, sops, base1, op_adj sop adj)
     else semop_loop cpid (sop # prev) sops base1 (op_adj sop adj))"
proof -
  have "n < length a" if "adj = Some a" for a using that adj(1) n by (simp add: adj_fits_def)
  moreover have "(base ! n)\<lparr>sempid := s32 (push_bit 16 (sempid (base ! n))) OR cpid,
                   semval := s32 (semval (base ! n) + sint (sem_op sop))\<rparr> = op_sem cpid sop (base ! n)"
    by (simp add: op_sem_def)
  ultimately show ?thesis
    using n adj(2) by (cases adj) (auto simp: Let_def op_adj_def adj_bad_def)
qed

declare semop_loop.simps(2) [simp del] undo_loop.simps(2) [simp del]

lemma adj_fits_op:
  assumes "adj_fits n adj" "\<not> adj_bad sop adj"
  shows "adj_fits n (op_adj sop adj)" "op_adj sop adj = None \<longleftrightarrow> adj = None"
proof -
  show "adj_fits n (op_adj sop adj)"
  proof (cases adj)
    case (Some a)
    have "adj_fits n (Some (a[unat (sem_num sop) := a ! unat (sem_num sop) - sint (sem_op sop)]))"
      if "wants_undo sop"
      using assms that Some by (intro adj_fits_update undo_in_s16) (auto simp: adj_bad_def)
    with assms(1) Some show ?thesis by (simp add: op_adj_def)
  qed (simp add: op_adj_def adj_fits_def)
  show "op_adj sop adj = None \<longleftrightarrow> adj = None" by (simp add: op_adj_def)
qed

lemma undo_vals_op:
  assumes n: "n = unat (sem_num sop)" "n < length base" and r: "list_all in_s32 (vals base)"
    and fits: "adj_fits (length base) adj" "wants_undo sop \<longrightarrow> adj \<noteq> None"
  shows "undo_vals (sop # prev) (base[n := op_sem cpid sop (base ! n)]) (op_adj sop adj) = undo_vals prev base adj"
proof (cases "wants_undo sop")
  case True
  then obtain a where "adj = Some a" using fits(2) by blast
  with True fits(1) show ?thesis
    using undo_vals_applied(2) [OF n r semval_op_sem True] by (simp add: op_adj_def n(1))
next
  case False
  then show ?thesis
    using undo_vals_applied(1) [OF n r semval_op_sem False] by (simp add: op_adj_def)
qed

lemma undo_vals_out_of_range:
  assumes n: "n = unat (sem_num sop)" "n < length base" and r: "list_all in_s32 (vals base)"
  shows "undo_vals (sop\<lparr>sem_flg := sem_flg sop AND NOT SEM_UNDO\<rparr> # prev)
           (base[n := op_sem cpid sop (base ! n)]) adj = undo_vals prev base adj"
  using undo_vals_applied(1) [of n "sop\<lparr>sem_flg := sem_flg sop AND NOT SEM_UNDO\<rparr>" base
      "op_sem cpid sop (base ! n)" prev adj] assms by simp

text \<open>What the loop leaves behind, on whichever way it is left.\<close>

fun loop_good ::
  "sembuf list \<Rightarrow> sembuf list \<Rightarrow> sem list \<Rightarrow> int list option \<Rightarrow>
   semop_exit \<times> sembuf list \<times> sembuf list \<times> sem list \<times> int list option \<Rightarrow> bool"
where
  "loop_good prev sops base adj (ex, prev', rest, base', adj') \<longleftrightarrow>
    undo_vals prev' base' adj' = undo_vals prev base adj \<and> length base' = length base \<and>
    list_all in_s32 (vals base') \<and> adj_fits (length base) adj' \<and> (adj' = None \<longleftrightarrow> adj = None) \<and>
    (ex \<noteq> Out_of_range \<longrightarrow> rev prev' @ rest = rev prev @ sops) \<and>
    (ex = All_done \<longrightarrow> rest = []) \<and> (ex \<noteq> All_done \<longrightarrow> prev' \<noteq> []) \<and>
    (sops_fit (length base) (adj \<noteq> None) prev \<longrightarrow> sops_fit (length base) (adj \<noteq> None) (rev prev' @ rest)) \<and>
    (ex = All_done \<longrightarrow> list_all ((\<le>) 0) (vals base) \<longrightarrow> list_all ((\<le>) 0) (vals base'))"

lemma list_all_update: "list_all P xs \<Longrightarrow> P y \<Longrightarrow> list_all P (xs[i := y])"
  by (cases "i < length xs") (auto simp: list_all_length nth_list_update)

lemma semop_loop_result:
  assumes "sops_fit (length base) (adj \<noteq> None) sops" "list_all in_s32 (vals base)"
    "adj_fits (length base) adj"
  shows "\<exists>R. semop_loop cpid prev sops base adj = Some R \<and> loop_good prev sops base adj R"
  using assms
proof (induction sops arbitrary: prev base adj)
  case (Cons sop sops)
  define n where "n = unat (sem_num sop)"
  define b where "b = base[n := op_sem cpid sop (base ! n)]"
  define v where "v = s32 (semval (base ! n) + sint (sem_op sop))"
  have n: "n = unat (sem_num sop)" "n < length base" using Cons.prems(1) by (simp_all add: n_def)
  have w: "wants_undo sop \<longrightarrow> adj \<noteq> None" using Cons.prems(1) by simp
  have r: "list_all in_s32 (vals b)" and len: "length b = length base" and vb: "vals b = (vals base)[n := v]"
    using Cons.prems(2) unfolding b_def v_def by (simp_all add: list_all_update)
  note C = semop_loop_Cons [OF n Cons.prems(3) w, of cpid prev sops, folded b_def v_def, unfolded Let_def]
  note U = undo_vals_op [OF n Cons.prems(2,3) w, of prev cpid, folded b_def]
  have sf: "sops_fit (length base) (adj \<noteq> None) sops" using Cons.prems(1) by simp
  show ?case
  proof (cases "sint (sem_op sop) = 0 \<and> semval (base ! n) \<noteq> 0")
    case True
    then show ?thesis
      using C Cons.prems undo_vals_skipped [OF n Cons.prems(2) _ w Cons.prems(3), of prev] by simp
  next
    case go: False
    show ?thesis
    proof (cases "adj_bad sop adj")
      case True
      then have "semop_loop cpid prev (sop # sops) base adj =
          Some (Out_of_range, sop\<lparr>sem_flg := sem_flg sop AND NOT SEM_UNDO\<rparr> # prev, sops, b, adj)"
        using C go by simp
      moreover have "loop_good prev (sop # sops) base adj
          (Out_of_range, sop\<lparr>sem_flg := sem_flg sop AND NOT SEM_UNDO\<rparr> # prev, sops, b, adj)"
        using undo_vals_out_of_range [OF n Cons.prems(2), of prev cpid adj, folded b_def] r len
          Cons.prems(1,3) by simp
      ultimately show ?thesis by blast
    next
      case ok: False
      note A = adj_fits_op [OF Cons.prems(3) ok]
      show ?thesis
      proof (cases "0 \<le> v \<and> v \<le> SEMVMX")
        case True
        have eq: "semop_loop cpid prev (sop # sops) base adj = semop_loop cpid (sop # prev) sops b (op_adj sop adj)"
          using C go ok True by auto
        obtain R where R: "semop_loop cpid (sop # prev) sops b (op_adj sop adj) = Some R"
          "loop_good (sop # prev) sops b (op_adj sop adj) R"
          using Cons.IH [of b "op_adj sop adj" "sop # prev", unfolded len A(2)] sf r A(1) by blast
        have "loop_good prev (sop # sops) base adj R"
          using R(2) U A len w n True list_all_update [of "(\<le>) 0" "vals base" v n]
          by (cases R) (auto simp: vb)
        with eq R(1) show ?thesis by auto
      next
        case False
        then obtain ex where "semop_loop cpid prev (sop # sops) base adj = Some (ex, sop # prev, sops, b, op_adj sop adj)"
            "ex \<noteq> All_done"
          using C go ok by (metis linorder_not_le semop_exit.distinct(1,3))
        with U A r len w n sf show ?thesis by auto
      qed
    qed
  qed
qed simp

section \<open>All or nothing\<close>

definition nonneg :: "sem list \<Rightarrow> bool" where
  "nonneg base = list_all ((\<le>) 0) (vals base)"

text \<open>The well-formed arguments of \<open>try_atomic_semop\<close>.\<close>

definition semop_ready :: "sembuf list \<Rightarrow> sem list \<Rightarrow> int list option \<Rightarrow> bool" where
  "semop_ready sops base adj \<longleftrightarrow>
     sops_fit (length base) (adj \<noteq> None) sops \<and> list_all in_s32 (vals base) \<and>
     adj_fits (length base) adj \<and> nonneg base"

lemma semop_loop_total:
  assumes "semop_ready sops base adj"
  obtains ex prev rest base1 adj1 where "semop_loop cpid [] sops base adj = Some (ex, prev, rest, base1, adj1)"
    and "loop_good [] sops base adj (ex, prev, rest, base1, adj1)"
proof -
  obtain R where R: "semop_loop cpid [] sops base adj = Some R" "loop_good [] sops base adj R"
    using semop_loop_result assms unfolding semop_ready_def by blast
  obtain ex prev rest base1 adj1 where "R = (ex, prev, rest, base1, adj1)" by (metis prod_cases5)
  with R that show thesis by blast
qed

text \<open>Operations that only wait for zero change neither values nor adjustments.\<close>

definition zero_ops :: "sembuf list \<Rightarrow> bool" where
  "zero_ops sops = list_all (\<lambda>sop. sint (sem_op sop) = 0) sops"

lemma semop_loop_zero:
  assumes "semop_loop cpid prev sops base adj = Some (All_done, prev', rest, base', adj')"
    "zero_ops sops" "sops_fit (length base) (adj \<noteq> None) sops" "adj_fits (length base) adj"
  shows "vals base' = vals base \<and> adj' = adj"
  using assms
proof (induction sops arbitrary: prev base adj)
  case (Cons sop sops)
  define n where "n = unat (sem_num sop)"
  have n: "n = unat (sem_num sop)" "n < length base" using Cons.prems(3) by (simp_all add: n_def)
  have w: "wants_undo sop \<longrightarrow> adj \<noteq> None" using Cons.prems(3) by simp
  have z: "sint (sem_op sop) = 0" using Cons.prems(2) by (simp add: zero_ops_def)
  note C = semop_loop_Cons [OF n Cons.prems(4) w, of cpid prev sops]
  have v: "semval (base ! n) = 0" using Cons.prems(1) C z by (auto split: if_splits)
  have a: "op_adj sop adj = adj" by (cases adj) (simp_all add: op_adj_def z)
  let ?b = "base[n := op_sem cpid sop (base ! n)]"
  have b: "vals ?b = vals base"
    using n(2) v by (simp add: list_eq_iff_nth_eq nth_list_update z s32_id)
  have "semop_loop cpid (sop # prev) sops ?b adj = Some (All_done, prev', rest, base', adj')"
    using Cons.prems(1) C z v a by (auto simp: Let_def s32_id split: if_splits)
  from Cons.IH [OF this] b Cons.prems(2-4) show ?case by (simp add: zero_ops_def)
qed simp

lemma try_semop_result:
  assumes "semop_ready sops base adj"
  shows "\<exists>r sops' base' adj'. try_semop cpid do_undo sops base adj = Some (r, sops', base', adj', r = 0 \<and> \<not> do_undo) \<and>
     length base' = length base \<and> semop_ready sops' base' adj' \<and> (adj' = None \<longleftrightarrow> adj = None) \<and>
     (r \<noteq> 0 \<or> do_undo \<or> zero_ops sops \<longrightarrow> vals base' = vals base \<and> adj' = adj) \<and>
     (0 \<le> r \<longrightarrow> sops' = sops) \<and> r \<le> 1"
proof -
  obtain ex prev rest base1 adj1 where L: "semop_loop cpid [] sops base adj = Some (ex, prev, rest, base1, adj1)"
    and G: "loop_good [] sops base adj (ex, prev, rest, base1, adj1)"
    using semop_loop_total [OF assms] .
  have "undo_vals prev base1 adj1 = Some (vals base, adj)"
    using G by (simp add: forget_def)
  then obtain base2 where u: "undo_loop prev base1 adj1 = Some (base2, adj)" "vals base2 = vals base"
    by (auto simp: forget_def)
  then have len2: "length base2 = length base" by (metis vals_simps(1))
  let ?r = "case ex of All_done \<Rightarrow> 0 | Out_of_range \<Rightarrow> - ERANGE | Would_block \<Rightarrow> if nowait (hd prev) then - EAGAIN else 1"
  have fit: "sops_fit (length base) (adj \<noteq> None) (rev prev @ rest)" using G by simp
  have r: "?r = 0 \<longleftrightarrow> ex = All_done" "?r \<le> 1" by (cases ex; simp)+
  show ?thesis
  proof (cases "ex = All_done \<and> \<not> do_undo")
    case True
    then have "try_semop cpid do_undo sops base adj = Some (0, rev prev @ rest, base1, adj1, True)"
      by (simp add: try_semop_def L)
    moreover have "zero_ops sops \<longrightarrow> vals base1 = vals base \<and> adj1 = adj"
      using semop_loop_zero [of cpid "[]" sops base adj prev rest base1 adj1] L True assms
      by (simp add: semop_ready_def)
    ultimately show ?thesis
      using True G fit assms by (auto simp: semop_ready_def nonneg_def)
  next
    case False
    then have "try_semop cpid do_undo sops base adj = Some (?r, rev prev @ rest, base2, adj, ?r = 0 \<and> \<not> do_undo)"
      using False by (cases ex) (simp_all add: try_semop_def L u Let_def)
    moreover have "0 \<le> ?r \<longrightarrow> rev prev @ rest = sops" using G by (cases ex) auto
    moreover have "semop_ready (rev prev @ rest) base2 adj"
      using fit assms u(2) len2 by (simp add: semop_ready_def nonneg_def)
    ultimately show ?thesis using r u(2) len2 by blast
  qed
qed

text \<open>The verdict depends on the values and the adjustments alone.\<close>

definition forget_all ::
  "semop_exit \<times> sembuf list \<times> sembuf list \<times> sem list \<times> int list option \<Rightarrow>
   semop_exit \<times> sembuf list \<times> sembuf list \<times> int list \<times> int list option"
where
  "forget_all R = (case R of (ex, prev, rest, base, adj) \<Rightarrow> (ex, prev, rest, vals base, adj))"

lemma forget_all_simp: "forget_all (ex, prev, rest, base, adj) = (ex, prev, rest, vals base, adj)"
  by (simp add: forget_all_def)

lemma semop_loop_cong:
  assumes "vals base1 = vals base2"
  shows "map_option forget_all (semop_loop pid1 prev sops base1 adj) =
         map_option forget_all (semop_loop pid2 prev sops base2 adj)"
  using assms
proof (induction sops arbitrary: prev base1 base2 adj)
  case (Cons sop sops)
  let ?n = "unat (sem_num sop)"
  have len: "length base1 = length base2" using Cons.prems by (metis vals_simps(1))
  show ?case
  proof (cases "?n < length base1")
    case True
    then have s: "semval (base1 ! ?n) = semval (base2 ! ?n)"
      using Cons.prems len by (metis vals_simps(2))
    have v: "vals (base1[?n := c1]) = vals (base2[?n := c2])" if "semval c1 = semval c2" for c1 c2
      using Cons.prems that by simp
    show ?thesis
      using True len s Cons.prems
      by (auto simp: Let_def semop_loop.simps(2) forget_all_simp intro!: Cons.IH v split: option.split)
  qed (simp add: len semop_loop.simps(2))
qed (simp add: forget_all_simp)

lemma try_semop_same_result:
  assumes "vals base1 = vals base2" and "semop_ready sops base1 adj" "semop_ready sops base2 adj"
    and "try_semop pid1 u1 sops base1 adj = Some (r1, R1)" "try_semop pid2 u2 sops base2 adj = Some (r2, R2)"
  shows "r1 = r2"
proof -
  obtain ex1 prev1 rest1 b1 a1 where 1: "semop_loop pid1 [] sops base1 adj = Some (ex1, prev1, rest1, b1, a1)"
    by (rule semop_loop_total [OF assms(2)])
  obtain ex2 prev2 rest2 b2 a2 where 2: "semop_loop pid2 [] sops base2 adj = Some (ex2, prev2, rest2, b2, a2)"
    by (rule semop_loop_total [OF assms(3)])
  have "ex1 = ex2" "prev1 = prev2"
    using semop_loop_cong [OF assms(1), of pid1 "[]" sops adj pid2] 1 2 by (simp_all add: forget_all_simp)
  then show ?thesis
    using assms(4,5) 1 2
    by (cases ex2) (auto simp: try_semop_def Let_def split: if_splits bind_splits)
qed

section \<open>The verdict and the sums\<close>

text \<open>The specification: the operations are tried in order on values and adjustments.\<close>

definition blocked :: "sembuf \<Rightarrow> int" where
  "blocked sop = (if nowait sop then - EAGAIN else 1)"

fun semop_verdict :: "(nat \<Rightarrow> int) \<Rightarrow> (nat \<Rightarrow> int) \<Rightarrow> sembuf list \<Rightarrow> int" where
  "semop_verdict v a [] = 0"
| "semop_verdict v a (sop # sops) =
     (let n = unat (sem_num sop); k = sint (sem_op sop) in
      if k = 0 \<and> v n \<noteq> 0 then blocked sop
      else if wants_undo sop \<and> \<not> in_s16 (a n - k) then - ERANGE
      else if v n + k < 0 then blocked sop
      else if v n + k > SEMVMX then - ERANGE
      else semop_verdict (v(n := v n + k)) (if wants_undo sop then a(n := a n - k) else a) sops)"

definition op_sum :: "nat \<Rightarrow> sembuf list \<Rightarrow> int" where
  "op_sum i sops = sum_list (map (\<lambda>sop. if unat (sem_num sop) = i then sint (sem_op sop) else 0) sops)"

definition undo_sum :: "nat \<Rightarrow> sembuf list \<Rightarrow> int" where
  "undo_sum i sops =
     sum_list (map (\<lambda>sop. if unat (sem_num sop) = i \<and> wants_undo sop then sint (sem_op sop) else 0) sops)"

definition adj_at :: "int list option \<Rightarrow> nat \<Rightarrow> int" where
  "adj_at adj i = (case adj of None \<Rightarrow> 0 | Some a \<Rightarrow> a ! i)"

text \<open>No value so large that adding a \<open>short\<close> overflows.\<close>

definition moderate :: "sem list \<Rightarrow> bool" where
  "moderate base = list_all (\<lambda>v. 0 \<le> v \<and> v < 2147450880) (vals base)"

lemma sint_16_bounds: "-32768 \<le> sint (w :: 16 word)" "sint (w :: 16 word) < 32768"
  using sint_ge [of w] sint_lt [of w] by simp_all

lemma adj_bad_iff:
  assumes "adj_fits m adj" "wants_undo sop \<longrightarrow> adj \<noteq> None"
  shows "adj_bad sop adj \<longleftrightarrow>
    wants_undo sop \<and> \<not> in_s16 (adj_at adj (unat (sem_num sop)) - sint (sem_op sop))"
  using assms by (cases adj) (auto simp: adj_bad_def adj_at_def in_s16_def SEMAEM_def SEMVMX_def)

lemma adj_at_op:
  assumes "adj_fits m adj" "wants_undo sop \<longrightarrow> adj \<noteq> None" "unat (sem_num sop) < m"
  shows "adj_at (op_adj sop adj) i =
    (if i = unat (sem_num sop) \<and> wants_undo sop then adj_at adj i - sint (sem_op sop) else adj_at adj i)"
  using assms by (cases adj) (auto simp: op_adj_def adj_at_def adj_fits_def)

lemma semop_verdict_cong:
  assumes "\<forall>i<m. v i = v' i" "\<forall>i<m. a i = a' i" "sops_fit m h sops"
  shows "semop_verdict v a sops = semop_verdict v' a' sops"
  using assms
proof (induction sops arbitrary: v a v' a')
  case (Cons sop sops)
  then have "\<forall>i<m. (v(unat (sem_num sop) := x)) i = (v'(unat (sem_num sop) := x)) i"
    "\<forall>i<m. (a(unat (sem_num sop) := x)) i = (a'(unat (sem_num sop) := x)) i" for x by simp_all
  with Cons show ?case by (auto simp: Let_def intro!: Cons.IH)
qed simp

lemma semop_loop_verdict:
  assumes "semop_loop cpid prev sops base adj = Some (ex, prev', rest, base', adj')"
    "sops_fit (length base) (adj \<noteq> None) sops" "adj_fits (length base) adj" "moderate base"
  shows "semop_verdict ((!) (vals base)) (adj_at adj) sops =
           (case ex of All_done \<Rightarrow> 0 | Out_of_range \<Rightarrow> - ERANGE | Would_block \<Rightarrow> blocked (hd prev')) \<and>
         (ex = All_done \<longrightarrow>
           (\<forall>i<length base. vals base' ! i = vals base ! i + op_sum i sops \<and>
                            adj_at adj' i = adj_at adj i - undo_sum i sops))"
  using assms
proof (induction sops arbitrary: prev base adj)
  case (Cons sop sops)
  define n where "n = unat (sem_num sop)"
  define b where "b = base[n := op_sem cpid sop (base ! n)]"
  let ?k = "sint (sem_op sop)"
  have n: "n = unat (sem_num sop)" "n < length base" using Cons.prems(2) by (simp_all add: n_def)
  have w: "wants_undo sop \<longrightarrow> adj \<noteq> None" and sf: "sops_fit (length base) (adj \<noteq> None) sops"
    using Cons.prems(2) by simp_all
  have m: "0 \<le> semval (base ! n)" "semval (base ! n) < 2147450880"
    using Cons.prems(4) n(2) by (simp_all add: moderate_def list_all_length)
  have s: "s32 (semval (base ! n) + ?k) = semval (base ! n) + ?k"
    using m sint_16_bounds [of "sem_op sop"] by (intro s32_id) linarith+
  have vb: "vals b = (vals base)[n := semval (base ! n) + ?k]" and len: "length b = length base"
    unfolding b_def by (simp_all add: s)
  note C = semop_loop_Cons [OF n Cons.prems(3) w, of cpid prev sops, folded b_def, unfolded Let_def s]
  note B = adj_bad_iff [OF Cons.prems(3) w, folded n_def]
  have vn: "vals base ! n = semval (base ! n)" using n(2) by simp
  show ?case
  proof (cases "(?k = 0 \<and> semval (base ! n) \<noteq> 0) \<or> adj_bad sop adj \<or>
                semval (base ! n) + ?k < 0 \<or> semval (base ! n) + ?k > SEMVMX")
    case True
    with Cons.prems(1) C B show ?thesis
      by (auto simp: Let_def vn simp flip: n_def split: if_splits)
  next
    case False
    have go: "semop_loop cpid (sop # prev) sops b (op_adj sop adj) = Some (ex, prev', rest, base', adj')"
      using Cons.prems(1) C False by (auto split: if_splits)
    have ok: "\<not> adj_bad sop adj" using False by simp
    note A = adj_fits_op [OF Cons.prems(3) ok]
    have mb: "moderate b" using Cons.prems(4) False unfolding moderate_def vb
      by (intro list_all_update) (auto simp: SEMVMX_def)
    note IH = Cons.IH [OF go, unfolded len A(2), OF sf A(1) mb]
    have V: "semop_verdict ((!) (vals base)) (adj_at adj) (sop # sops) =
          semop_verdict ((!) (vals b)) (adj_at (op_adj sop adj)) sops"
    proof -
      have "semop_verdict ((!) (vals base)) (adj_at adj) (sop # sops) =
          semop_verdict (((!) (vals base))(n := vals base ! n + ?k))
            (if wants_undo sop then (adj_at adj)(n := adj_at adj n - ?k) else adj_at adj) sops"
        using False B by (auto simp: Let_def vn simp flip: n_def)
      also have "\<dots> = semop_verdict ((!) (vals b)) (adj_at (op_adj sop adj)) sops"
        using adj_at_op [OF Cons.prems(3) w, folded n_def, OF n(2)] n(2)
        by (intro semop_verdict_cong [OF _ _ sf]) (auto simp: vb vn nth_list_update)
      finally show ?thesis .
    qed
    have "vals b ! i + op_sum i sops = vals base ! i + op_sum i (sop # sops)"
      "adj_at (op_adj sop adj) i - undo_sum i sops = adj_at adj i - undo_sum i (sop # sops)"
      if "i < length base" for i
      using that adj_at_op [OF Cons.prems(3) w, folded n_def, OF n(2), of i]
      by (auto simp: vb vn nth_list_update op_sum_def undo_sum_def simp flip: n_def)
    then show ?thesis using IH V by simp
  qed
qed (simp add: op_sum_def undo_sum_def)

lemma moderate_ready:
  assumes "sops_fit (length base) (adj \<noteq> None) sops" "adj_fits (length base) adj" "moderate base"
  shows "semop_ready sops base adj"
  using assms by (auto simp: semop_ready_def moderate_def nonneg_def in_s32_def list_all_iff)

lemma try_semop_loop:
  assumes "semop_loop cpid [] sops base adj = Some (ex, prev, rest, base1, adj1)"
    and "try_semop cpid do_undo sops base adj = Some (r, sops', base', adj', c)"
  shows "r = (case ex of All_done \<Rightarrow> 0 | Out_of_range \<Rightarrow> - ERANGE | Would_block \<Rightarrow> blocked (hd prev))"
    and "ex = All_done \<and> \<not> do_undo \<Longrightarrow> base' = base1 \<and> adj' = adj1"
  using assms by (cases ex; auto simp: try_semop_def Let_def blocked_def split: bind_splits if_splits)+

lemma try_semop_verdict:
  assumes "sops_fit (length base) (adj \<noteq> None) sops" "adj_fits (length base) adj" "moderate base"
    and T: "try_semop cpid do_undo sops base adj = Some (r, sops', base', adj', c)"
  shows "r = semop_verdict ((!) (vals base)) (adj_at adj) sops"
proof -
  obtain ex prev rest base1 adj1
    where L: "semop_loop cpid [] sops base adj = Some (ex, prev, rest, base1, adj1)"
    by (rule semop_loop_total [OF moderate_ready [OF assms(1-3)]])
  show ?thesis using semop_loop_verdict [OF L assms(1-3)] try_semop_loop(1) [OF L T] by simp
qed

lemma try_semop_sums:
  assumes fits: "sops_fit (length base) (adj \<noteq> None) sops" "adj_fits (length base) adj" "moderate base"
    and T: "try_semop cpid False sops base adj = Some (0, sops', base', adj', c)"
  shows "length base' = length base"
    "\<forall>i<length base. vals base' ! i = vals base ! i + op_sum i sops \<and> adj_at adj' i = adj_at adj i - undo_sum i sops"
    "adj_fits (length base) adj'"
proof -
  have ready: "semop_ready sops base adj" by (rule moderate_ready [OF fits])
  obtain ex prev rest base1 adj1
    where L: "semop_loop cpid [] sops base adj = Some (ex, prev, rest, base1, adj1)"
    by (rule semop_loop_total [OF ready])
  note R = try_semop_loop [OF L T]
  have "ex = All_done" using R(1) by (cases ex) (auto simp: blocked_def split: if_splits)
  then show "\<forall>i<length base. vals base' ! i = vals base ! i + op_sum i sops \<and> adj_at adj' i = adj_at adj i - undo_sum i sops"
    using semop_loop_verdict [OF L fits] R(2) by simp
  obtain sops2 base2 adj2 where "try_semop cpid False sops base adj = Some (0, sops2, base2, adj2, True)"
      "length base2 = length base" "semop_ready sops2 base2 adj2"
    using try_semop_result [OF ready, of cpid False] T by auto
  then show "length base' = length base" "adj_fits (length base) adj'" using T by (auto simp: semop_ready_def)
qed

text \<open>C29. An array of operations is atomic: the result is the verdict of trying the operations in
  order; when it is success and the trial is not to be undone, every value has grown by the sum of
  the operations on it and every adjustment shrunk by the sum of those with \<open>SEM_UNDO\<close>; in every
  other case all values and adjustments are unchanged.\<close>

theorem try_semop_atomic:
  assumes "sops_fit (length base) (adj \<noteq> None) sops" "adj_fits (length base) adj" "moderate base"
  shows "\<exists>r sops' base' adj'.
     try_semop cpid do_undo sops base adj = Some (r, sops', base', adj', r = 0 \<and> \<not> do_undo) \<and>
     r = semop_verdict ((!) (vals base)) (adj_at adj) sops \<and> length base' = length base \<and>
     (if r = 0 \<and> \<not> do_undo
      then \<forall>i<length base. vals base' ! i = vals base ! i + op_sum i sops \<and>
                           adj_at adj' i = adj_at adj i - undo_sum i sops
      else vals base' = vals base \<and> adj' = adj)"
proof -
  have ready: "semop_ready sops base adj" by (rule moderate_ready [OF assms])
  obtain r sops' base' adj' where T: "try_semop cpid do_undo sops base adj = Some (r, sops', base', adj', r = 0 \<and> \<not> do_undo)"
    "length base' = length base" "r \<noteq> 0 \<or> do_undo \<longrightarrow> vals base' = vals base \<and> adj' = adj"
    using try_semop_result [OF ready] by blast
  have "r = semop_verdict ((!) (vals base)) (adj_at adj) sops" by (rule try_semop_verdict [OF assms T(1)])
  moreover have "\<forall>i<length base. vals base' ! i = vals base ! i + op_sum i sops \<and>
                           adj_at adj' i = adj_at adj i - undo_sum i sops" if "r = 0 \<and> \<not> do_undo"
    using try_semop_sums(2) [OF assms] T(1) that by simp
  ultimately show ?thesis using T by auto
qed

text \<open>Operations that only add never have to wait.\<close>

definition positive_ops :: "sembuf list \<Rightarrow> bool" where
  "positive_ops sops = list_all (\<lambda>sop. sint (sem_op sop) > 0) sops"

lemma positive_verdict:
  assumes "positive_ops sops" "\<forall>i<m. 0 \<le> v i" "sops_fit m h sops"
  shows "semop_verdict v a sops \<le> 0"
  using assms
proof (induction sops arbitrary: v a)
  case (Cons sop sops)
  then have k: "0 < sint (sem_op sop)" "0 \<le> v (unat (sem_num sop))" by (simp_all add: positive_ops_def)
  then have "\<forall>i<m. 0 \<le> (v(unat (sem_num sop) := v (unat (sem_num sop)) + sint (sem_op sop))) i"
    using Cons.prems(2) by simp
  then have "semop_verdict (v(unat (sem_num sop) := v (unat (sem_num sop)) + sint (sem_op sop))) a' sops \<le> 0" for a'
    using Cons.IH Cons.prems by (simp add: positive_ops_def)
  moreover have "\<not> v (unat (sem_num sop)) + sint (sem_op sop) < 0" using k by simp
  ultimately show ?case using k by (simp add: Let_def del: fun_upd_apply)
qed simp

text \<open>Two semaphores; the first loses one, with undo, and the second gains two.\<close>

definition two_sems :: "sem list" where
  "two_sems = [\<lparr>semval = 3, sempid = 7\<rparr>, \<lparr>semval = 0, sempid = 0\<rparr>]"

definition down_up :: "sembuf list" where
  "down_up = [\<lparr>sem_num = 0, sem_op = -1, sem_flg = 4096\<rparr>, \<lparr>sem_num = 1, sem_op = 2, sem_flg = 0\<rparr>]"

theorem try_semop_atomic_witness:
  "\<exists>sops' base' adj'. try_semop 42 False down_up two_sems (Some [0, 0]) = Some (0, sops', base', adj', True) \<and>
     vals base' ! 0 = 2 \<and> vals base' ! 1 = 2 \<and> adj_at adj' 0 = 1"
proof -
  have fits: "sops_fit (length two_sems) (Some [0, 0] \<noteq> (None :: int list option)) down_up"
      "adj_fits (length two_sems) (Some [0, 0])" "moderate two_sems"
    by (simp_all add: two_sems_def down_up_def adj_fits_def in_s16_def moderate_def vals_def)
  have "semop_verdict ((!) (vals two_sems)) (adj_at (Some [0, 0])) down_up = 0"
    "op_sum 0 down_up = -1" "op_sum 1 down_up = 2" "undo_sum 0 down_up = -1"
    "vals two_sems ! 0 = 3" "vals two_sems ! 1 = 0"
    by (simp_all add: two_sems_def down_up_def vals_def adj_at_def wants_undo_def SEM_UNDO_def in_s16_def
        SEMVMX_def op_sum_def undo_sum_def)
  with try_semop_atomic [OF fits, of 42 False] show ?thesis
    by (auto simp: two_sems_def adj_at_def)
qed


end
