(* ===== verification/SemSystem.thy ===== *)
theory SemSystem
  imports SemAtomic
begin

text \<open>
  Any number of tasks use the semaphore system calls at the same time. The theory defines the
  interleaving of their atomic sections, the structural invariant of the stores (the view), and
  shows what the small steps of the code keep: a trial of operations changes data only, and
  updating a queue changes only the queue.
\<close>

section \<open>Interleavings\<close>

datatype sem_pc = Idle | Waiting sem_wait | Exiting

record sem_world =
  sys :: sem_sys
  pcs :: "task \<Rightarrow> sem_pc"

definition after :: "sem_ret \<Rightarrow> sem_pc" where
  "after r = (case r of Ret _ \<Rightarrow> Idle | Wait w \<Rightarrow> Waiting w)"

text \<open>The continuation of a call that has given up the lock.\<close>

definition sem_resume ::
  "task \<Rightarrow> sem_wait \<Rightarrow> ptr option \<Rightarrow> semun \<Rightarrow> sem_sys \<Rightarrow> (sem_ret \<times> sem_sys) option"
where
  "sem_resume t w mem arg s =
     (case w of
        Alloc_undo semid p nsems sops decrease alter \<Rightarrow>
          semop_alloc t semid p nsems sops decrease alter mem s
      | Semop_sleep semid p un alter \<Rightarrow> semop_wakeup t semid p un alter s
      | Getall_alloc semid p nsems \<Rightarrow>
          map_option (\<lambda>(r, out, s). (r, s)) (getall_alloc t semid p nsems (mem \<noteq> None) arg s)
      | Setall_copy semid p nsems \<Rightarrow>
          map_option (\<lambda>(r, out, s). (r, s)) (setall_copy t semid p nsems (mem \<noteq> None) arg s))"

text \<open>
  One atomic section of one task. Memory that is handed out is not in use; \<open>allowed\<close> restricts
  the operation arrays that tasks pass to \<open>sys_semop\<close>. Between the sections the clock advances
  and credentials and sysctl limits change.
\<close>

inductive sem_step :: "(sembuf list \<Rightarrow> bool) \<Rightarrow> sem_world \<Rightarrow> sem_world \<Rightarrow> bool" for allowed where
  semget: "pcs w t = Idle \<Longrightarrow> (\<And>p. mem = Some p \<Longrightarrow> semas (sys w) p = None) \<Longrightarrow>
     sys_semget t key nsems flg mem grow (sys w) = Some (r, s') \<Longrightarrow>
     sem_step allowed w (w\<lparr>sys := s'\<rparr>)"
| semop: "pcs w t = Idle \<Longrightarrow> allowed sops \<Longrightarrow> in_s32 semid \<Longrightarrow>
     sys_semop t semid sops mem copy (sys w) = Some (r, s') \<Longrightarrow>
     sem_step allowed w (w\<lparr>sys := s', pcs := (pcs w)(t := after r)\<rparr>)"
| semctl: "pcs w t = Idle \<Longrightarrow> in_s32 semid \<Longrightarrow>
     sys_semctl t semid semnum cmd arg (sys w) = Some (r, out, s') \<Longrightarrow>
     sem_step allowed w (w\<lparr>sys := s', pcs := (pcs w)(t := after r)\<rparr>)"
| resume: "pcs w t = Waiting wt \<Longrightarrow> (\<And>u. mem = Some u \<Longrightarrow> undos (sys w) u = None) \<Longrightarrow>
     sem_resume t wt mem arg (sys w) = Some (r, s') \<Longrightarrow>
     sem_step allowed w (w\<lparr>sys := s', pcs := (pcs w)(t := after r)\<rparr>)"
| exit_begin: "pcs w t = Idle \<Longrightarrow> exit_sleeping t (sys w) = Some s' \<Longrightarrow>
     sem_step allowed w (w\<lparr>sys := s', pcs := (pcs w)(t := Exiting)\<rparr>)"
| exit_next: "pcs w t = Exiting \<Longrightarrow> semundo (sys w) t \<noteq> [] \<Longrightarrow> exit_undo t (sys w) = Some s' \<Longrightarrow>
     sem_step allowed w (w\<lparr>sys := s'\<rparr>)"
| exit_end: "pcs w t = Exiting \<Longrightarrow> semundo (sys w) t = [] \<Longrightarrow>
     sem_step allowed w (w\<lparr>pcs := (pcs w)(t := Idle)\<rparr>)"
| outside: "sem_step allowed w
     (w\<lparr>sys := (sys w)\<lparr>current_time := now, creds := cr, overflowuid := ou, overflowgid := og,
        sc_semmsl := c1, sc_semmns := c2, sc_semopm := c3, sc_semmni := c4\<rparr>\<rparr>)"

section \<open>The structure of a state\<close>

text \<open>
  The view of a state leaves out the values of semaphores and adjustments: which slot holds
  which set, the sequence number, size, undo structures and pending tasks of every set, the
  set and size of every undo structure, and what the tasks have.
\<close>

record view =
  v_slot :: "nat \<Rightarrow> ptr option"
  v_seq :: "ptr \<Rightarrow> ulong option"
  v_nsems :: "ptr \<Rightarrow> nat"
  v_und :: "ptr \<Rightarrow> ptr list"
  v_pend :: "ptr \<Rightarrow> task list"
  v_undo :: "ptr \<Rightarrow> (int \<times> nat) option"
  v_semundo :: "task \<Rightarrow> ptr list"
  v_queue :: "task \<Rightarrow> sem_queue option"
  v_sleeping :: "task \<Rightarrow> bool"

definition view_of :: "sem_sys \<Rightarrow> view" where
  "view_of s =
     \<lparr>v_slot = slot (sem_ids s),
      v_seq = (\<lambda>p. map_option (\<lambda>a. p_seq (sem_perm a)) (semas s p)),
      v_nsems = (\<lambda>p. case semas s p of None \<Rightarrow> 0 | Some a \<Rightarrow> sem_nsems a),
      v_und = (\<lambda>p. case semas s p of None \<Rightarrow> [] | Some a \<Rightarrow> sma_undo a),
      v_pend = (\<lambda>p. case semas s p of None \<Rightarrow> [] | Some a \<Rightarrow> sem_pending a),
      v_undo = (\<lambda>u. map_option (\<lambda>x. (un_semid x, length (semadj x))) (undos s u)),
      v_semundo = semundo s, v_queue = queues s, v_sleeping = semsleeping s\<rparr>"

definition has_id :: "view \<Rightarrow> ptr \<Rightarrow> int \<Rightarrow> bool" where
  "has_id v p semid \<longleftrightarrow>
     (\<exists>i q. v_slot v i = Some p \<and> v_seq v p = Some q \<and> semid = ipc_buildid (int i) (sint q))"

definition semid_ok :: "int \<Rightarrow> bool" where
  "semid_ok semid \<longleftrightarrow> 0 \<le> semid \<and> semid < 2147483648"

definition undo_fine :: "view \<Rightarrow> ptr \<Rightarrow> bool" where
  "undo_fine v u \<longleftrightarrow> (\<exists>semid n. v_undo v u = Some (semid, n) \<and> (semid = -1 \<or> semid_ok semid))"

text \<open>An undo structure is out of date or on the list of the set it is for.\<close>

definition linked :: "view \<Rightarrow> ptr \<Rightarrow> bool" where
  "linked v u \<longleftrightarrow>
     (\<forall>semid n. v_undo v u = Some (semid, n) \<longrightarrow> semid \<noteq> -1 \<longrightarrow>
        (\<exists>p. has_id v p semid \<and> u \<in> set (v_und v p) \<and> n = v_nsems v p))"

text \<open>An entry that is queued belongs to a set and fits it.\<close>

definition queue_fine :: "view \<Rightarrow> task \<Rightarrow> sem_queue \<Rightarrow> bool" where
  "queue_fine v t q \<longleftrightarrow>
     (q_prev q \<longrightarrow>
        t \<in> set (v_pend v (q_sma q)) \<and> has_id v (q_sma q) (q_id q) \<and>
        sops_fit (v_nsems v (q_sma q)) (q_undo q \<noteq> None) (q_sops q) \<and>
        (\<forall>u. q_undo q = Some u \<longrightarrow> u \<in> set (v_und v (q_sma q)) \<and> u \<in> set (v_semundo v t)) \<and>
        (q_status q = 1 \<longrightarrow> q_alter q))"

definition set_fine :: "view \<Rightarrow> ptr \<Rightarrow> bool" where
  "set_fine v p \<longleftrightarrow>
     ((\<exists>i. v_slot v i = Some p) \<longleftrightarrow> v_seq v p \<noteq> None) \<and>
     (\<forall>q. v_seq v p = Some q \<longrightarrow> unat q < 65536) \<and>
     distinct (v_und v p) \<and> distinct (v_pend v p) \<and>
     (\<forall>u\<in>set (v_und v p). (\<exists>t. u \<in> set (v_semundo v t)) \<and>
        (\<exists>semid. v_undo v u = Some (semid, v_nsems v p) \<and> has_id v p semid)) \<and>
     (\<forall>t\<in>set (v_pend v p). \<exists>q. v_queue v t = Some q \<and> q_prev q \<and> q_sma q = p)"

definition wf_view :: "view \<Rightarrow> bool" where
  "wf_view v \<longleftrightarrow>
     (\<forall>i. v_slot v i \<noteq> None \<longrightarrow> i < 32768) \<and>
     (\<forall>i j p. v_slot v i = Some p \<longrightarrow> v_slot v j = Some p \<longrightarrow> i = j) \<and>
     (\<forall>p. set_fine v p) \<and>
     (\<forall>t. distinct (v_semundo v t)) \<and>
     (\<forall>t t' u. u \<in> set (v_semundo v t) \<longrightarrow> u \<in> set (v_semundo v t') \<longrightarrow> t = t') \<and>
     (\<forall>t. \<forall>u\<in>set (v_semundo v t). undo_fine v u) \<and>
     (\<forall>t q. v_queue v t = Some q \<longrightarrow> queue_fine v t q)"

text \<open>The data: as many semaphores as the set has, no negative value, adjustments of type \<open>short\<close>.\<close>

definition data_ok :: "sem_sys \<Rightarrow> bool" where
  "data_ok s \<longleftrightarrow>
     (\<forall>p a. semas s p = Some a \<longrightarrow>
        length (sem_base a) = sem_nsems a \<and> list_all in_s32 (vals (sem_base a)) \<and> nonneg (sem_base a)) \<and>
     (\<forall>u x. undos s u = Some x \<longrightarrow> list_all in_s16 (semadj x))"

text \<open>Where each task is agrees with what it has.\<close>

definition pc_fine :: "view \<Rightarrow> task \<Rightarrow> sem_pc \<Rightarrow> bool" where
  "pc_fine v t pc \<longleftrightarrow>
     (pc \<noteq> Exiting \<longrightarrow> (\<forall>u\<in>set (v_semundo v t). linked v u)) \<and>
     (case pc of
        Waiting (Semop_sleep semid p un alter) \<Rightarrow>
          semid_ok semid \<and> v_sleeping v t \<and>
          (\<exists>q. v_queue v t = Some q \<and> q_sma q = p \<and> q_undo q = un \<and> q_id q = semid \<and>
               (q_alter q \<longrightarrow> alter) \<and> (\<not> q_prev q \<longrightarrow> q_status q \<noteq> 1))
      | Waiting (Alloc_undo semid p nsems sops decrease alter) \<Rightarrow>
          semid_ok semid \<and> \<not> v_sleeping v t \<and> v_queue v t = None \<and> sops_fit nsems True sops \<and>
          (decrease \<longrightarrow> alter) \<and> (\<not> alter \<longrightarrow> zero_ops sops)
      | Waiting (Getall_alloc semid p nsems) \<Rightarrow> semid_ok semid \<and> \<not> v_sleeping v t \<and> v_queue v t = None
      | Waiting (Setall_copy semid p nsems) \<Rightarrow> semid_ok semid \<and> \<not> v_sleeping v t \<and> v_queue v t = None
      | _ \<Rightarrow> \<not> v_sleeping v t \<and> v_queue v t = None)"

definition slot_nsems :: "view \<Rightarrow> nat \<Rightarrow> int" where
  "slot_nsems v i = (case v_slot v i of None \<Rightarrow> 0 | Some p \<Rightarrow> int (v_nsems v p))"

definition used_ok :: "sem_sys \<Rightarrow> bool" where
  "used_ok s \<longleftrightarrow> used_sems s = s32 (sum_list (map (slot_nsems (view_of s)) [0..<32768]))"

definition sem_inv :: "sem_world \<Rightarrow> bool" where
  "sem_inv w \<longleftrightarrow>
     ids_ok (sem_ids (sys w)) \<and> wf_view (view_of (sys w)) \<and> data_ok (sys w) \<and> used_ok (sys w) \<and>
     (\<forall>t. pc_fine (view_of (sys w)) t (pcs w t))"

section \<open>Consequences of the invariant\<close>

lemma view_of_simps [simp]:
  "v_slot (view_of s) = slot (sem_ids s)" "v_semundo (view_of s) = semundo s"
  "v_queue (view_of s) = queues s" "v_sleeping (view_of s) = semsleeping s"
  "v_seq (view_of s) p = map_option (\<lambda>a. p_seq (sem_perm a)) (semas s p)"
  "v_undo (view_of s) u = map_option (\<lambda>x. (un_semid x, length (semadj x))) (undos s u)"
  by (simp_all add: view_of_def)

lemma view_of_set [simp]:
  assumes "semas s p = Some a"
  shows "v_nsems (view_of s) p = sem_nsems a" "v_und (view_of s) p = sma_undo a"
    "v_pend (view_of s) p = sem_pending a"
  using assms by (simp_all add: view_of_def)

lemma view_of_dead:
  assumes "semas s p = None"
  shows "v_nsems (view_of s) p = 0" "v_und (view_of s) p = []" "v_pend (view_of s) p = []"
  using assms by (simp_all add: view_of_def)

lemma wf_viewD:
  assumes "wf_view v"
  shows "\<And>i. v_slot v i \<noteq> None \<Longrightarrow> i < 32768"
    "\<And>i j p. v_slot v i = Some p \<Longrightarrow> v_slot v j = Some p \<Longrightarrow> i = j"
    "\<And>p. set_fine v p" "\<And>t. distinct (v_semundo v t)"
    "\<And>t t' u. u \<in> set (v_semundo v t) \<Longrightarrow> u \<in> set (v_semundo v t') \<Longrightarrow> t = t'"
    "\<And>t u. u \<in> set (v_semundo v t) \<Longrightarrow> undo_fine v u"
    "\<And>t q. v_queue v t = Some q \<Longrightarrow> queue_fine v t q"
  using assms unfolding wf_view_def by blast+

lemma has_id_bounds:
  assumes "wf_view v" "has_id v p semid"
  shows "semid_ok semid" "\<exists>i q. v_slot v i = Some p \<and> v_seq v p = Some q \<and> i < 32768 \<and>
           semid mod 32768 = int i \<and> semid div 32768 = uint q"
proof -
  obtain i q where h: "v_slot v i = Some p" "v_seq v p = Some q" "semid = ipc_buildid (int i) (sint q)"
    using assms(2) by (auto simp: has_id_def)
  have i: "i < 32768" and q: "unat q < 65536"
    using wf_viewD(1,3) [OF assms(1)] h(1,2) unfolding set_fine_def by fastforce+
  note b = buildid [OF i q] and u = small_seq [OF q]
  show "semid_ok semid" unfolding semid_ok_def h(3) using b(1,2) u(2,3) i by linarith
  show "\<exists>i q. v_slot v i = Some p \<and> v_seq v p = Some q \<and> i < 32768 \<and>
           semid mod 32768 = int i \<and> semid div 32768 = uint q"
    using h b i by blast
qed

lemma has_id_unique:
  assumes "wf_view v" "has_id v p semid" "has_id v p' semid"
  shows "p = p'"
proof -
  obtain i i' where "v_slot v i = Some p" "semid mod 32768 = int i" "v_slot v i' = Some p'" "semid mod 32768 = int i'"
    using has_id_bounds(2) [OF assms(1,2)] has_id_bounds(2) [OF assms(1,3)] by blast
  then show ?thesis by simp
qed

lemma sem_lock_slot:
  assumes "ids_ok (sem_ids s)" "semid_ok semid"
  shows "sem_lock semid s = Some (slot (sem_ids s) (nat (semid mod 32768)))"
  using it.lock_slot [OF assms(1)] assms(2) by (simp add: sem_lock_def semid_ok_def)

lemma has_id_lock:
  assumes "ids_ok (sem_ids s)" "wf_view (view_of s)" "has_id (view_of s) p semid"
  obtains a where "sem_lock semid s = Some (Some p)" "semas s p = Some a" "\<not> ipc_checkid (sem_perm a) semid"
proof -
  from has_id_bounds(2) [OF assms(2,3)] obtain i q a where
    h: "slot (sem_ids s) i = Some p" "semas s p = Some a" "p_seq (sem_perm a) = q"
      "semid mod 32768 = int i" "semid div 32768 = uint q" by auto
  have ok: "semid_ok semid" by (rule has_id_bounds(1) [OF assms(2,3)])
  then have "\<not> ipc_checkid (sem_perm a) semid"
    using checkid [of semid "sem_perm a"] h by (simp add: semid_ok_def)
  with that h(1,2,4) sem_lock_slot [OF assms(1) ok] show thesis by simp
qed

lemma lock_has_id:
  assumes "ids_ok (sem_ids s)" "wf_view (view_of s)" "semid_ok semid"
    and "sem_lock semid s = Some (Some p)" "semas s p = Some a" "\<not> ipc_checkid (sem_perm a) semid"
  shows "has_id (view_of s) p semid"
proof -
  let ?i = "nat (semid mod 32768)"
  have sl: "slot (sem_ids s) ?i = Some p" using assms(4) sem_lock_slot [OF assms(1,3)] by simp
  have d: "semid div 32768 = uint (p_seq (sem_perm a))"
    using checkid [of semid "sem_perm a"] assms(3,6) by (simp add: semid_ok_def)
  have q: "unat (p_seq (sem_perm a)) < 65536"
    using wf_viewD(3) [OF assms(2), of p] assms(5) by (simp add: set_fine_def)
  have "?i < 32768" using assms(3) by (simp add: semid_ok_def nat_less_iff)
  from buildid(1) [OF this q] have "semid = ipc_buildid (int ?i) (sint (p_seq (sem_perm a)))"
    using d assms(3) mult_div_mod_eq [of 32768 semid] by (simp add: semid_ok_def)
  with sl assms(5) show ?thesis unfolding has_id_def by auto
qed

lemma lock_live:
  assumes "ids_ok (sem_ids s)" "wf_view (view_of s)" "semid_ok semid" "sem_lock semid s = Some (Some p)"
  obtains a where "semas s p = Some a"
proof -
  have "slot (sem_ids s) (nat (semid mod 32768)) = Some p" using assms sem_lock_slot by simp
  then have "v_seq (view_of s) p \<noteq> None"
    using wf_viewD(3) [OF assms(2), of p] unfolding set_fine_def by auto
  with that show thesis by auto
qed

section \<open>A trial changes data only\<close>

text \<open>Two states with the same values and adjustments of a set.\<close>

definition same_at :: "ptr \<Rightarrow> sem_sys \<Rightarrow> sem_sys \<Rightarrow> bool" where
  "same_at p s s' \<longleftrightarrow>
     map_option (\<lambda>a. vals (sem_base a)) (semas s p) = map_option (\<lambda>a. vals (sem_base a)) (semas s' p) \<and>
     (\<forall>u\<in>set (v_und (view_of s) p). map_option semadj (undos s u) = map_option semadj (undos s' u))"

lemma undo_one_set:
  assumes "wf_view v" "u \<in> set (v_und v p)" "u \<in> set (v_und v p')"
  shows "p = p'"
proof -
  obtain semid where "has_id v p semid" "has_id v p' semid"
    using wf_viewD(3) [OF assms(1), of p] wf_viewD(3) [OF assms(1), of p'] assms(2,3)
    unfolding set_fine_def by fastforce
  then show ?thesis by (rule has_id_unique [OF assms(1)])
qed

text \<open>Two states that differ in the contents of sets and undo structures at most.\<close>

definition data_step :: "sem_sys \<Rightarrow> sem_sys \<Rightarrow> bool" where
  "data_step s s' \<longleftrightarrow> view_of s' = view_of s \<and> data_ok s' \<and> s'\<lparr>semas := semas s, undos := undos s\<rparr> = s"

lemma data_stepD:
  assumes "data_step s s'"
  shows "view_of s' = view_of s" "data_ok s'" "sem_ids s' = sem_ids s" "used_sems s' = used_sems s"
    "semundo s' = semundo s" "queues s' = queues s" "semsleeping s' = semsleeping s"
    "creds s' = creds s" "current_time s' = current_time s"
proof -
  have e: "s'\<lparr>semas := semas s, undos := undos s\<rparr> = s" using assms by (simp add: data_step_def)
  show "view_of s' = view_of s" "data_ok s'" using assms by (simp_all add: data_step_def)
  show "sem_ids s' = sem_ids s" using arg_cong [OF e, of sem_ids] by simp
  show "used_sems s' = used_sems s" using arg_cong [OF e, of used_sems] by simp
  show "semundo s' = semundo s" using arg_cong [OF e, of semundo] by simp
  show "queues s' = queues s" using arg_cong [OF e, of queues] by simp
  show "semsleeping s' = semsleeping s" using arg_cong [OF e, of semsleeping] by simp
  show "creds s' = creds s" using arg_cong [OF e, of creds] by simp
  show "current_time s' = current_time s" using arg_cong [OF e, of current_time] by simp
qed

definition trial_ready :: "sem_sys \<Rightarrow> ptr \<Rightarrow> sembuf list \<Rightarrow> ptr option \<Rightarrow> bool" where
  "trial_ready s p sops un \<longleftrightarrow>
     (\<exists>a. semas s p = Some a \<and> sops_fit (sem_nsems a) (un \<noteq> None) sops \<and>
          (\<forall>u. un = Some u \<longrightarrow> u \<in> set (sma_undo a)))"

lemma trial_data:
  assumes "wf_view (view_of s)" "data_ok s" "semas s p = Some a"
    "sops_fit (sem_nsems a) (un \<noteq> None) sops" "\<forall>u. un = Some u \<longrightarrow> u \<in> set (sma_undo a)"
  obtains adj where "get_adj un s = Some adj" "semop_ready sops (sem_base a) adj"
    "un = None \<longleftrightarrow> adj = None" "\<forall>u. un = Some u \<longrightarrow> (\<exists>x. undos s u = Some x \<and> adj = Some (semadj x))"
proof -
  have d: "length (sem_base a) = sem_nsems a" "list_all in_s32 (vals (sem_base a))" "nonneg (sem_base a)"
    using assms(2,3) unfolding data_ok_def by blast+
  show thesis
  proof (cases un)
    case None
    then show thesis using that [of None] d assms(4)
      by (simp add: get_adj_def semop_ready_def adj_fits_def)
  next
    case (Some u)
    then have "u \<in> set (v_und (view_of s) p)" using assms(3,5) by simp
    then obtain x where x: "undos s u = Some x" "length (semadj x) = sem_nsems a"
      using wf_viewD(3) [OF assms(1), of p] assms(3) unfolding set_fine_def by fastforce
    moreover have "list_all in_s16 (semadj x)" using assms(2) x(1) unfolding data_ok_def by blast
    ultimately show thesis using that [of "Some (semadj x)"] d assms(4) Some
      by (simp add: get_adj_def semop_ready_def adj_fits_def)
  qed
qed

lemma trial_step:
  assumes wf: "wf_view (view_of s)" and dok: "data_ok s" and ready: "trial_ready s p sops un"
  obtains r sops' s' where "try_atomic_semop p sops un cpid du s = Some (r, sops', s')"
    "data_step s s'" "trial_ready s' p sops' un" "\<forall>p'. p' \<noteq> p \<or> r \<noteq> 0 \<or> du \<or> zero_ops sops \<longrightarrow> same_at p' s s'"
    "0 \<le> r \<longrightarrow> sops' = sops" "r \<le> 1"
proof -
  obtain a where a: "semas s p = Some a" "sops_fit (sem_nsems a) (un \<noteq> None) sops"
      "\<forall>u. un = Some u \<longrightarrow> u \<in> set (sma_undo a)"
    using ready unfolding trial_ready_def by blast
  obtain adj where adj: "get_adj un s = Some adj" "semop_ready sops (sem_base a) adj" "un = None \<longleftrightarrow> adj = None"
      "\<forall>u. un = Some u \<longrightarrow> (\<exists>x. undos s u = Some x \<and> adj = Some (semadj x))"
    using trial_data [OF wf dok a] .
  obtain r sops' base' adj' where T: "try_semop cpid du sops (sem_base a) adj = Some (r, sops', base', adj', r = 0 \<and> \<not> du)"
      "length base' = length (sem_base a)" "semop_ready sops' base' adj'" "adj' = None \<longleftrightarrow> adj = None"
      "r \<noteq> 0 \<or> du \<or> zero_ops sops \<longrightarrow> vals base' = vals (sem_base a) \<and> adj' = adj" "0 \<le> r \<longrightarrow> sops' = sops" "r \<le> 1"
    using try_semop_result [OF adj(2), of cpid du] by blast
  define a' where "a' = (if r = 0 \<and> \<not> du then a\<lparr>sem_base := base', sem_otime := current_time s\<rparr> else a\<lparr>sem_base := base'\<rparr>)"
  define s' where "s' = put_adj un adj' (s\<lparr>semas := (semas s)(p \<mapsto> a')\<rparr>)"
  have run: "try_atomic_semop p sops un cpid du s = Some (r, sops', s')"
    by (simp add: try_atomic_semop_def a(1) adj(1) T(1) s'_def a'_def Let_def)
  have a': "sem_base a' = base'" "sem_nsems a' = sem_nsems a" "sma_undo a' = sma_undo a"
      "sem_pending a' = sem_pending a" "sem_perm a' = sem_perm a" by (simp_all add: a'_def)
  have semas': "semas s' = (semas s)(p \<mapsto> a')"
    by (simp add: s'_def put_adj_def split: option.split)
  have undos': "undos s' = (case un of None \<Rightarrow> undos s | Some u \<Rightarrow> (undos s)(u \<mapsto> (the (undos s u))\<lparr>semadj := the adj'\<rparr>))"
    using adj(3,4) T(4) by (auto simp: s'_def put_adj_def split: option.split)
  have rest: "s'\<lparr>semas := semas s, undos := undos s\<rparr> = s"
    by (simp add: s'_def put_adj_def split: option.split)
  have same: "sem_ids s' = sem_ids s" "semundo s' = semundo s" "queues s' = queues s"
      "semsleeping s' = semsleeping s" by (simp_all add: s'_def put_adj_def split: option.split)
  have len: "length (semadj (the (undos s u))) = length (the adj')" "undos s u \<noteq> None" if "un = Some u" for u
    using adj(2,4) T(2-4) that by (auto simp: semop_ready_def adj_fits_def)
  show thesis
  proof (rule that [OF run])
    have "view_of s' = view_of s"
      using same len a(1) by (auto simp: view_of_def semas' undos' a' fun_eq_iff split: option.split)
    moreover have "data_ok s'"
      using dok T(2-4) adj(3) a(1) unfolding data_ok_def
      by (auto simp: semas' undos' a' semop_ready_def adj_fits_def split: option.splits if_splits)
    ultimately show "data_step s s'" using rest by (simp add: data_step_def)
    show "trial_ready s' p sops' un"
      using T(2-4) a adj(3) dok unfolding trial_ready_def data_ok_def
      by (auto simp: semas' a' semop_ready_def)
    have "same_at p' s s'" if "p' \<noteq> p \<or> r \<noteq> 0 \<or> du \<or> zero_ops sops" for p'
    proof (cases "p' = p")
      case True
      with that T(5) adj(4) a(1) show ?thesis by (auto simp: same_at_def semas' undos' a' split: option.split)
    next
      case False
      then have "un \<noteq> Some u" if "u \<in> set (v_und (view_of s) p')" for u
        using undo_one_set [OF wf that, of p] a(1,3) by auto
      with False show ?thesis by (auto simp: same_at_def semas' undos' split: option.split)
    qed
    then show "\<forall>p'. p' \<noteq> p \<or> r \<noteq> 0 \<or> du \<or> zero_ops sops \<longrightarrow> same_at p' s s'" by blast
  qed (use T in simp_all)
qed

text \<open>The verdict on an array of operations in a state.\<close>

definition verdict :: "sem_sys \<Rightarrow> ptr \<Rightarrow> sembuf list \<Rightarrow> ptr option \<Rightarrow> int" where
  "verdict s p sops un =
     (case try_atomic_semop p sops un 0 True s of Some (r, _) \<Rightarrow> r | None \<Rightarrow> 1)"

lemma trial_same_result:
  assumes wf: "wf_view (view_of s)" "wf_view (view_of s')" and dok: "data_ok s" "data_ok s'"
    and ready: "trial_ready s p sops un" "trial_ready s' p sops un" and same: "same_at p s s'"
    and T: "try_atomic_semop p sops un pid1 u1 s = Some (r1, R1)" "try_atomic_semop p sops un pid2 u2 s' = Some (r2, R2)"
  shows "r1 = r2"
proof -
  obtain a a' where a: "semas s p = Some a" "sops_fit (sem_nsems a) (un \<noteq> None) sops"
      "\<forall>u. un = Some u \<longrightarrow> u \<in> set (sma_undo a)"
    and a': "semas s' p = Some a'" "sops_fit (sem_nsems a') (un \<noteq> None) sops"
      "\<forall>u. un = Some u \<longrightarrow> u \<in> set (sma_undo a')"
    using ready unfolding trial_ready_def by blast
  obtain adj where adj: "get_adj un s = Some adj" "semop_ready sops (sem_base a) adj"
      "un = None \<longleftrightarrow> adj = None" "\<forall>u. un = Some u \<longrightarrow> (\<exists>x. undos s u = Some x \<and> adj = Some (semadj x))"
    using trial_data [OF wf(1) dok(1) a] .
  obtain adj' where adj': "get_adj un s' = Some adj'" "semop_ready sops (sem_base a') adj'"
      "un = None \<longleftrightarrow> adj' = None" "\<forall>u. un = Some u \<longrightarrow> (\<exists>x. undos s' u = Some x \<and> adj' = Some (semadj x))"
    using trial_data [OF wf(2) dok(2) a'] .
  have v: "vals (sem_base a) = vals (sem_base a')" using same a(1) a'(1) unfolding same_at_def
    by (metis option.inject option.simps(9))
  have "adj' = adj"
  proof (cases un)
    case (Some u)
    have "map_option semadj (undos s u) = map_option semadj (undos s' u)"
      using same a(1,3) Some unfolding same_at_def by simp
    with adj(4) adj'(4) Some show ?thesis by auto
  qed (use adj(3) adj'(3) in simp)
  with adj'(2) have ready': "semop_ready sops (sem_base a') adj" by simp
  obtain R R' where "try_semop pid1 u1 sops (sem_base a) adj = Some (r1, R)"
    "try_semop pid2 u2 sops (sem_base a') adj = Some (r2, R')"
    using T a(1) a'(1) adj(1) adj'(1) \<open>adj' = adj\<close>
    by (auto simp: try_atomic_semop_def Let_def split: bind_splits)
  then show ?thesis using try_semop_same_result [OF v adj(2) ready'] by blast
qed

lemma same_at_refl [simp]: "same_at p s s" by (simp add: same_at_def)

lemma same_at_trans:
  "same_at p s s' \<Longrightarrow> same_at p s' s'' \<Longrightarrow> v_und (view_of s') = v_und (view_of s) \<Longrightarrow> same_at p s s''"
  by (simp add: same_at_def)

lemma verdict_eq:
  assumes "wf_view (view_of s)" "data_ok s" "trial_ready s p sops un"
    and "try_atomic_semop p sops un cpid du s = Some (r, R)"
  shows "verdict s p sops un = r"
proof -
  obtain r' sops' s' where T: "try_atomic_semop p sops un 0 True s = Some (r', sops', s')"
    by (rule trial_step [OF assms(1-3), of 0 True])
  have "r' = r" by (rule trial_same_result [OF assms(1,1,2,2,3,3) same_at_refl T assms(4)])
  with T show ?thesis by (simp add: verdict_def)
qed

lemma verdict_same:
  assumes "wf_view (view_of s)" "wf_view (view_of s')" "data_ok s" "data_ok s'"
    "trial_ready s p sops un" "trial_ready s' p sops un" "same_at p s s'"
  shows "verdict s p sops un = verdict s' p sops un"
proof -
  obtain r sops1 s1 where T: "try_atomic_semop p sops un 0 True s = Some (r, sops1, s1)"
    by (rule trial_step [OF assms(1,3,5), of 0 True])
  obtain r' sops2 s2 where T': "try_atomic_semop p sops un 0 True s' = Some (r', sops2, s2)"
    by (rule trial_step [OF assms(2,4,6), of 0 True])
  show ?thesis using trial_same_result [OF assms T T'] T T' by (simp add: verdict_def)
qed

section \<open>Queue entries\<close>

lemma queue_view_indep [simp]:
  "has_id (v\<lparr>v_queue := Q\<rparr>) = has_id v" "has_id (v\<lparr>v_pend := P\<rparr>) = has_id v"
  "has_id (v\<lparr>v_sleeping := S\<rparr>) = has_id v" "has_id (v\<lparr>v_semundo := U\<rparr>) = has_id v"
  "has_id (v\<lparr>v_undo := X\<rparr>) = has_id v" "has_id (v\<lparr>v_und := N\<rparr>) = has_id v"
  "undo_fine (v\<lparr>v_queue := Q\<rparr>) = undo_fine v" "undo_fine (v\<lparr>v_pend := P\<rparr>) = undo_fine v"
  "undo_fine (v\<lparr>v_sleeping := S\<rparr>) = undo_fine v" "undo_fine (v\<lparr>v_semundo := U\<rparr>) = undo_fine v"
  "queue_fine (v\<lparr>v_queue := Q\<rparr>) = queue_fine v" "queue_fine (v\<lparr>v_sleeping := S\<rparr>) = queue_fine v"
  "queue_fine (v\<lparr>v_undo := X\<rparr>) = queue_fine v"
  "set_fine (v\<lparr>v_sleeping := S\<rparr>) = set_fine v"
  by (simp_all add: has_id_def undo_fine_def queue_fine_def set_fine_def fun_eq_iff)

lemma wf_view_sleeping [simp]: "wf_view (v\<lparr>v_sleeping := S\<rparr>) = wf_view v"
  by (simp add: wf_view_def)

lemma wf_view_queueI:
  assumes "wf_view v" "\<And>p. set_fine (v\<lparr>v_pend := P, v_queue := Q\<rparr>) p"
    "\<And>t q. Q t = Some q \<Longrightarrow> queue_fine (v\<lparr>v_pend := P\<rparr>) t q"
  shows "wf_view (v\<lparr>v_pend := P, v_queue := Q\<rparr>)"
  using assms(2,3) wf_viewD(1,2,4-6) [OF assms(1)] unfolding wf_view_def
  by (simp del: not_None_eq) blast

lemma set_fineD:
  assumes "set_fine v p"
  shows "(\<exists>i. v_slot v i = Some p) \<longleftrightarrow> v_seq v p \<noteq> None"
    "\<And>q. v_seq v p = Some q \<Longrightarrow> unat q < 65536" "distinct (v_und v p)" "distinct (v_pend v p)"
    "\<And>u. u \<in> set (v_und v p) \<Longrightarrow> \<exists>t. u \<in> set (v_semundo v t)"
    "\<And>u. u \<in> set (v_und v p) \<Longrightarrow> \<exists>semid. v_undo v u = Some (semid, v_nsems v p) \<and> has_id v p semid"
    "\<And>t. t \<in> set (v_pend v p) \<Longrightarrow> \<exists>q. v_queue v t = Some q \<and> q_prev q \<and> q_sma q = p"
  using assms unfolding set_fine_def by blast+

lemma set_fine_queueI:
  assumes "set_fine v p" "distinct (P p)"
    "\<And>t. t \<in> set (P p) \<Longrightarrow> \<exists>q. Q t = Some q \<and> q_prev q \<and> q_sma q = p"
  shows "set_fine (v\<lparr>v_pend := P, v_queue := Q\<rparr>) p"
  using set_fineD [OF assms(1)] assms(2,3) unfolding set_fine_def by simp

text \<open>Replacing an entry without queueing or unqueueing it.\<close>

lemma wf_view_put:
  assumes wf: "wf_view v" and q: "v_queue v t = Some q" "queue_fine v t q'"
    and same: "q_prev q' = q_prev q" "q_sma q' = q_sma q"
  shows "wf_view (v\<lparr>v_queue := (v_queue v)(t \<mapsto> q')\<rparr>)"
proof -
  have e: "v\<lparr>v_queue := (v_queue v)(t \<mapsto> q')\<rparr> = v\<lparr>v_pend := v_pend v, v_queue := (v_queue v)(t \<mapsto> q')\<rparr>"
    by simp
  show ?thesis unfolding e
  proof (rule wf_view_queueI [OF wf])
    fix p show "set_fine (v\<lparr>v_pend := v_pend v, v_queue := (v_queue v)(t \<mapsto> q')\<rparr>) p"
      using set_fineD(4,7) [OF wf_viewD(3) [OF wf]] q(1) same
      by (intro set_fine_queueI wf_viewD(3) [OF wf]) fastforce+
  qed (use wf_viewD(7) [OF wf] q(2) in \<open>auto split: if_splits\<close>)
qed

text \<open>Unqueueing an entry.\<close>

lemma wf_view_remove:
  assumes wf: "wf_view v" and q: "v_queue v t = Some q" "q_prev q" "q_sma q = p" and q': "\<not> q_prev q'"
  shows "wf_view (v\<lparr>v_pend := (v_pend v)(p := remove1 t (v_pend v p)), v_queue := (v_queue v)(t \<mapsto> q')\<rparr>)"
proof (rule wf_view_queueI [OF wf])
  note f = set_fineD [OF wf_viewD(3) [OF wf]]
  fix p'
  have only: "p' = p" if "t \<in> set (v_pend v p')" using f(7) [OF that] q by simp
  show "set_fine (v\<lparr>v_pend := (v_pend v)(p := remove1 t (v_pend v p)),
                    v_queue := (v_queue v)(t \<mapsto> q')\<rparr>) p'"
  proof (rule set_fine_queueI [OF wf_viewD(3) [OF wf]])
    show "distinct (((v_pend v)(p := remove1 t (v_pend v p))) p')" using f(4) by simp
    fix t' assume "t' \<in> set (((v_pend v)(p := remove1 t (v_pend v p))) p')"
    then have "t' \<noteq> t" "t' \<in> set (v_pend v p')"
      using only f(4) [of p'] by (auto split: if_splits)
    then show "\<exists>qq. ((v_queue v)(t \<mapsto> q')) t' = Some qq \<and> q_prev qq \<and> q_sma qq = p'"
      using f(7) [of t' p'] by simp
  qed
next
  fix t' qq assume "((v_queue v)(t \<mapsto> q')) t' = Some qq"
  then show "queue_fine (v\<lparr>v_pend := (v_pend v)(p := remove1 t (v_pend v p))\<rparr>) t' qq"
    using wf_viewD(7) [OF wf, of t' qq] q' by (auto simp: queue_fine_def split: if_splits)
qed

text \<open>Queueing the entry of a task that has none; \<open>ts\<close> is the queue with the task added.\<close>

lemma wf_view_add:
  assumes wf: "wf_view v" and q: "v_queue v t = None" "q_sma q = p" "q_prev q"
    and fine: "queue_fine (v\<lparr>v_pend := (v_pend v)(p := ts)\<rparr>) t q"
    and ts: "distinct ts" "set ts = insert t (set (v_pend v p))"
  shows "wf_view (v\<lparr>v_pend := (v_pend v)(p := ts), v_queue := (v_queue v)(t \<mapsto> q)\<rparr>)"
proof (rule wf_view_queueI [OF wf])
  note f = set_fineD [OF wf_viewD(3) [OF wf]]
  fix p'
  show "set_fine (v\<lparr>v_pend := (v_pend v)(p := ts), v_queue := (v_queue v)(t \<mapsto> q)\<rparr>) p'"
    using f(4,7) q ts by (intro set_fine_queueI wf_viewD(3) [OF wf]) (fastforce split: if_splits)+
next
  fix t' qq assume "((v_queue v)(t \<mapsto> q)) t' = Some qq"
  then show "queue_fine (v\<lparr>v_pend := (v_pend v)(p := ts)\<rparr>) t' qq"
    using wf_viewD(7) [OF wf, of t' qq] fine ts(2) by (auto simp: queue_fine_def split: if_splits)
qed

text \<open>Forgetting an entry that is not queued.\<close>

lemma wf_view_drop:
  assumes wf: "wf_view v" and q: "\<And>q. v_queue v t = Some q \<Longrightarrow> \<not> q_prev q"
  shows "wf_view (v\<lparr>v_queue := (v_queue v)(t := None)\<rparr>)"
proof -
  note f = set_fineD [OF wf_viewD(3) [OF wf]]
  have e: "v\<lparr>v_queue := (v_queue v)(t := None)\<rparr> = v\<lparr>v_pend := v_pend v, v_queue := (v_queue v)(t := None)\<rparr>"
    by simp
  show ?thesis unfolding e
  proof (rule wf_view_queueI [OF wf])
    fix p show "set_fine (v\<lparr>v_pend := v_pend v, v_queue := (v_queue v)(t := None)\<rparr>) p"
      using f(4,7) q by (intro set_fine_queueI wf_viewD(3) [OF wf]) fastforce+
  qed (use wf_viewD(7) [OF wf] in \<open>auto split: if_splits\<close>)
qed

end
