(* ===== verification/SemUpdate.thy ===== *)
theory SemUpdate
  imports SemSystem
begin

text \<open>
  What \<open>update_queue\<close> does: it never fails on a well-formed state, changes only the queue it
  works on and the data, and leaves the queue quiet: either an entry whose operations can now
  be performed has been told to try again, or no entry can proceed.
\<close>

section \<open>Steps that change queue entries\<close>

definition q_evolves :: "sem_queue \<Rightarrow> sem_queue \<Rightarrow> bool" where
  "q_evolves q q' \<longleftrightarrow>
     q_sma q' = q_sma q \<and> q_undo q' = q_undo q \<and> q_id q' = q_id q \<and> q_alter q' = q_alter q \<and>
     (q_prev q' \<longrightarrow> q_prev q) \<and> (\<not> q_prev q \<longrightarrow> q' = q) \<and> (\<not> q_prev q' \<longrightarrow> q_prev q \<longrightarrow> q_status q' \<noteq> 1)"

text \<open>The state keeps everything but data and queue entries; the tasks of \<open>X\<close> may do anything to theirs.\<close>

definition queue_step :: "task set \<Rightarrow> sem_sys \<Rightarrow> sem_sys \<Rightarrow> bool" where
  "queue_step X s s' \<longleftrightarrow>
     wf_view (view_of s') \<and> data_ok s' \<and>
     sem_ids s' = sem_ids s \<and> used_sems s' = used_sems s \<and> semundo s' = semundo s \<and>
     semsleeping s' = semsleeping s \<and> creds s' = creds s \<and> current_time s' = current_time s \<and>
     v_seq (view_of s') = v_seq (view_of s) \<and> v_nsems (view_of s') = v_nsems (view_of s) \<and>
     v_und (view_of s') = v_und (view_of s) \<and> v_undo (view_of s') = v_undo (view_of s) \<and>
     (\<forall>t. t \<notin> X \<longrightarrow> rel_option q_evolves (queues s t) (queues s' t))"

lemma q_evolves_refl [simp]: "q_evolves q q" by (simp add: q_evolves_def)

lemma q_evolves_trans: "q_evolves q q' \<Longrightarrow> q_evolves q' q'' \<Longrightarrow> q_evolves q q''"
  unfolding q_evolves_def by metis

lemma rel_option_evolves_refl [simp]: "rel_option q_evolves x x"
  by (cases x) simp_all

lemma queue_step_trans:
  assumes "queue_step X s s'" "queue_step X s' s''"
  shows "queue_step X s s''"
proof -
  have "rel_option q_evolves (queues s t) (queues s'' t)" if "t \<notin> X" for t
  proof -
    have "rel_option q_evolves (queues s t) (queues s' t)" "rel_option q_evolves (queues s' t) (queues s'' t)"
      using assms that by (simp_all add: queue_step_def)
    then show ?thesis by (auto simp: option_rel_Some1 option_rel_Some2 elim!: option.rel_cases intro: q_evolves_trans)
  qed
  with assms show ?thesis by (simp add: queue_step_def)
qed

lemma queue_stepD:
  assumes "queue_step X s s'"
  shows "wf_view (view_of s')" "data_ok s'" "sem_ids s' = sem_ids s" "used_sems s' = used_sems s"
    "semundo s' = semundo s" "semsleeping s' = semsleeping s" "creds s' = creds s"
    "v_nsems (view_of s') = v_nsems (view_of s)" "v_und (view_of s') = v_und (view_of s)"
    "v_seq (view_of s') = v_seq (view_of s)" "v_undo (view_of s') = v_undo (view_of s)"
    "has_id (view_of s') = has_id (view_of s)"
    "\<And>t q. queues s t = Some q \<Longrightarrow> t \<notin> X \<Longrightarrow> \<exists>q'. queues s' t = Some q' \<and> q_evolves q q'"
    "\<And>t. queues s t = None \<Longrightarrow> t \<notin> X \<Longrightarrow> queues s' t = None"
  using assms by (simp_all add: queue_step_def has_id_def fun_eq_iff)
    (metis option_rel_Some1, metis rel_option_None1)

lemma data_step_queue_step:
  "wf_view (view_of s) \<Longrightarrow> data_step s s' \<Longrightarrow> queue_step X s s'"
  using data_stepD [of s s'] by (simp add: queue_step_def)

lemma queue_step_refl: "wf_view (view_of s) \<Longrightarrow> data_ok s \<Longrightarrow> queue_step X s s"
  by (simp add: queue_step_def)

text \<open>Where the tasks are is not affected.\<close>

lemma linked_queue_step: "queue_step X s s' \<Longrightarrow> linked (view_of s') = linked (view_of s)"
  using queue_stepD(8,9,11,12) [of X s s'] by (simp add: linked_def fun_eq_iff del: view_of_simps)

lemma pc_fine_queue_step:
  assumes "queue_step X s s'" "pc_fine (view_of s) t pc" "t \<notin> X"
  shows "pc_fine (view_of s') t pc"
proof (cases "\<exists>semid p un alter. pc = Waiting (Semop_sleep semid p un alter)")
  case True
  then obtain semid p un alter where pc: "pc = Waiting (Semop_sleep semid p un alter)" by blast
  then obtain q where q: "queues s t = Some q" "q_sma q = p" "q_undo q = un" "q_id q = semid"
    "q_alter q \<longrightarrow> alter" "\<not> q_prev q \<longrightarrow> q_status q \<noteq> 1" using assms(2) by (auto simp: pc_fine_def)
  obtain q' where "queues s' t = Some q'" "q_evolves q q'"
    using queue_stepD(13) [OF assms(1) q(1) assms(3)] by blast
  with q assms(2) queue_stepD(5,6) [OF assms(1)] linked_queue_step [OF assms(1)]
  show ?thesis by (auto simp: pc_fine_def pc q_evolves_def)
next
  case False
  with assms(2,3) queue_stepD(5,6,14) [OF assms(1)] linked_queue_step [OF assms(1)]
  show ?thesis by (auto simp: pc_fine_def split: sem_pc.splits sem_wait.splits)
qed

section \<open>One entry\<close>

lemma view_of_put_queue: "view_of (put_queue t q s) = (view_of s)\<lparr>v_queue := (queues s)(t \<mapsto> q)\<rparr>"
  by (simp add: put_queue_def view_of_def)

lemma view_of_wake_up [simp]: "view_of (wake_up_process t s) = view_of s"
  by (simp add: wake_up_process_def view_of_def)

lemma put_queue_simps [simp]:
  "sem_ids (put_queue t q s) = sem_ids s" "used_sems (put_queue t q s) = used_sems s"
  "semas (put_queue t q s) = semas s" "undos (put_queue t q s) = undos s"
  "semundo (put_queue t q s) = semundo s" "semsleeping (put_queue t q s) = semsleeping s"
  "creds (put_queue t q s) = creds s" "queues (put_queue t q s) = (queues s)(t \<mapsto> q)"
  "current_time (put_queue t q s) = current_time s" "data_ok (put_queue t q s) = data_ok s"
  by (simp_all add: put_queue_def data_ok_def)

lemma wake_up_simps [simp]:
  "sem_ids (wake_up_process t s) = sem_ids s" "used_sems (wake_up_process t s) = used_sems s"
  "semas (wake_up_process t s) = semas s" "undos (wake_up_process t s) = undos s"
  "semundo (wake_up_process t s) = semundo s" "semsleeping (wake_up_process t s) = semsleeping s"
  "creds (wake_up_process t s) = creds s" "queues (wake_up_process t s) = queues s"
  "current_time (wake_up_process t s) = current_time s" "data_ok (wake_up_process t s) = data_ok s"
  by (simp_all add: wake_up_process_def data_ok_def)

lemma queued_ready:
  assumes "wf_view (view_of s)" "queues s t = Some q" "q_prev q"
  shows "trial_ready s (q_sma q) (q_sops q) (q_undo q)"
proof -
  have f: "queue_fine (view_of s) t q" using wf_viewD(7) [OF assms(1)] assms(2) by simp
  then have "has_id (view_of s) (q_sma q) (q_id q)" using assms(3) by (simp add: queue_fine_def)
  then obtain a where a: "semas s (q_sma q) = Some a" by (auto simp: has_id_def)
  with f assms(3) show ?thesis by (auto simp: trial_ready_def queue_fine_def)
qed

lemma put_entry_step:
  assumes "wf_view (view_of s)" "data_ok s" "queues s t = Some q" "queue_fine (view_of s) t q'"
    "q_evolves q q'" "q_prev q' = q_prev q"
  shows "queue_step X s (put_queue t q' s)"
proof -
  have "wf_view ((view_of s)\<lparr>v_queue := (queues s)(t \<mapsto> q')\<rparr>)"
    using wf_view_put [OF assms(1), of t q q'] assms by (simp add: q_evolves_def)
  with assms(2,3,5) show ?thesis by (simp add: queue_step_def view_of_put_queue)
qed

lemma remove_entry_step:
  assumes wf: "wf_view (view_of s)" and d: "data_ok s" and q: "queues s t = Some q" "q_prev q" "q_sma q = p"
    "q_status q \<noteq> 1 \<or> t \<in> X"
  obtains s' where "remove_from_queue p t s = Some s'" "queue_step X s s'"
    "v_pend (view_of s') = (v_pend (view_of s))(p := remove1 t (v_pend (view_of s) p))"
    "queues s' = (queues s)(t \<mapsto> q\<lparr>q_prev := False\<rparr>)" "\<forall>p'. same_at p' s s'"
proof -
  obtain a where a: "semas s p = Some a"
    using queued_ready [OF wf q(1,2)] q(3) by (auto simp: trial_ready_def)
  define s' where "s' = s\<lparr>semas := (semas s)(p \<mapsto> a\<lparr>sem_pending := remove1 t (sem_pending a)\<rparr>),
      queues := (queues s)(t \<mapsto> q\<lparr>q_prev := False\<rparr>)\<rparr>"
  have v: "view_of s' = (view_of s)\<lparr>v_pend := (v_pend (view_of s))(p := remove1 t (v_pend (view_of s) p)),
      v_queue := (queues s)(t \<mapsto> q\<lparr>q_prev := False\<rparr>)\<rparr>"
    using a by (auto simp: view_of_def s'_def fun_eq_iff)
  have "wf_view (view_of s')"
    unfolding v using wf_view_remove [OF wf, of t q p "q\<lparr>q_prev := False\<rparr>"] q by simp
  moreover have "data_ok s'" using d a unfolding data_ok_def by (auto simp: s'_def)
  moreover have "q_evolves q (q\<lparr>q_prev := False\<rparr>)" if "t \<notin> X" using q that by (simp add: q_evolves_def)
  ultimately have "queue_step X s s'"
    using q v by (simp add: queue_step_def) (simp add: s'_def)
  moreover have "remove_from_queue p t s = Some s'" using a q by (simp add: remove_from_queue_def s'_def)
  moreover have "same_at p' s s'" for p' using a by (auto simp: same_at_def s'_def)
  ultimately show thesis using that v by (simp add: s'_def)
qed

section \<open>Quiet queues\<close>

text \<open>The verdict on the operations of an entry; an entry that has been told to try again has status 1.\<close>

definition entry_verdict :: "sem_sys \<Rightarrow> task \<Rightarrow> int" where
  "entry_verdict s t =
     (case queues s t of None \<Rightarrow> 1 | Some q \<Rightarrow> verdict s (q_sma q) (q_sops q) (q_undo q))"

definition told :: "sem_sys \<Rightarrow> task \<Rightarrow> bool" where
  "told s t = (case queues s t of None \<Rightarrow> False | Some q \<Rightarrow> q_status q = 1)"

definition quiet :: "sem_sys \<Rightarrow> ptr \<Rightarrow> bool" where
  "quiet s p \<longleftrightarrow>
     (\<exists>t\<in>set (v_pend (view_of s) p). told s t \<and> entry_verdict s t \<le> 0) \<or>
     (\<forall>t\<in>set (v_pend (view_of s) p). told s t \<or> entry_verdict s t > 0)"

definition pure_queue :: "sem_sys \<Rightarrow> ptr \<Rightarrow> bool" where
  "pure_queue s p \<longleftrightarrow>
     (\<forall>t\<in>set (v_pend (view_of s) p). \<forall>q. queues s t = Some q \<longrightarrow> q_alter q \<or> zero_ops (q_sops q))"

lemma pending_entry:
  assumes "wf_view (view_of s)" "t \<in> set (v_pend (view_of s) p)"
  obtains q where "queues s t = Some q" "q_prev q" "q_sma q = p"
  using set_fineD(7) [OF wf_viewD(3) [OF assms(1)] assms(2)] by auto

text \<open>An entry keeps its verdict when the data of its set are the same.\<close>

lemma entry_verdict_same:
  assumes "wf_view (view_of s)" "data_ok s" "wf_view (view_of s')" "data_ok s'"
    "t \<in> set (v_pend (view_of s) p)" "same_at p s s'"
    "queues s t = Some q" "queues s' t = Some q'" "q_prev q'" "q_sma q' = p" "q_sops q' = q_sops q"
    "q_undo q' = q_undo q"
  shows "entry_verdict s' t = entry_verdict s t"
proof -
  have q: "q_prev q" "q_sma q = p" using pending_entry [OF assms(1,5)] assms(7) by (metis option.inject)+
  have "verdict s p (q_sops q) (q_undo q) = verdict s' p (q_sops q) (q_undo q)"
    using queued_ready [OF assms(1,7) q(1)] queued_ready [OF assms(3,8,9)] q assms(6,10-12)
    by (intro verdict_same assms(1-4)) simp_all
  with q assms(7-12) show ?thesis by (simp add: entry_verdict_def)
qed

lemma entry_verdict_kept:
  assumes "wf_view (view_of s)" "data_ok s" "wf_view (view_of s')" "data_ok s'"
    "t \<in> set (v_pend (view_of s) p)" "same_at p s s'" "queues s' t = queues s t"
  shows "entry_verdict s' t = entry_verdict s t"
proof -
  obtain q where "queues s t = Some q" "q_prev q" "q_sma q = p" by (rule pending_entry [OF assms(1,5)])
  with assms(7) show ?thesis by (intro entry_verdict_same [OF assms(1-6)]) simp_all
qed

lemma quiet_same:
  assumes "wf_view (view_of s)" "data_ok s" "wf_view (view_of s')" "data_ok s'"
    "v_pend (view_of s') p = v_pend (view_of s) p" "same_at p s s'"
    "\<And>t. t \<in> set (v_pend (view_of s) p) \<Longrightarrow> queues s' t = queues s t"
  shows "quiet s' p = quiet s p"
  using entry_verdict_kept [OF assms(1-4)] assms(5-7) by (simp add: quiet_def told_def)

section \<open>update_queue\<close>

text \<open>What a run over the entries \<open>ts\<close> of the queue of \<open>p\<close> keeps.\<close>

definition update_step :: "task set \<Rightarrow> ptr \<Rightarrow> task list \<Rightarrow> sem_sys \<Rightarrow> sem_sys \<Rightarrow> bool" where
  "update_step X p ts s s' \<longleftrightarrow> queue_step X s s' \<and>
     (\<forall>p'. p' \<noteq> p \<longrightarrow> v_pend (view_of s') p' = v_pend (view_of s) p' \<and> same_at p' s s') \<and>
     set (v_pend (view_of s') p) \<subseteq> set (v_pend (view_of s) p) \<and>
     (\<forall>t. t \<notin> set ts \<longrightarrow> queues s' t = queues s t)"

lemma update_step_trans:
  assumes "update_step X p ts s s'" "update_step X p ts' s' s''" "set ts' \<subseteq> set ts"
  shows "update_step X p ts s s''"
proof -
  have "same_at p' s s''" if "p' \<noteq> p" for p'
    using assms(1,2) that queue_stepD(9) [of X s s'] unfolding update_step_def by (blast intro: same_at_trans)
  then show ?thesis
    using assms queue_step_trans [of X s s' s''] unfolding update_step_def by auto
qed

lemma put_entry_update:
  assumes "wf_view (view_of s)" "data_ok s" "queues s t = Some q" "queue_fine (view_of s) t q'"
    "q_evolves q q'" "q_prev q' = q_prev q" "t \<in> set ts"
  shows "update_step X p ts s (put_queue t q' s)" "same_at p' s (put_queue t q' s)"
    "v_pend (view_of (put_queue t q' s)) = v_pend (view_of s)"
proof -
  show "same_at p' s (put_queue t q' s)" for p' by (simp add: same_at_def)
  then show "update_step X p ts s (put_queue t q' s)"
    using put_entry_step [OF assms(1-6)] assms(7) by (simp add: update_step_def view_of_put_queue)
qed (simp add: view_of_put_queue)

text \<open>A trial of an entry's operations, with the entry's operations stored back.\<close>

lemma trial_update:
  assumes wf: "wf_view (view_of s)" and d: "data_ok s" and t: "t \<in> set (v_pend (view_of s) p)"
    and q: "queues s t = Some q" and ts: "t \<in> set ts"
  obtains r sops s1 where "try_atomic_semop p (q_sops q) (q_undo q) cpid du s = Some (r, sops, s1)"
    "update_step X p ts s (put_queue t (q\<lparr>q_sops := sops\<rparr>) s1)"
    "v_pend (view_of s1) = v_pend (view_of s)" "queues s1 = queues s"
    "0 \<le> r \<longrightarrow> sops = q_sops q" "entry_verdict s t = r"
    "r \<noteq> 0 \<or> du \<or> zero_ops (q_sops q) \<longrightarrow> same_at p s s1"
    "queue_fine (view_of s) t (q\<lparr>q_sops := sops\<rparr>)" "q_prev q" "q_sma q = p" "creds s1 = creds s"
proof -
  have qp: "q_prev q" "q_sma q = p" using pending_entry [OF wf t] q by (metis option.inject)+
  have ready: "trial_ready s p (q_sops q) (q_undo q)" using queued_ready [OF wf q qp(1)] qp(2) by simp
  obtain r sops s1 where T: "try_atomic_semop p (q_sops q) (q_undo q) cpid du s = Some (r, sops, s1)"
    "data_step s s1" "trial_ready s1 p sops (q_undo q)"
    "\<forall>p'. p' \<noteq> p \<or> r \<noteq> 0 \<or> du \<or> zero_ops (q_sops q) \<longrightarrow> same_at p' s s1" "0 \<le> r \<longrightarrow> sops = q_sops q" "r \<le> 1"
    using trial_step [OF wf d ready, of cpid du] .
  note D = data_stepD [OF T(2)]
  have f: "queue_fine (view_of s) t q" using wf_viewD(7) [OF wf] q by simp
  have "sops_fit (v_nsems (view_of s) p) (q_undo q \<noteq> None) sops"
    using T(3) by (auto simp: trial_ready_def simp flip: D(1))
  then have fine: "queue_fine (view_of s) t (q\<lparr>q_sops := sops\<rparr>)"
    using f qp by (simp add: queue_fine_def)
  have "update_step X p ts s s1"
    using data_step_queue_step [OF wf T(2)] T(4) D by (simp add: update_step_def)
  moreover have "update_step X p ts s1 (put_queue t (q\<lparr>q_sops := sops\<rparr>) s1)"
    by (rule put_entry_update(1) [of s1 t q]) (use wf D q fine ts qp in \<open>simp_all add: q_evolves_def\<close>)
  ultimately have "update_step X p ts s (put_queue t (q\<lparr>q_sops := sops\<rparr>) s1)"
    by (rule update_step_trans) simp
  moreover have "entry_verdict s t = r"
    using verdict_eq [OF wf d ready T(1)] q qp by (simp add: entry_verdict_def)
  ultimately show thesis using that T(1,4,5) D(1,6,8) fine qp by simp
qed

lemma wake_up_update [simp]:
  "update_step X p ts s (wake_up_process t s') = update_step X p ts s s'"
  "same_at p s (wake_up_process t s') = same_at p s s'"
  by (simp_all add: update_step_def queue_step_def same_at_def)

lemma update_stepD:
  assumes "update_step X p ts s s'"
  shows "wf_view (view_of s')" "data_ok s'" "v_und (view_of s') = v_und (view_of s)"
    "set (v_pend (view_of s') p) \<subseteq> set (v_pend (view_of s) p)"
    "\<And>t. t \<notin> set ts \<Longrightarrow> queues s' t = queues s t" "queue_step X s s'"
proof -
  show q: "queue_step X s s'" and "set (v_pend (view_of s') p) \<subseteq> set (v_pend (view_of s) p)"
    "\<And>t. t \<notin> set ts \<Longrightarrow> queues s' t = queues s t" using assms by (simp_all add: update_step_def)
  show "wf_view (view_of s')" "data_ok s'" "v_und (view_of s') = v_und (view_of s)"
    by (fact queue_stepD(1,2,9) [OF q])+
qed

lemma remove_update:
  assumes wf: "wf_view (view_of s)" and d: "data_ok s" and q: "queues s t = Some q" "q_prev q" "q_sma q = p"
    "q_status q \<noteq> 1 \<or> t \<in> X" and ts: "t \<in> set ts"
  obtains s' where "remove_from_queue p t s = Some s'" "update_step X p ts s s'"
    "v_pend (view_of s') p = remove1 t (v_pend (view_of s) p)"
    "queues s' = (queues s)(t \<mapsto> q\<lparr>q_prev := False\<rparr>)" "same_at p s s'"
proof -
  obtain s' where s': "remove_from_queue p t s = Some s'" "queue_step X s s'"
    "v_pend (view_of s') = (v_pend (view_of s))(p := remove1 t (v_pend (view_of s) p))"
    "queues s' = (queues s)(t \<mapsto> q\<lparr>q_prev := False\<rparr>)" "\<forall>p'. same_at p' s s'"
    using remove_entry_step [OF wf d q] .
  have "update_step X p ts s s'"
    using s' ts set_remove1_subset [of t "v_pend (view_of s) p"] by (simp add: update_step_def)
  with that s' show thesis by simp
qed

text \<open>All entries of the queue outside \<open>ts\<close> are known to be stuck.\<close>

definition checked :: "sem_sys \<Rightarrow> ptr \<Rightarrow> task list \<Rightarrow> bool" where
  "checked s p ts \<longleftrightarrow>
     (\<forall>t\<in>set (v_pend (view_of s) p). t \<notin> set ts \<longrightarrow> told s t \<or> entry_verdict s t > 0)"

lemma update_step_mono: "update_step X p ts s s' \<Longrightarrow> set ts \<subseteq> set ts' \<Longrightarrow> update_step X p ts' s s'"
  by (auto simp: update_step_def)

text \<open>
  The loop goes on behind an entry: the rest of the queue is the same, and when the queue is pure
  the data are the same and the entry, if it is still there, is stuck.
\<close>

definition goes_on :: "task set \<Rightarrow> ptr \<Rightarrow> task \<Rightarrow> sem_sys \<Rightarrow> sem_sys \<Rightarrow> bool" where
  "goes_on X p t s s' \<longleftrightarrow> update_step X p [t] s s' \<and>
     set (v_pend (view_of s) p) - {t} \<subseteq> set (v_pend (view_of s') p) \<and>
     (pure_queue s p \<longrightarrow> same_at p s s' \<and> pure_queue s' p \<and>
        (t \<in> set (v_pend (view_of s') p) \<longrightarrow> told s' t \<or> entry_verdict s' t > 0))"

lemma goes_on_checked:
  assumes g: "goes_on X p t s s'" and wf: "wf_view (view_of s)" "data_ok s" and pure: "pure_queue s p"
    and c: "checked s p (t # ts)"
  shows "checked s' p ts"
  unfolding checked_def
proof (intro ballI impI)
  fix t' assume t': "t' \<in> set (v_pend (view_of s') p)" "t' \<notin> set ts"
  have u: "update_step X p [t] s s'" and same: "same_at p s s'" using g pure by (simp_all add: goes_on_def)
  show "told s' t' \<or> 0 < entry_verdict s' t'"
  proof (cases "t' = t")
    case True
    with g pure t' show ?thesis by (simp add: goes_on_def)
  next
    case False
    have q: "queues s' t' = queues s t'" and p: "t' \<in> set (v_pend (view_of s) p)"
      using update_stepD(4,5) [OF u] False t' by auto
    have "entry_verdict s' t' = entry_verdict s t'"
      by (rule entry_verdict_kept [OF wf update_stepD(1,2) [OF u] p same q])
    with c p False t' q show ?thesis by (simp add: checked_def told_def)
  qed
qed

lemma turn_blocked:
  assumes wf: "wf_view (view_of s)" and d: "data_ok s" and t: "t \<in> set (v_pend (view_of s) p)"
    and q: "queues s t = Some q" "q_status q \<noteq> 1" and v: "entry_verdict s t > 0"
  shows "\<exists>s'. goes_on X p t s s' \<and> (\<forall>ts. update_loop p (t # ts) s = update_loop p ts s')"
proof -
  have tt: "t \<in> set [t]" by simp
  obtain r sops s1 where T: "try_atomic_semop p (q_sops q) (q_undo q) (q_pid q) (q_alter q) s = Some (r, sops, s1)"
    and U: "update_step X p [t] s (put_queue t (q\<lparr>q_sops := sops\<rparr>) s1)"
    and V: "v_pend (view_of s1) = v_pend (view_of s)" "queues s1 = queues s"
      "0 \<le> r \<longrightarrow> sops = q_sops q" "entry_verdict s t = r"
      "r \<noteq> 0 \<or> q_alter q \<or> zero_ops (q_sops q) \<longrightarrow> same_at p s s1"
      "queue_fine (view_of s) t (q\<lparr>q_sops := sops\<rparr>)" "q_prev q" "q_sma q = p" "creds s1 = creds s"
    using trial_update [OF wf d t q(1) tt, of "q_pid q" "q_alter q" X] .
  have so: "sops = q_sops q" and r: "r > 0" using V(3,4) v by simp_all
  define s2 where "s2 = put_queue t q s1"
  have U2: "update_step X p [t] s s2" using U so by (simp add: s2_def)
  have "queues s2 t' = queues s t'" for t' using q(1) by (simp add: s2_def V(2))
  then have qs: "queues s2 = queues s" by blast
  have p2: "v_pend (view_of s2) = v_pend (view_of s)" by (simp add: s2_def view_of_put_queue V(1))
  have same: "same_at p s s2" using V(5) r by (simp add: same_at_def s2_def)
  have "entry_verdict s2 t = entry_verdict s t"
    by (rule entry_verdict_kept [OF wf d update_stepD(1,2) [OF U2] t same]) (simp add: qs)
  then have "goes_on X p t s s2"
    using U2 same v qs p2 by (auto simp: goes_on_def pure_queue_def)
  moreover have "update_loop p (t # ts) s = update_loop p ts s2" for ts
    using q T r so by (simp add: s2_def Let_def)
  ultimately show ?thesis by blast
qed

lemma turn_told:
  assumes wf: "wf_view (view_of s)" and d: "data_ok s" and t: "t \<in> set (v_pend (view_of s) p)"
    and q: "queues s t = Some q" "q_status q \<noteq> 1" and v: "entry_verdict s t = 0" "q_alter q"
  shows "\<exists>s'. update_step X p [t] s s' \<and> quiet s' p \<and> (pure_queue s p \<longrightarrow> pure_queue s' p) \<and>
              (\<forall>ts. update_loop p (t # ts) s = Some s')"
proof -
  have tt: "t \<in> set [t]" by simp
  obtain r sops s1 where T: "try_atomic_semop p (q_sops q) (q_undo q) (q_pid q) (q_alter q) s = Some (r, sops, s1)"
    and U: "update_step X p [t] s (put_queue t (q\<lparr>q_sops := sops\<rparr>) s1)"
    and V: "v_pend (view_of s1) = v_pend (view_of s)" "queues s1 = queues s"
      "0 \<le> r \<longrightarrow> sops = q_sops q" "entry_verdict s t = r"
      "r \<noteq> 0 \<or> q_alter q \<or> zero_ops (q_sops q) \<longrightarrow> same_at p s s1"
      "queue_fine (view_of s) t (q\<lparr>q_sops := sops\<rparr>)" "q_prev q" "q_sma q = p" "creds s1 = creds s"
    using trial_update [OF wf d t q(1) tt, of "q_pid q" "q_alter q" X] .
  have so: "sops = q_sops q" and r: "r = 0" using V(3,4) v by simp_all
  define s2 where "s2 = wake_up_process t (put_queue t q s1)"
  have U2: "update_step X p [t] s s2" using U so by (simp add: s2_def)
  note D2 = update_stepD [OF U2]
  have q2: "queues s2 t = Some q" by (simp add: s2_def)
  have f2: "queue_fine (view_of s2) t (q\<lparr>q_status := 1\<rparr>)"
    using wf_viewD(7) [OF D2(1)] q2 v(2) by (simp add: queue_fine_def)
  define s3 where "s3 = put_queue t (q\<lparr>q_status := 1\<rparr>) s2"
  have "update_step X p [t] s2 s3" unfolding s3_def
    by (rule put_entry_update(1) [OF D2(1,2) q2 f2]) (simp_all add: q_evolves_def V(7))
  then have U3: "update_step X p [t] s s3" by (rule update_step_trans [OF U2]) simp
  have p3: "v_pend (view_of s3) = v_pend (view_of s)" by (simp add: s3_def s2_def view_of_put_queue V(1))
  have same: "same_at p s s3" using V(5) v by (simp add: s3_def s2_def same_at_def)
  have "entry_verdict s3 t = entry_verdict s t"
    by (rule entry_verdict_same [OF wf d update_stepD(1,2) [OF U3] t same q(1), of "q\<lparr>q_status := 1\<rparr>"])
      (simp_all add: s3_def V(7,8))
  then have "quiet s3 p" using v t p3 by (auto simp: quiet_def told_def s3_def)
  moreover have "pure_queue s3 p" if "pure_queue s p"
    using that p3 v(2) by (auto simp: pure_queue_def s3_def s2_def V(2))
  moreover have "update_loop p (t # ts) s = Some s3" for ts
    using q T r so v(2) by (simp add: s2_def s3_def Let_def)
  ultimately show ?thesis using U3 by blast
qed

lemma turn_removed:
  assumes wf: "wf_view (view_of s)" and d: "data_ok s" and t: "t \<in> set (v_pend (view_of s) p)"
    and q: "queues s t = Some q" "q_status q \<noteq> 1" and v: "entry_verdict s t < 0 \<or> entry_verdict s t = 0 \<and> \<not> q_alter q"
  shows "\<exists>s'. goes_on X p t s s' \<and> (\<forall>ts. update_loop p (t # ts) s = update_loop p ts s')"
proof -
  have tt: "t \<in> set [t]" by simp
  obtain r sops s1 where T: "try_atomic_semop p (q_sops q) (q_undo q) (q_pid q) (q_alter q) s = Some (r, sops, s1)"
    and U: "update_step X p [t] s (put_queue t (q\<lparr>q_sops := sops\<rparr>) s1)"
    and V: "v_pend (view_of s1) = v_pend (view_of s)" "queues s1 = queues s"
      "0 \<le> r \<longrightarrow> sops = q_sops q" "entry_verdict s t = r"
      "r \<noteq> 0 \<or> q_alter q \<or> zero_ops (q_sops q) \<longrightarrow> same_at p s s1"
      "queue_fine (view_of s) t (q\<lparr>q_sops := sops\<rparr>)" "q_prev q" "q_sma q = p" "creds s1 = creds s"
    using trial_update [OF wf d t q(1) tt, of "q_pid q" "q_alter q" X] .
  have r: "r < 0 \<or> r = 0 \<and> \<not> q_alter q" using V(4) v by simp
  define s2 where "s2 = wake_up_process t (put_queue t (q\<lparr>q_sops := sops\<rparr>) s1)"
  have U2: "update_step X p [t] s s2" using U by (simp add: s2_def)
  note D2 = update_stepD [OF U2]
  have q2: "queues s2 t = Some (q\<lparr>q_sops := sops\<rparr>)" by (simp add: s2_def)
  define q3 where "q3 = q\<lparr>q_sops := sops, q_status := r\<rparr>"
  have f2: "queue_fine (view_of s2) t q3"
    using wf_viewD(7) [OF D2(1), of t "q\<lparr>q_sops := sops\<rparr>"] q2 r by (auto simp: queue_fine_def q3_def)
  define s3 where "s3 = put_queue t q3 s2"
  have U3: "update_step X p [t] s2 s3" unfolding s3_def
    by (rule put_entry_update(1) [OF D2(1,2) q2 f2]) (use r in \<open>auto simp: q_evolves_def V(7) q3_def\<close>)
  note D3 = update_stepD [OF U3]
  have q3: "queues s3 t = Some q3" "q_prev q3" "q_sma q3 = p" "q_status q3 \<noteq> 1 \<or> t \<in> X"
    using r by (auto simp: s3_def q3_def V(7,8))
  obtain s4 where s4: "remove_from_queue p t s3 = Some s4" "update_step X p [t] s3 s4"
      "v_pend (view_of s4) p = remove1 t (v_pend (view_of s3) p)"
      "queues s4 = (queues s3)(t \<mapsto> q3\<lparr>q_prev := False\<rparr>)" "same_at p s3 s4"
    by (rule remove_update [OF D3(1,2) q3 tt])
  have U4: "update_step X p [t] s s4"
    by (rule update_step_trans [OF update_step_trans [OF U2 U3] s4(2)]) simp_all
  have dist: "distinct (v_pend (view_of s) p)" using set_fineD(4) [OF wf_viewD(3) [OF wf]] .
  have p4: "set (v_pend (view_of s4) p) = set (v_pend (view_of s) p) - {t}"
    using dist by (simp add: s4(3) s3_def s2_def view_of_put_queue V(1))
  have pure: "same_at p s s4 \<and> pure_queue s4 p" if "pure_queue s p"
  proof
    have "q_alter q \<or> zero_ops (q_sops q)" using that t q(1) by (auto simp: pure_queue_def)
    then have "same_at p s s3" using V(5) r by (auto simp: s3_def s2_def same_at_def)
    moreover have "v_und (view_of s3) = v_und (view_of s)" using D3(3) D2(3) by simp
    ultimately show "same_at p s s4" using s4(5) same_at_trans by blast
    show "pure_queue s4 p"
      using that p4 update_stepD(5) [OF U4] by (auto simp: pure_queue_def)
  qed
  have "goes_on X p t s s4" unfolding goes_on_def using U4 p4 pure by simp
  moreover have "update_loop p (t # ts) s = update_loop p ts s4" for ts
  proof -
    have "remove_from_queue p t (put_queue t (q\<lparr>q_sops := sops, q_status := r\<rparr>) s2) = Some s4"
      using s4(1) by (simp add: s3_def q3_def)
    moreover have "\<not> (r = 0 \<and> q_alter q)" "r \<le> 0" using r by auto
    ultimately show ?thesis using q T by (auto simp: s2_def Let_def)
  qed
  ultimately show ?thesis by blast
qed

lemma loop_goes_on:
  assumes wf: "wf_view (view_of s)" "data_ok s" and g: "goes_on X p t s s1"
    and eq: "\<forall>ts. update_loop p (t # ts) s = update_loop p ts s1"
    and ts: "distinct (t # ts)" "set (t # ts) \<subseteq> set (v_pend (view_of s) p)"
    and IH: "\<And>s. wf_view (view_of s) \<Longrightarrow> data_ok s \<Longrightarrow> distinct ts \<Longrightarrow>
       set ts \<subseteq> set (v_pend (view_of s) p) \<Longrightarrow>
       \<exists>s'. update_loop p ts s = Some s' \<and> update_step X p ts s s' \<and>
            (pure_queue s p \<longrightarrow> checked s p ts \<longrightarrow> quiet s' p \<and> pure_queue s' p)"
  shows "\<exists>s'. update_loop p (t # ts) s = Some s' \<and> update_step X p (t # ts) s s' \<and>
              (pure_queue s p \<longrightarrow> checked s p (t # ts) \<longrightarrow> quiet s' p \<and> pure_queue s' p)"
proof -
  have u: "update_step X p [t] s s1" and pend: "set (v_pend (view_of s) p) - {t} \<subseteq> set (v_pend (view_of s1) p)"
    and pure: "pure_queue s p \<longrightarrow> pure_queue s1 p" using g by (simp_all add: goes_on_def)
  have "set ts \<subseteq> set (v_pend (view_of s1) p)" using ts pend by auto
  with IH [OF update_stepD(1,2) [OF u]] ts(1) obtain s' where
    s': "update_loop p ts s1 = Some s'" "update_step X p ts s1 s'"
      "pure_queue s1 p \<longrightarrow> checked s1 p ts \<longrightarrow> quiet s' p \<and> pure_queue s' p" by auto
  have "update_step X p (t # ts) s s1" by (rule update_step_mono [OF u]) simp
  then have "update_step X p (t # ts) s s'" by (rule update_step_trans [OF _ s'(2)]) auto
  moreover have "pure_queue s p \<longrightarrow> checked s p (t # ts) \<longrightarrow> quiet s' p \<and> pure_queue s' p"
    using s'(3) pure goes_on_checked [OF g wf] by blast
  ultimately show ?thesis using eq s'(1) by auto
qed

lemma update_loop_step:
  assumes "wf_view (view_of s)" "data_ok s" "distinct ts" "set ts \<subseteq> set (v_pend (view_of s) p)"
  shows "\<exists>s'. update_loop p ts s = Some s' \<and> update_step X p ts s s' \<and>
              (pure_queue s p \<longrightarrow> checked s p ts \<longrightarrow> quiet s' p \<and> pure_queue s' p)"
  using assms
proof (induction ts arbitrary: s)
  case Nil
  then show ?case
    using queue_step_refl by (auto simp: update_step_def checked_def quiet_def)
next
  case (Cons t ts)
  note wf = Cons.prems(1,2)
  have t: "t \<in> set (v_pend (view_of s) p)" using Cons.prems(4) by simp
  obtain q where q: "queues s t = Some q" by (rule pending_entry [OF wf(1) t])
  consider "q_status q = 1" | "q_status q \<noteq> 1" "entry_verdict s t = 0" "q_alter q"
    | "q_status q \<noteq> 1" "entry_verdict s t > 0"
    | "q_status q \<noteq> 1" "entry_verdict s t < 0 \<or> entry_verdict s t = 0 \<and> \<not> q_alter q"
    by linarith
  then show ?case
  proof cases
    case 1
    have "checked s p (t # ts) \<longrightarrow> checked s p ts" using q 1 by (auto simp: checked_def told_def)
    then show ?thesis using Cons.IH [OF wf] Cons.prems(3,4) q 1 by (auto simp: update_step_def)
  next
    case 2
    obtain s' where s': "update_step X p [t] s s'" "quiet s' p" "pure_queue s p \<longrightarrow> pure_queue s' p" "\<forall>ts. update_loop p (t # ts) s = Some s'"
      using turn_told [OF wf t q 2] by blast
    have "update_step X p (t # ts) s s'" by (rule update_step_mono [OF s'(1)]) simp
    with s' show ?thesis by blast
  next
    case 3
    with turn_blocked [OF wf t q 3] show ?thesis using loop_goes_on [OF wf] Cons by blast
  next
    case 4
    with turn_removed [OF wf t q 4] show ?thesis using loop_goes_on [OF wf] Cons by blast
  qed
qed

end
