(* ===== verification/SemSafe.thy ===== *)
theory SemSafe
  imports SemUpdate
begin

text \<open>
  Every atomic section of the semaphore calls, started in a well-formed state by a task that is
  where the section begins, succeeds, keeps the state well formed and leaves the other tasks
  where they are. It also keeps all queues calm when the calls do not mix waiting for zero with
  increments.
\<close>

section \<open>What a section has to keep\<close>

definition sys_ok :: "sem_sys \<Rightarrow> bool" where
  "sys_ok s \<longleftrightarrow> ids_ok (sem_ids s) \<and> wf_view (view_of s) \<and> data_ok s \<and> used_ok s"

definition others_kept :: "task \<Rightarrow> sem_sys \<Rightarrow> sem_sys \<Rightarrow> bool" where
  "others_kept t s s' \<longleftrightarrow>
     (\<forall>t' pc. t' \<noteq> t \<longrightarrow> pc_fine (view_of s) t' pc \<longrightarrow> pc_fine (view_of s') t' pc)"

definition section_ok :: "task \<Rightarrow> sem_sys \<Rightarrow> sem_sys \<Rightarrow> sem_pc \<Rightarrow> bool" where
  "section_ok t s s' pc \<longleftrightarrow> sys_ok s' \<and> others_kept t s s' \<and> pc_fine (view_of s') t pc"

definition calm :: "sem_sys \<Rightarrow> bool" where
  "calm s \<longleftrightarrow> (\<forall>p. quiet s p \<and> pure_queue s p)"

lemma sys_okD:
  assumes "sys_ok s"
  shows "ids_ok (sem_ids s)" "wf_view (view_of s)" "data_ok s" "used_ok s"
  using assms by (simp_all add: sys_ok_def)

lemma used_ok_queue_step:
  assumes "queue_step X s s'" "used_ok s"
  shows "used_ok s'"
proof -
  have "slot_nsems (view_of s') = slot_nsems (view_of s)"
    by (rule ext) (simp add: slot_nsems_def queue_stepD(3,8) [OF assms(1)] split: option.split)
  with assms queue_stepD(4) [OF assms(1)] show ?thesis by (simp add: used_ok_def)
qed

lemma sys_ok_queue_step:
  assumes "queue_step X s s'" "sys_ok s"
  shows "sys_ok s'"
  using queue_stepD(1-3) [OF assms(1)] used_ok_queue_step [OF assms(1)] sys_okD [OF assms(2)]
  by (simp add: sys_ok_def)

lemma others_kept_queue_step: "queue_step X s s' \<Longrightarrow> X \<subseteq> {t} \<Longrightarrow> others_kept t s s'"
  using pc_fine_queue_step unfolding others_kept_def by blast

lemma others_kept_trans: "others_kept t s s' \<Longrightarrow> others_kept t s' s'' \<Longrightarrow> others_kept t s s''"
  by (simp add: others_kept_def)

lemma others_kept_refl [simp]: "others_kept t s s"
  by (simp add: others_kept_def)

text \<open>A task that is not asleep and has no entry.\<close>

definition at_rest :: "sem_sys \<Rightarrow> task \<Rightarrow> bool" where
  "at_rest s t \<longleftrightarrow> \<not> semsleeping s t \<and> queues s t = None \<and> (\<forall>u\<in>set (semundo s t). linked (view_of s) u)"

lemma pc_fine_Idle: "pc_fine (view_of s) t Idle = at_rest s t"
  by (auto simp: pc_fine_def at_rest_def)

lemma update_queue_step:
  assumes "wf_view (view_of s)" "data_ok s" "semas s p = Some a"
  shows "\<exists>s'. update_queue p s = Some s' \<and> update_step X p (sem_pending a) s s' \<and>
              (pure_queue s p \<longrightarrow> quiet s' p \<and> pure_queue s' p)"
proof -
  have "distinct (sem_pending a)" "set (sem_pending a) \<subseteq> set (v_pend (view_of s) p)" "checked s p (sem_pending a)"
    using set_fineD(4) [OF wf_viewD(3) [OF assms(1)], of p] assms(3) by (simp_all add: checked_def)
  with update_loop_step [OF assms(1,2), of "sem_pending a" p X] show ?thesis
    using assms(3) by (auto simp: update_queue_def)
qed

text \<open>Updating one queue leaves the others as they are.\<close>

lemma pend_disjoint:
  assumes "wf_view (view_of s)" "t \<in> set (v_pend (view_of s) p)" "t \<in> set (v_pend (view_of s) p')"
  shows "p = p'"
  using pending_entry [OF assms(1,2)] pending_entry [OF assms(1,3)] by (metis option.inject)

lemma pending_queued: "wf_view (view_of s) \<Longrightarrow> t \<in> set (v_pend (view_of s) p) \<Longrightarrow> queues s t \<noteq> None"
  by (erule (1) pending_entry) simp

lemma quiet_other:
  assumes u: "update_step X p ts s s'" and wf: "wf_view (view_of s)" "data_ok s"
    and ts: "set ts \<subseteq> set (v_pend (view_of s) p)" and p': "p' \<noteq> p"
  shows "quiet s' p' = quiet s p'" "pure_queue s' p' = pure_queue s p'"
proof -
  have same: "v_pend (view_of s') p' = v_pend (view_of s) p'" "same_at p' s s'"
    using u p' by (simp_all add: update_step_def)
  have q: "queues s' t = queues s t" if "t \<in> set (v_pend (view_of s) p')" for t
    using update_stepD(5) [OF u, of t] ts p' pend_disjoint [OF wf(1) that] by blast
  show "quiet s' p' = quiet s p'"
    by (rule quiet_same [OF wf update_stepD(1,2) [OF u] same q])
  show "pure_queue s' p' = pure_queue s p'" using same(1) q by (simp add: pure_queue_def)
qed

section \<open>The end of an operation\<close>

lemma view_of_drop_queue: "view_of (drop_queue t s) = (view_of s)\<lparr>v_queue := (queues s)(t := None)\<rparr>"
  by (simp add: drop_queue_def view_of_def)

lemma drop_queue_simps [simp]:
  "sem_ids (drop_queue t s) = sem_ids s" "semas (drop_queue t s) = semas s" "undos (drop_queue t s) = undos s"
  "queues (drop_queue t s) = (queues s)(t := None)" "semundo (drop_queue t s) = semundo s"
  "semsleeping (drop_queue t s) = semsleeping s" "used_sems (drop_queue t s) = used_sems s"
  "data_ok (drop_queue t s) = data_ok s" "same_at p s (drop_queue t s)" "creds (drop_queue t s) = creds s"
  by (simp_all add: drop_queue_def data_ok_def same_at_def)

lemma drop_queue_step:
  assumes wf: "wf_view (view_of s)" and d: "data_ok s" and q: "\<And>q. queues s t = Some q \<Longrightarrow> \<not> q_prev q"
  shows "queue_step {t} s (drop_queue t s)" "v_pend (view_of (drop_queue t s)) = v_pend (view_of s)"
    "quiet (drop_queue t s) p = quiet s p" "pure_queue (drop_queue t s) p = pure_queue s p"
proof -
  have wf': "wf_view (view_of (drop_queue t s))"
    using wf_view_drop [OF wf, of t] q by (simp add: view_of_drop_queue)
  then show "queue_step {t} s (drop_queue t s)"
    using d by (simp add: queue_step_def view_of_drop_queue) (simp add: drop_queue_def)
  show v: "v_pend (view_of (drop_queue t s)) = v_pend (view_of s)" by (simp add: view_of_drop_queue)
  have n: "t \<notin> set (v_pend (view_of s) p)" for p
    using pending_entry [OF wf, of t p] q by metis
  then have e: "queues (drop_queue t s) t' = queues s t'" if "t' \<in> set (v_pend (view_of s) p)" for t'
    using that by auto
  show "quiet (drop_queue t s) p = quiet s p"
    by (rule quiet_same [OF wf d wf']) (use d v e in simp_all)
  show "pure_queue (drop_queue t s) p = pure_queue s p"
    using v n by (auto simp: pure_queue_def)
qed

text \<open>The data of one set may be about to be looked at.\<close>

definition calm_but :: "sem_sys \<Rightarrow> ptr \<Rightarrow> bool" where
  "calm_but s p \<longleftrightarrow> (\<forall>p'. pure_queue s p') \<and> (\<forall>p'. p' \<noteq> p \<longrightarrow> quiet s p')"

lemma calm_butD: "calm_but s p \<Longrightarrow> quiet s p \<Longrightarrow> calm s"
  unfolding calm_def calm_but_def by metis

lemma update_calm:
  assumes u: "update_step X p (sem_pending a) s s'" and wf: "wf_view (view_of s)" "data_ok s"
    and a: "semas s p = Some a" and q: "pure_queue s p \<longrightarrow> quiet s' p \<and> pure_queue s' p" and c: "calm_but s p"
  shows "calm s'"
proof -
  have ts: "set (sem_pending a) \<subseteq> set (v_pend (view_of s) p)" using a by simp
  note o = quiet_other [OF u wf ts]
  have "quiet s' p' \<and> pure_queue s' p'" for p'
    using o [of p'] q c by (cases "p' = p") (simp_all add: calm_but_def)
  then show ?thesis by (simp add: calm_def)
qed

lemma semop_update_ok:
  assumes ok: "sys_ok s" and a: "semas s p = Some a" and q: "\<And>q. queues s t = Some q \<Longrightarrow> \<not> q_prev q"
    and rest: "\<not> semsleeping s t" "\<forall>u\<in>set (semundo s t). linked (view_of s) u"
  shows "\<exists>s'. semop_update t p alter e s = Some (Ret e, s') \<and> section_ok t s s' Idle \<and>
              (calm_but s p \<longrightarrow> (\<not> alter \<longrightarrow> quiet s p) \<longrightarrow> calm s')"
proof -
  note wf = sys_okD(2,3) [OF ok]
  obtain s1 where s1: "(if alter then update_queue p s else Some s) = Some s1" "queue_step {t} s s1"
    "calm_but s p \<longrightarrow> (\<not> alter \<longrightarrow> quiet s p) \<longrightarrow> calm s1" "queues s1 t = queues s t"
  proof (cases alter)
    case True
    obtain s1 where s1: "update_queue p s = Some s1" "update_step {t} p (sem_pending a) s s1"
        "pure_queue s p \<longrightarrow> quiet s1 p \<and> pure_queue s1 p"
      using update_queue_step [OF wf a] by blast
    have "t \<notin> set (sem_pending a)"
      using pending_entry [OF wf(1), of t p] a q by force
    then have "queues s1 t = queues s t" using update_stepD(5) [OF s1(2)] by blast
    moreover have "calm_but s p \<longrightarrow> calm s1" using update_calm [OF s1(2) wf a s1(3)] by blast
    ultimately show thesis using that True s1(1) update_stepD(6) [OF s1(2)] by simp
  next
    case False
    then show thesis using that [of s] queue_step_refl [OF wf] calm_butD [of s p] by simp
  qed
  note Q = queue_stepD [OF s1(2)]
  have q1: "\<not> q_prev q" if "queues s1 t = Some q" for q using q that s1(4) by simp
  note D = drop_queue_step [OF Q(1,2) q1]
  let ?s = "drop_queue t s1"
  have step: "queue_step {t} s ?s" by (rule queue_step_trans [OF s1(2) D(1)])
  have "at_rest ?s t"
    using rest Q(5,6) linked_queue_step [OF step] by (simp add: at_rest_def)
  then have "section_ok t s ?s Idle"
    using sys_ok_queue_step [OF step ok] others_kept_queue_step [OF step] by (simp add: section_ok_def pc_fine_Idle)
  moreover have "calm_but s p \<longrightarrow> (\<not> alter \<longrightarrow> quiet s p) \<longrightarrow> calm ?s"
    using s1(3) D(3,4) by (simp add: calm_def)
  moreover have "semop_update t p alter e s = Some (Ret e, ?s)" using s1(1) by (simp add: semop_update_def)
  ultimately show ?thesis by blast
qed

section \<open>Trying, and going to sleep\<close>

lemma others_kept_view:
  assumes "\<And>t'. t' \<noteq> t \<Longrightarrow> queues s' t' = queues s t' \<and> semsleeping s' t' = semsleeping s t' \<and> semundo s' t' = semundo s t'"
    and "\<And>t' u. t' \<noteq> t \<Longrightarrow> u \<in> set (semundo s t') \<Longrightarrow> linked (view_of s) u \<Longrightarrow> linked (view_of s') u"
  shows "others_kept t s s'"
  unfolding others_kept_def
proof (intro allI impI)
  fix t' pc assume t': "t' \<noteq> t" "pc_fine (view_of s) t' pc"
  have "\<forall>u\<in>set (semundo s' t'). linked (view_of s') u" if "\<forall>u\<in>set (semundo s t'). linked (view_of s) u"
    using that assms t'(1) by simp
  with assms(1) [OF t'(1)] t'(2) show "pc_fine (view_of s') t' pc"
    unfolding pc_fine_def by (simp split: sem_pc.splits sem_wait.splits)
qed

lemma linked_view [simp]:
  "linked (v\<lparr>v_queue := Q\<rparr>) = linked v" "linked (v\<lparr>v_pend := P\<rparr>) = linked v"
  "linked (v\<lparr>v_sleeping := S\<rparr>) = linked v" "linked (v\<lparr>v_semundo := U\<rparr>) = linked v"
  by (simp_all add: linked_def fun_eq_iff)

lemma slot_nsems_view [simp]:
  "slot_nsems (v\<lparr>v_queue := Q\<rparr>) = slot_nsems v" "slot_nsems (v\<lparr>v_pend := P\<rparr>) = slot_nsems v"
  "slot_nsems (v\<lparr>v_sleeping := S\<rparr>) = slot_nsems v" "slot_nsems (v\<lparr>v_semundo := U\<rparr>) = slot_nsems v"
  "slot_nsems (v\<lparr>v_undo := X\<rparr>) = slot_nsems v" "slot_nsems (v\<lparr>v_und := N\<rparr>) = slot_nsems v"
  by (simp_all add: slot_nsems_def fun_eq_iff split: option.split)

text \<open>A new entry that is stuck leaves a quiet queue quiet.\<close>

lemma quiet_add:
  assumes wf: "wf_view (view_of s)" "data_ok s" "wf_view (view_of s')" "data_ok s'"
    and pend: "set (v_pend (view_of s') p) = insert t (set (v_pend (view_of s) p))" and t: "queues s t = None"
    and same: "same_at p s s'" "\<And>t'. t' \<noteq> t \<Longrightarrow> queues s' t' = queues s t'"
    and stuck: "\<not> told s' t" "entry_verdict s' t > 0" and quiet: "quiet s p"
  shows "quiet s' p"
proof -
  have n: "t' \<noteq> t" if "t' \<in> set (v_pend (view_of s) p)" for t'
    using pending_queued [OF wf(1) that] t by auto
  have e: "entry_verdict s' t' = entry_verdict s t'" "told s' t' = told s t'"
    if "t' \<in> set (v_pend (view_of s) p)" for t'
    using entry_verdict_kept [OF wf that same(1)] same(2) [OF n [OF that]] by (simp_all add: told_def)
  then show ?thesis using quiet stuck unfolding quiet_def pend by auto
qed

text \<open>The state in which \<open>sys_semop\<close> goes to sleep.\<close>

definition asleep :: "task \<Rightarrow> sem_queue \<Rightarrow> ptr \<Rightarrow> task list \<Rightarrow> sem_array \<Rightarrow> sem_sys \<Rightarrow> sem_sys" where
  "asleep t q p ts a s =
     s\<lparr>semas := (semas s)(p \<mapsto> a\<lparr>sem_pending := ts\<rparr>), queues := (queues s)(t \<mapsto> q),
       semsleeping := (semsleeping s)(t := True), tsk_state := (tsk_state s)(t := TASK_INTERRUPTIBLE)\<rparr>"

lemma asleep_ok:
  assumes ok: "sys_ok s" and a: "semas s p = Some a" and rest: "at_rest s t"
    and id: "has_id (view_of s) p semid" and ready: "trial_ready s p sops un"
    and un: "\<forall>u. un = Some u \<longrightarrow> u \<in> set (semundo s t)"
    and q: "q_prev q" "q_undo q = un" "q_status q = - EINTR" "q_sma q = p" "q_id q = semid" "q_sops q = sops"
      "q_alter q \<longrightarrow> alter"
    and ts: "ts = t # sem_pending a \<or> ts = sem_pending a @ [t]" and v: "verdict s p sops un > 0"
  shows "section_ok t s (asleep t q p ts a s) (Waiting (Semop_sleep semid p un alter))"
    "calm s \<Longrightarrow> q_alter q \<or> zero_ops sops \<Longrightarrow> calm (asleep t q p ts a s)"
proof -
  let ?s = "asleep t q p ts a s"
  note wf = sys_okD(2,3) [OF ok]
  have view: "view_of ?s = (view_of s)\<lparr>v_pend := (v_pend (view_of s))(p := ts),
      v_queue := (queues s)(t \<mapsto> q), v_sleeping := (semsleeping s)(t := True)\<rparr>"
    using a by (auto simp: view_of_def asleep_def fun_eq_iff)
  have tn: "t \<notin> set (sem_pending a)" using pending_queued [OF wf(1), of t p] a rest by (auto simp: at_rest_def)
  have "distinct (sem_pending a)" using set_fineD(4) [OF wf_viewD(3) [OF wf(1)], of p] a by simp
  with tn ts a have tss: "distinct ts" "set ts = insert t (set (v_pend (view_of s) p))" by auto
  have fine: "queue_fine ((view_of s)\<lparr>v_pend := (v_pend (view_of s))(p := ts)\<rparr>) t q"
    using tss(2) id ready un q a by (auto simp: queue_fine_def trial_ready_def)
  have wf': "wf_view (view_of ?s)"
    using wf_view_add [OF wf(1) _ q(4,1) fine tss] rest by (simp add: view at_rest_def)
  have d': "data_ok ?s" using wf(2) a unfolding data_ok_def by (auto simp: asleep_def)
  have sys: "sem_ids ?s = sem_ids s" "used_sems ?s = used_sems s" by (simp_all add: asleep_def)
  then have "sys_ok ?s" using ok wf' d' view by (simp add: sys_ok_def used_ok_def)
  moreover have "others_kept t s ?s"
    by (rule others_kept_view) (simp_all add: view, simp_all add: asleep_def)
  moreover have "pc_fine (view_of ?s) t (Waiting (Semop_sleep semid p un alter))"
    using rest q has_id_bounds(1) [OF wf(1) id] view by (auto simp: pc_fine_def at_rest_def asleep_def)
  ultimately show "section_ok t s ?s (Waiting (Semop_sleep semid p un alter))"
    by (simp add: section_ok_def)
  assume c: "calm s" and pure: "q_alter q \<or> zero_ops sops"
  have same: "same_at p' s ?s" for p' using a by (auto simp: same_at_def asleep_def)
  have qs: "queues ?s = (queues s)(t \<mapsto> q)" by (simp add: asleep_def)
  have pend: "v_pend (view_of ?s) = (v_pend (view_of s))(p := ts)" by (simp add: view)
  have tq: "queues s t = None" using rest by (simp add: at_rest_def)
  have np: "t' \<noteq> t" if "t' \<in> set (v_pend (view_of s) p')" for t' p'
    using pending_queued [OF wf(1) that] tq by auto
  have ready': "trial_ready ?s p sops un" using ready a by (auto simp: trial_ready_def asleep_def)
  have "quiet ?s p' \<and> pure_queue ?s p'" for p'
  proof (cases "p' = p")
    case True
    have "entry_verdict ?s t > 0" "\<not> told ?s t"
      using verdict_same [OF wf(1) wf' wf(2) d' ready ready' same] v q by (simp_all add: entry_verdict_def told_def qs)
    with quiet_add [OF wf wf' d' _ tq same] pend tss(2) c have "quiet ?s p"
      by (simp add: calm_def qs)
    moreover have "pure_queue ?s p" using c pure q(6) tss(2) by (auto simp: calm_def pure_queue_def pend qs)
    ultimately show ?thesis using True by simp
  next
    case False
    have "quiet ?s p' = quiet s p'"
      by (rule quiet_same [OF wf wf' d' _ same]) (use False np in \<open>auto simp: pend qs\<close>)
    moreover have "pure_queue ?s p' = pure_queue s p'" using False np [of _ p'] by (auto simp: pure_queue_def pend qs)
    ultimately show ?thesis using c by (simp add: calm_def)
  qed
  then show "calm ?s" by (simp add: calm_def)
qed

text \<open>
  Arrays that do not mix: they contain a decrement, or only wait for zero, or only add. The
  values are bounded when no addition of a \<open>short\<close> overflows.
\<close>

definition tame :: "sembuf list \<Rightarrow> bool" where
  "tame sops \<longleftrightarrow> list_ex (\<lambda>sop. sint (sem_op sop) < 0) sops \<or> zero_ops sops \<or> positive_ops sops"

definition bounded :: "sem_sys \<Rightarrow> bool" where
  "bounded s \<longleftrightarrow> (\<forall>p a. semas s p = Some a \<longrightarrow> moderate (sem_base a))"

lemma positive_not_stuck:
  assumes "wf_view (view_of s)" "data_ok s" "trial_ready s p sops un" "bounded s" "positive_ops sops"
  shows "verdict s p sops un \<le> 0"
proof -
  obtain a where a: "semas s p = Some a" "sops_fit (sem_nsems a) (un \<noteq> None) sops"
      "\<forall>u. un = Some u \<longrightarrow> u \<in> set (sma_undo a)"
    using assms(3) unfolding trial_ready_def by blast
  obtain adj where adj: "get_adj un s = Some adj" "semop_ready sops (sem_base a) adj"
      "un = None \<longleftrightarrow> adj = None" "\<forall>u. un = Some u \<longrightarrow> (\<exists>x. undos s u = Some x \<and> adj = Some (semadj x))"
    using trial_data [OF assms(1,2) a] .
  obtain r R where T: "try_atomic_semop p sops un 0 True s = Some (r, R)"
    by (rule trial_step [OF assms(1-3), of 0 True]) blast
  then obtain sops' base' adj' c where "try_semop 0 True sops (sem_base a) adj = Some (r, sops', base', adj', c)"
    using a(1) adj(1) by (auto simp: try_atomic_semop_def Let_def split: bind_splits)
  then have "r = semop_verdict ((!) (vals (sem_base a))) (adj_at adj) sops"
    using adj(2) assms(4) a(1) by (intro try_semop_verdict) (auto simp: semop_ready_def bounded_def)
  moreover have "\<forall>i<length (sem_base a). 0 \<le> vals (sem_base a) ! i"
    using adj(2) by (simp add: semop_ready_def nonneg_def list_all_length)
  moreover have "sops_fit (length (sem_base a)) (adj \<noteq> None) sops" using adj(2) by (simp add: semop_ready_def)
  ultimately have "r \<le> 0" using positive_verdict [OF assms(5)] by blast
  with T show ?thesis by (simp add: verdict_def)
qed

lemma data_step_calm:
  assumes "data_step s s1" "wf_view (view_of s)" "data_ok s" "calm s"
    "\<forall>p'. p' \<noteq> p \<or> same \<longrightarrow> same_at p' s s1"
  shows "calm_but s1 p" "same \<Longrightarrow> quiet s1 p"
proof -
  note D = data_stepD [OF assms(1)]
  have q: "quiet s1 p' = quiet s p'" if "p' \<noteq> p \<or> same" for p'
    using quiet_same [OF assms(2,3)] D that assms(2,5) by simp
  show "calm_but s1 p" using assms(4) q D by (simp add: calm_but_def calm_def pure_queue_def)
  show "quiet s1 p" if same using q assms(4) that by (simp add: calm_def)
qed

lemma at_rest_data_step: "data_step s s1 \<Longrightarrow> at_rest s1 t = at_rest s t"
  using data_stepD [of s s1] by (simp add: at_rest_def)

lemma semop_try_ok:
  assumes ok: "sys_ok s" and rest: "at_rest s t" and id: "has_id (view_of s) p semid"
    and ready: "trial_ready s p sops un" and un: "\<forall>u. un = Some u \<longrightarrow> u \<in> set (semundo s t)"
    and alter: "decrease \<longrightarrow> alter" "\<not> alter \<longrightarrow> zero_ops sops"
  shows "\<exists>r s'. semop_try t semid p sops un decrease alter s = Some (r, s') \<and> section_ok t s s' (after r) \<and>
                (calm s \<longrightarrow> bounded s \<longrightarrow> decrease \<or> zero_ops sops \<or> positive_ops sops \<longrightarrow> calm s')"
proof -
  note wf = sys_okD(2,3) [OF ok]
  obtain r sops' s1 where T: "try_atomic_semop p sops un (pid (creds s t)) False s = Some (r, sops', s1)"
    "data_step s s1" "trial_ready s1 p sops' un"
    "\<forall>p'. p' \<noteq> p \<or> r \<noteq> 0 \<or> False \<or> zero_ops sops \<longrightarrow> same_at p' s s1" "0 \<le> r \<longrightarrow> sops' = sops" "r \<le> 1"
    using trial_step [OF wf ready, of "pid (creds s t)" False] .
  note D = data_stepD [OF T(2)]
  have step: "queue_step {} s s1" by (rule data_step_queue_step [OF wf(1) T(2)])
  have ok1: "sys_ok s1" by (rule sys_ok_queue_step [OF step ok])
  have rest1: "at_rest s1 t" using rest at_rest_data_step [OF T(2)] by simp
  obtain a where a: "semas s1 p = Some a" using T(3) by (auto simp: trial_ready_def)
  have C: "calm s \<longrightarrow> calm_but s1 p \<and> (r \<noteq> 0 \<or> zero_ops sops \<longrightarrow> quiet s1 p)"
    using data_step_calm [OF T(2) wf, of p "r \<noteq> 0 \<or> zero_ops sops"] T(4) by simp
  have O: "others_kept t s s1" by (rule others_kept_queue_step [OF step]) simp
  show ?thesis
  proof (cases "r \<le> 0")
    case True
    obtain s' where s': "semop_update t p alter r s1 = Some (Ret r, s')" "section_ok t s1 s' Idle"
        "calm_but s1 p \<longrightarrow> (\<not> alter \<longrightarrow> quiet s1 p) \<longrightarrow> calm s'"
      using semop_update_ok [OF ok1 a, of t alter r] rest1 by (auto simp: at_rest_def)
    have "semop_try t semid p sops un decrease alter s = Some (Ret r, s')"
      using T(1) True s'(1) by (simp add: semop_try_def)
    moreover have "section_ok t s s' Idle" using s'(2) O others_kept_trans by (auto simp: section_ok_def)
    ultimately show ?thesis using s'(3) C alter(2) by (auto simp: after_def)
  next
    case False
    then have so: "sops' = sops" using T(5) by simp
    define q where "q = \<lparr>q_prev = True, q_undo = un, q_pid = pid (creds s t), q_status = - EINTR, q_sma = p,
      q_id = semid, q_sops = sops, q_alter = decrease\<rparr>"
    define ts where "ts = (if alter then sem_pending a @ [t] else t # sem_pending a)"
    have v: "verdict s1 p sops un > 0"
    proof -
      have "verdict s p sops un = r" by (rule verdict_eq [OF wf ready T(1)])
      moreover have "verdict s p sops un = verdict s1 p sops un"
        using T(3,4) so False D(1,2) wf ready by (intro verdict_same) simp_all
      ultimately show ?thesis using False by simp
    qed
    have id1: "has_id (view_of s1) p semid" using id D(1) by simp
    have "semop_try t semid p sops un decrease alter s =
        Some (Wait (Semop_sleep semid p un alter), asleep t q p ts a s1)"
      using T(1) False so a D(8)
      by (simp add: semop_try_def append_to_queue_def prepend_to_queue_def go_to_sleep_def put_queue_def
          asleep_def q_def ts_def Let_def)
    moreover have "section_ok t s1 (asleep t q p ts a s1) (Waiting (Semop_sleep semid p un alter))"
      "calm s1 \<Longrightarrow> decrease \<or> zero_ops sops \<Longrightarrow> calm (asleep t q p ts a s1)"
      using asleep_ok [OF ok1 a rest1 id1, of sops un q alter ts] T(3) so un D(5) alter(1) v
      by (simp_all add: q_def ts_def)
    moreover have "\<not> positive_ops sops" if "bounded s"
      using positive_not_stuck [OF wf ready that] verdict_eq [OF wf ready T(1)] False by auto
    moreover have "calm s \<longrightarrow> calm s1" using C False calm_butD by auto
    ultimately show ?thesis using O others_kept_trans by (auto simp: after_def section_ok_def)
  qed
qed

end
