(* ===== verification/SemCalls.thy ===== *)
theory SemCalls
  imports SemSafe
begin

text \<open>
  The sections of \<open>sys_semop\<close>: looking for and adding undo structures, the first attempt, and
  what is done when the sleeping task runs again.
\<close>

section \<open>The scan of the operations\<close>

lemma scan_sops_facts:
  assumes "scan_sops n sops k d a = Some (k', d', a')"
  shows "sops_fit n (k' \<noteq> 0) sops" "k \<le> k'"
    "d' \<longleftrightarrow> d \<or> list_ex (\<lambda>sop. sint (sem_op sop) < 0) sops" "a' \<longleftrightarrow> a \<or> list_ex (\<lambda>sop. sint (sem_op sop) > 0) sops"
  using assms
proof (atomize (full), induction sops arbitrary: k d a)
  case (Cons sop sops)
  then have r: "scan_sops n sops (if wants_undo sop then Suc k else k)
      (if sint (sem_op sop) < 0 then True else d) (if sint (sem_op sop) > 0 then True else a) = Some (k', d', a')"
    "unat (sem_num sop) < n" by (simp_all split: if_splits)
  with Cons.IH [rule_format, OF r(1)] show ?case by (auto split: if_splits)
qed simp

lemma scan_sops_kinds:
  assumes "scan_sops n sops 0 False False = Some (k, d, a)"
  shows "sops_fit n (k \<noteq> 0) sops" "\<not> (a \<or> d) \<longrightarrow> zero_ops sops" "tame sops \<longrightarrow> d \<or> zero_ops sops \<or> positive_ops sops"
proof -
  note f = scan_sops_facts [OF assms]
  show "sops_fit n (k \<noteq> 0) sops" by (rule f(1))
  show "\<not> (a \<or> d) \<longrightarrow> zero_ops sops" using f(3,4) by (force simp: zero_ops_def list_all_iff list_ex_iff)
  show "tame sops \<longrightarrow> d \<or> zero_ops sops \<or> positive_ops sops" using f(3) by (auto simp: tame_def)
qed

section \<open>Undo structures come and go\<close>

lemma wf_view_changeI:
  assumes "wf_view v" "v_slot v' = v_slot v" "\<And>p. set_fine v' p" "\<And>t. distinct (v_semundo v' t)"
    "\<And>t t' u. u \<in> set (v_semundo v' t) \<Longrightarrow> u \<in> set (v_semundo v' t') \<Longrightarrow> t = t'"
    "\<And>t u. u \<in> set (v_semundo v' t) \<Longrightarrow> undo_fine v' u"
    "\<And>t q. v_queue v' t = Some q \<Longrightarrow> queue_fine v' t q"
  shows "wf_view v'"
  unfolding wf_view_def assms(2) using wf_viewD(1,2) [OF assms(1)] assms(3-7) by blast

text \<open>A task frees an undo structure that is on no set's list.\<close>

lemma wf_view_free:
  assumes wf: "wf_view v" and u: "\<And>p. u \<notin> set (v_und v p)" and own: "u \<in> set (v_semundo v t)"
  shows "wf_view (v\<lparr>v_semundo := (v_semundo v)(t := remove1 u (v_semundo v t)), v_undo := (v_undo v)(u := None)\<rparr>)"
    (is "wf_view ?v")
proof -
  note W = wf_viewD [OF wf]
  have own': "t' = t" if "u \<in> set (v_semundo v t')" for t' using W(5) [OF that own] .
  have sub: "set (v_semundo ?v t') \<subseteq> set (v_semundo v t') - {u}" for t'
    using own' [of t'] W(4) [of t] by (cases "t' = t") auto
  show ?thesis
  proof (rule wf_view_changeI [OF wf])
    fix p
    note f = set_fineD [OF W(3) [of p]]
    have "\<exists>t'. u' \<in> set (v_semundo ?v t')" if "u' \<in> set (v_und v p)" for u'
    proof -
      obtain t' where t': "u' \<in> set (v_semundo v t')" using f(5) \<open>u' \<in> set (v_und v p)\<close> by blast
      have "u' \<noteq> u" using that u by blast
      with t' have "u' \<in> set (v_semundo ?v t')" using W(4) [of t] by (auto simp: fun_upd_def)
      then show ?thesis by blast
    qed
    moreover have "\<exists>semid. v_undo ?v u' = Some (semid, v_nsems v p) \<and> has_id v p semid" if "u' \<in> set (v_und v p)" for u'
      using f(6) [OF that] u that by auto
    ultimately show "set_fine ?v p" using f(1-4,7) unfolding set_fine_def by simp
  next
    show "undo_fine ?v u'" if "u' \<in> set (v_semundo ?v t')" for t' u'
    using W(6) [of u' t'] sub [of t'] that by (auto simp: undo_fine_def)
    show "queue_fine ?v t' q" if "v_queue ?v t' = Some q" for t' q
    using W(7) [of t' q] that u W(4) [of t] by (auto simp: queue_fine_def)
    show "distinct (v_semundo ?v t')" for t' using W(4) [of t'] W(4) [of t] by simp
    show "t1 = t2" if "u' \<in> set (v_semundo ?v t1)" "u' \<in> set (v_semundo ?v t2)" for t1 t2 u'
    using W(5) [of u' t1 t2] sub that by blast
  qed simp
qed

text \<open>A task adds a new undo structure for a set.\<close>

lemma wf_view_link:
  assumes wf: "wf_view v" and u: "v_undo v u = None" and id: "has_id v p semid"
  shows "wf_view (v\<lparr>v_undo := (v_undo v)(u \<mapsto> (semid, v_nsems v p)),
                    v_semundo := (v_semundo v)(t := u # v_semundo v t), v_und := (v_und v)(p := u # v_und v p)\<rparr>)"
    (is "wf_view ?v")
proof -
  note W = wf_viewD [OF wf]
  have nt: "u \<notin> set (v_semundo v t')" for t' using W(6) [of u t'] u by (auto simp: undo_fine_def)
  have np: "u \<notin> set (v_und v p')" for p' using set_fineD(6) [OF W(3) [of p']] u by fastforce
  show ?thesis
  proof (rule wf_view_changeI [OF wf])
    fix p'
    note f = set_fineD [OF W(3) [of p']]
    have "\<exists>t'. u' \<in> set (v_semundo ?v t')" if "u' \<in> set (v_und ?v p')" for u'
    proof (cases "u' = u")
      case False
      then have "u' \<in> set (v_und v p')" using that by (auto split: if_splits)
      then obtain t' where "u' \<in> set (v_semundo v t')" using f(5) by blast
      then have "u' \<in> set (v_semundo ?v t')" by auto
      then show ?thesis by blast
    qed auto
    moreover have "\<exists>semid. v_undo ?v u' = Some (semid, v_nsems v p') \<and> has_id v p' semid" if "u' \<in> set (v_und ?v p')" for u'
      using f(6) [of u'] id np that by (auto split: if_splits)
    moreover have "distinct (v_und ?v p')" using f(3) np by (cases "p' = p") simp_all
    ultimately show "set_fine ?v p'" using f(1,2,4,7) unfolding set_fine_def by simp
  next
    show "undo_fine ?v u'" if "u' \<in> set (v_semundo ?v t')" for t' u'
    using W(6) [of u' t'] that nt has_id_bounds(1) [OF wf id] by (auto simp: undo_fine_def split: if_splits)
    show "queue_fine ?v t' q" if "v_queue ?v t' = Some q" for t' q
    using W(7) [of t' q] that by (auto simp: queue_fine_def)
    show "distinct (v_semundo ?v t')" for t' using W(4) nt by simp
    show "t1 = t2" if "u' \<in> set (v_semundo ?v t1)" "u' \<in> set (v_semundo ?v t2)" for t1 t2 u'
    using W(5) [of u' t1 t2] that nt by (auto split: if_splits)
  qed simp
qed

section \<open>Looking for the undo structure of a task\<close>

lemma calm_same:
  assumes "wf_view (view_of s)" "data_ok s" "wf_view (view_of s')" "data_ok s'"
    "v_pend (view_of s') = v_pend (view_of s)" "\<And>p. same_at p s s'" "queues s' = queues s"
  shows "calm s' = calm s"
  using quiet_same [OF assms(1-4)] assms(5-7) by (simp add: calm_def pure_queue_def)

text \<open>What the search keeps: it only frees structures of the task itself.\<close>

definition searched :: "task \<Rightarrow> sem_sys \<Rightarrow> sem_sys \<Rightarrow> bool" where
  "searched t s s' \<longleftrightarrow>
     sys_ok s' \<and> others_kept t s s' \<and> at_rest s' t \<and> semas s' = semas s \<and> sem_ids s' = sem_ids s \<and>
     (calm s \<longrightarrow> calm s')"

lemma searched_trans: "searched t s s' \<Longrightarrow> searched t s' s'' \<Longrightarrow> searched t s s''"
  using others_kept_trans [of t s s' s''] by (simp add: searched_def)

lemma stale_not_linked:
  assumes "wf_view v" "v_undo v u = Some (-1, n)"
  shows "u \<notin> set (v_und v p)"
proof
  assume "u \<in> set (v_und v p)"
  then have "has_id v p (-1)" using set_fineD(6) [OF wf_viewD(3) [OF assms(1)]] assms(2) by fastforce
  from has_id_bounds(1) [OF assms(1) this] show False by (simp add: semid_ok_def)
qed

text \<open>Freeing an undo structure of a task that no set refers to.\<close>

definition without_undo :: "task \<Rightarrow> ptr \<Rightarrow> sem_sys \<Rightarrow> sem_sys" where
  "without_undo t u s = s\<lparr>semundo := (semundo s)(t := remove1 u (semundo s t)), undos := (undos s)(u := None)\<rparr>"

lemma without_undo_ok:
  assumes ok: "sys_ok s" and u: "u \<in> set (semundo s t)" and n: "\<And>p. u \<notin> set (v_und (view_of s) p)"
  shows "sys_ok (without_undo t u s)" "others_kept t s (without_undo t u s)" "calm (without_undo t u s) = calm s"
    "\<And>u'. linked (view_of s) u' \<Longrightarrow> linked (view_of (without_undo t u s)) u'"
proof -
  note wf = sys_okD(2,3) [OF ok] and def = without_undo_def
  let ?s = "without_undo t u s"
  have view: "view_of ?s = (view_of s)\<lparr>v_semundo := (semundo s)(t := remove1 u (semundo s t)),
      v_undo := (v_undo (view_of s))(u := None)\<rparr>" by (auto simp: view_of_def def fun_eq_iff)
  have wf': "wf_view (view_of ?s)" using wf_view_free [OF wf(1) n, of t] u by (simp add: view)
  have d': "data_ok ?s" using wf(2) unfolding data_ok_def def by simp
  have same: "same_at p s ?s" for p using n [of p] by (auto simp: same_at_def def)
  show lk: "linked (view_of ?s) u'" if "linked (view_of s) u'" for u'
    using that by (simp add: linked_def view del: view_of_simps)
  have "used_ok ?s" using sys_okD(4) [OF ok] by (simp add: used_ok_def view) (simp add: def)
  then show "sys_ok ?s" using sys_okD(1) [OF ok] wf' d' by (simp add: sys_ok_def def)
  show "others_kept t s ?s" by (rule others_kept_view) (use lk in \<open>simp_all add: def\<close>)
  show "calm ?s = calm s" by (rule calm_same [OF wf wf' d' _ same]) (simp add: view, simp add: def)
qed

lemma freeundos_ok:
  assumes ok: "sys_ok s" and rest: "at_rest s t" and u: "u \<in> set (semundo s t)" "undos s u = Some un" "un_semid un = -1"
  shows "\<exists>s'. freeundos t u s = Some s' \<and> searched t s s' \<and> semundo s' t = remove1 u (semundo s t)"
proof -
  have n: "u \<notin> set (v_und (view_of s) p)" for p using stale_not_linked [OF sys_okD(2) [OF ok]] u(2,3) by simp
  note F = without_undo_ok [OF ok u(1) n]
  have "at_rest (without_undo t u s) t"
    using rest F(4) set_remove1_subset [of u "semundo s t"] by (auto simp: at_rest_def) (auto simp: without_undo_def)
  with F have "searched t s (without_undo t u s)" by (simp add: searched_def) (simp add: without_undo_def)
  with u(1) show ?thesis by (auto simp: freeundos_def without_undo_def)
qed

lemma find_undo_ok:
  assumes "sys_ok s" "at_rest s t" "set us \<subseteq> set (semundo s t)" "distinct us"
  shows "\<exists>un s'. find_undo t semid us s = Some (un, s') \<and> searched t s s' \<and>
           (\<forall>u. un = Some u \<longrightarrow> u \<in> set (semundo s' t) \<and> (\<exists>x. undos s' u = Some x \<and> un_semid x = semid))"
  using assms
proof (induction us arbitrary: s)
  case Nil
  then show ?case by (simp add: searched_def)
next
  case (Cons u us)
  have "undo_fine (view_of s) u" using wf_viewD(6) [OF sys_okD(2) [OF Cons.prems(1)]] Cons.prems(3) by auto
  then obtain x where x: "undos s u = Some x" by (auto simp: undo_fine_def)
  consider "un_semid x = semid" | "un_semid x \<noteq> semid" "un_semid x = -1" | "un_semid x \<noteq> semid" "un_semid x \<noteq> -1" by blast
  then show ?case
  proof cases
    case 1
    with x Cons.prems show ?thesis by (simp add: searched_def)
  next
    case 2
    obtain s1 where s1: "freeundos t u s = Some s1" "searched t s s1" "semundo s1 t = remove1 u (semundo s t)"
      using freeundos_ok [OF Cons.prems(1,2) _ x 2(2)] Cons.prems(3) by auto
    have "distinct (semundo s t)" using wf_viewD(4) [OF sys_okD(2) [OF Cons.prems(1)]] by simp
    then have "set us \<subseteq> set (semundo s1 t)" using s1(3) Cons.prems(3,4) by auto
    then obtain un s2 where s2: "find_undo t semid us s1 = Some (un, s2)" "searched t s1 s2"
      "\<forall>u. un = Some u \<longrightarrow> u \<in> set (semundo s2 t) \<and> (\<exists>x. undos s2 u = Some x \<and> un_semid x = semid)"
      using Cons.IH [of s1] s1(2) Cons.prems(4) by (auto simp: searched_def)
    then show ?thesis using x 2 s1(1) searched_trans [OF s1(2) s2(2)] by simp
  next
    case 3
    then show ?thesis using x Cons.IH [of s] Cons.prems by simp
  qed
qed

section \<open>The first attempt\<close>

lemma section_same: "sys_ok s \<Longrightarrow> at_rest s t \<Longrightarrow> section_ok t s s Idle"
  by (simp add: section_ok_def pc_fine_Idle)

lemma section_trans: "others_kept t s s1 \<Longrightarrow> section_ok t s1 s' pc \<Longrightarrow> section_ok t s s' pc"
  using others_kept_trans by (auto simp: section_ok_def)

lemma after_simps [simp]: "after (Ret e) = Idle" "after (Wait w) = Waiting w"
  by (simp_all add: after_def)

text \<open>The undo structure of a task with the identifier of a set is on the list of the set.\<close>

lemma undo_found:
  assumes ok: "sys_ok s" and u: "linked (view_of s) u" "undos s u = Some x" "un_semid x = semid" "semid_ok semid"
    and id: "has_id (view_of s) p semid" and a: "semas s p = Some a" "sops_fit (sem_nsems a) True sops"
  shows "trial_ready s p sops (Some u)"
proof -
  obtain p' where "has_id (view_of s) p' semid" "u \<in> set (v_und (view_of s) p')"
    using u unfolding linked_def by (force simp: semid_ok_def)
  moreover from this have "p' = p" using has_id_unique [OF sys_okD(2) [OF ok] _ id] by blast
  ultimately show ?thesis using a by (auto simp: trial_ready_def)
qed

text \<open>What waits for memory for an undo structure is tame if the call's array is.\<close>

definition tame_pc :: "sem_pc \<Rightarrow> bool" where
  "tame_pc pc \<longleftrightarrow>
     (\<forall>semid p nsems sops decrease alter. pc = Waiting (Alloc_undo semid p nsems sops decrease alter) \<longrightarrow>
        decrease \<or> zero_ops sops \<or> positive_ops sops)"

lemma tame_pc_simps [simp]:
  "tame_pc Idle" "tame_pc Exiting" "tame_pc (Waiting (Semop_sleep semid p un alter))"
  "tame_pc (Waiting (Getall_alloc semid p nsems))" "tame_pc (Waiting (Setall_copy semid p nsems))"
  "tame_pc (Waiting (Alloc_undo semid p nsems sops decrease alter)) \<longleftrightarrow> decrease \<or> zero_ops sops \<or> positive_ops sops"
  by (simp_all add: tame_pc_def)

text \<open>
  A call of a task that is where it should be succeeds and keeps what it has to; for calls
  that do not mix, the queues stay calm.
\<close>

definition section_good :: "task \<Rightarrow> bool \<Rightarrow> sem_sys \<Rightarrow> (sem_ret \<times> sem_sys) option \<Rightarrow> bool" where
  "section_good t good s c \<longleftrightarrow>
     (\<exists>r s'. c = Some (r, s') \<and> section_ok t s s' (after r) \<and>
             (good \<longrightarrow> bounded s \<longrightarrow> tame_pc (after r) \<and> (calm s \<longrightarrow> calm s')))"

lemma section_goodI:
  "section_ok t s s' (after r) \<Longrightarrow> (good \<Longrightarrow> bounded s \<Longrightarrow> tame_pc (after r)) \<Longrightarrow>
   (good \<Longrightarrow> bounded s \<Longrightarrow> calm s \<Longrightarrow> calm s') \<Longrightarrow> section_good t good s (Some (r, s'))"
  by (auto simp: section_good_def)

lemma section_good_ret [simp]: "sys_ok s \<Longrightarrow> at_rest s t \<Longrightarrow> section_good t good s (Some (Ret e, s))"
  by (rule section_goodI) (simp_all add: section_same)

lemma semop_try_waits:
  assumes "semop_try t semid p sops un decrease alter s = Some (r, s')"
  shows "tame_pc (after r)"
  using assms by (auto simp: semop_try_def semop_update_def Let_def split: bind_splits if_splits prod.splits)

lemma semop_try_good:
  assumes "sys_ok s" "at_rest s t" "has_id (view_of s) p semid" "trial_ready s p sops un"
    "\<forall>u. un = Some u \<longrightarrow> u \<in> set (semundo s t)" "decrease \<longrightarrow> alter" "\<not> alter \<longrightarrow> zero_ops sops"
  shows "section_good t (decrease \<or> zero_ops sops \<or> positive_ops sops) s (semop_try t semid p sops un decrease alter s)"
proof -
  obtain r s' where r: "semop_try t semid p sops un decrease alter s = Some (r, s')" "section_ok t s s' (after r)"
    "calm s \<longrightarrow> bounded s \<longrightarrow> decrease \<or> zero_ops sops \<or> positive_ops sops \<longrightarrow> calm s'"
    using semop_try_ok [OF assms] by blast
  show ?thesis unfolding r(1) using r(2,3) semop_try_waits [OF r(1)] by (intro section_goodI) simp_all
qed

lemma section_good_after:
  assumes "section_good t good s1 c" "others_kept t s s1" "calm s \<longrightarrow> calm s1" "bounded s \<longrightarrow> bounded s1"
    "good' \<longrightarrow> good"
  shows "section_good t good' s c"
  using assms section_trans [OF assms(2)] unfolding section_good_def by blast

text \<open>The part of the call with the undo structures.\<close>

lemma sys_semop_tail:
  fixes k :: nat
  assumes ok: "sys_ok s" and rest: "at_rest s t" and sid: "semid_ok semid" and id: "has_id (view_of s) p semid"
    and a: "semas s p = Some a"
    and kinds: "sops_fit (sem_nsems a) (k \<noteq> 0) sops" "\<not> (al \<or> d) \<longrightarrow> zero_ops sops"
      "tame sops \<longrightarrow> d \<or> zero_ops sops \<or> positive_ops sops"
  shows "0 < k \<Longrightarrow> section_good t (tame sops) s (do {
           (un, s) \<leftarrow> find_undo t semid (semundo s t) s;
           case un of
             None \<Rightarrow> Some (Wait (Alloc_undo semid p (sem_nsems a) sops d (al \<or> d)), s)
           | Some u \<Rightarrow> semop_try t semid p sops (Some u) d (al \<or> d) s })"
    "k = 0 \<Longrightarrow> section_good t (tame sops) s (semop_try t semid p sops None d (al \<or> d) s)"
proof -
  assume k: "0 < k"
  then have "k \<noteq> 0" by simp
  then have fit: "sops_fit (sem_nsems a) True sops" using kinds(1) by simp
  have "distinct (semundo s t)" using wf_viewD(4) [OF sys_okD(2) [OF ok], of t] by simp
  then obtain un s1 where f: "find_undo t semid (semundo s t) s = Some (un, s1)" "searched t s s1"
      "\<forall>u. un = Some u \<longrightarrow> u \<in> set (semundo s1 t) \<and> (\<exists>x. undos s1 u = Some x \<and> un_semid x = semid)"
    using find_undo_ok [OF ok rest order_refl, of semid] by blast
  have s1: "sys_ok s1" "others_kept t s s1" "at_rest s1 t" "semas s1 = semas s" "sem_ids s1 = sem_ids s" "calm s \<longrightarrow> calm s1"
    using f(2) by (simp_all add: searched_def)
  have id1: "has_id (view_of s1) p semid" using id s1(4,5) by (simp add: has_id_def)
  show "section_good t (tame sops) s (do {
           (un, s) \<leftarrow> find_undo t semid (semundo s t) s;
           case un of
             None \<Rightarrow> Some (Wait (Alloc_undo semid p (sem_nsems a) sops d (al \<or> d)), s)
           | Some u \<Rightarrow> semop_try t semid p sops (Some u) d (al \<or> d) s })"
  proof (cases un)
    case None
    have "section_ok t s s1 (Waiting (Alloc_undo semid p (sem_nsems a) sops d (al \<or> d)))"
      using s1(1-3) fit kinds(2) sid by (simp add: section_ok_def pc_fine_def at_rest_def)
    with f(1) None kinds(3) s1(6) show ?thesis by (auto intro!: section_goodI)
  next
    case (Some u)
    have "linked (view_of s1) u" using s1(3) f(3) Some by (simp add: at_rest_def)
    then have "trial_ready s1 p sops (Some u)"
      using undo_found [OF s1(1) _ _ _ sid id1] f(3) Some a s1(4) fit by auto
    then have "section_good t (d \<or> zero_ops sops \<or> positive_ops sops) s1 (semop_try t semid p sops (Some u) d (al \<or> d) s1)"
      using semop_try_good [OF s1(1,3) id1] f(3) Some kinds(2) by simp
    then show ?thesis using f(1) Some section_good_after [OF _ s1(2,6)] kinds(3) s1(4) by (simp add: bounded_def)
  qed
next
  assume k: "k = 0"
  then have "trial_ready s p sops None" using a kinds(1) by (simp add: trial_ready_def)
  then have "section_good t (d \<or> zero_ops sops \<or> positive_ops sops) s (semop_try t semid p sops None d (al \<or> d) s)"
    using semop_try_good [OF ok rest id] kinds(2) by simp
  then show "section_good t (tame sops) s (semop_try t semid p sops None d (al \<or> d) s)"
    by (rule section_good_after) (use kinds(3) in simp_all)
qed

lemma sys_semop_good:
  assumes ok: "sys_ok s" and rest: "at_rest s t" and semid: "in_s32 semid"
  shows "section_good t (tame sops) s (sys_semop t semid sops mem copy s)"
proof (cases "length sops < 1 \<or> semid < 0 \<or> int (length sops) > uint (word_of_int (sc_semopm s) :: u32) \<or>
              length sops > SEMOPM_FAST \<and> \<not> mem \<or> \<not> copy")
  case True
  then show ?thesis using ok rest by (auto simp: sys_semop_def Let_def)
next
  case False
  note wf = sys_okD(1-3) [OF ok]
  have sid: "semid_ok semid" using False semid by (simp add: semid_ok_def in_s32_def)
  note L = sem_lock_slot [OF wf(1) sid]
  have run: "sys_semop t semid sops mem copy s =
      (case slot (sem_ids s) (nat (semid mod 32768)) of
         None \<Rightarrow> Some (Ret (- EINVAL), s)
       | Some p \<Rightarrow> do {
           sma \<leftarrow> semas s p;
           if ipc_checkid (sem_perm sma) semid then Some (Ret (- EIDRM), s)
           else case scan_sops (sem_nsems sma) sops 0 False False of
             None \<Rightarrow> Some (Ret (- EFBIG), s)
           | Some (nundo, decrease, alter) \<Rightarrow>
               let alter = (alter \<or> decrease) in
               if ipcperms (creds s t) (sem_perm sma) (if alter then S_IWUGO else S_IRUGO) \<noteq> 0
               then Some (Ret (- EACCES), s)
               else if nundo \<noteq> 0 then do {
                 (un, s) \<leftarrow> find_undo t semid (semundo s t) s;
                 case un of
                   None \<Rightarrow> Some (Wait (Alloc_undo semid p (sem_nsems sma) sops decrease alter), s)
                 | Some u \<Rightarrow> semop_try t semid p sops (Some u) decrease alter s }
               else semop_try t semid p sops None decrease alter s })"
    using False by (cases mem) (simp_all add: sys_semop_def Let_def L)
  show ?thesis
  proof (cases "slot (sem_ids s) (nat (semid mod 32768))")
    case (Some p)
    then have lock: "sem_lock semid s = Some (Some p)" using L by simp
    obtain a where a: "semas s p = Some a" by (rule lock_live [OF wf(1,2) sid lock])
    show ?thesis
    proof (cases "ipc_checkid (sem_perm a) semid \<or> scan_sops (sem_nsems a) sops 0 False False = None")
      case False
      then obtain k d al where scan: "scan_sops (sem_nsems a) sops 0 False False = Some (k, d, al)" by auto
      note kinds = scan_sops_kinds [OF scan]
      have id: "has_id (view_of s) p semid" using lock_has_id [OF wf(1,2) sid lock a] False by simp
      show ?thesis unfolding run using Some a False scan
        by (simp add: Let_def sys_semop_tail [OF ok rest sid id a kinds] ok rest)
    qed (use run Some a ok rest in auto)
  qed (use run ok rest in simp)
qed

section \<open>After the allocation of an undo structure\<close>

lemma sem_revalidate_ok:
  assumes ok: "sys_ok s" and sid: "semid_ok semid"
  shows "\<exists>e. sem_revalidate t semid p nsems flg s = Some e \<and>
             (e = 0 \<longrightarrow> has_id (view_of s) p semid \<and> (\<exists>a. semas s p = Some a \<and> sem_nsems a = nsems))"
proof -
  note wf = sys_okD(1,2) [OF ok]
  note L = sem_lock_slot [OF wf(1) sid]
  show ?thesis
  proof (cases "slot (sem_ids s) (nat (semid mod 32768)) = Some p")
    case True
    then have lock: "sem_lock semid s = Some (Some p)" using L by simp
    obtain a where a: "semas s p = Some a" by (rule lock_live [OF wf sid lock])
    with lock lock_has_id [OF wf sid lock a] show ?thesis by (simp add: sem_revalidate_def)
  next
    case False
    then show ?thesis by (cases "slot (sem_ids s) (nat (semid mod 32768))") (simp_all add: sem_revalidate_def L)
  qed
qed

lemma alloc_undo_ok:
  assumes ok: "sys_ok s" and rest: "at_rest s t" and sid: "semid_ok semid" and fit: "sops_fit nsems True sops"
    and mem: "\<And>u. mem = Some u \<Longrightarrow> undos s u = None"
  shows "\<exists>e un s'. alloc_undo t semid p nsems alter mem s = Some (e, un, s') \<and> (e \<noteq> 0 \<longrightarrow> s' = s) \<and>
     (e = 0 \<longrightarrow> sys_ok s' \<and> others_kept t s s' \<and> at_rest s' t \<and> has_id (view_of s') p semid \<and>
        trial_ready s' p sops un \<and> (\<forall>u. un = Some u \<longrightarrow> u \<in> set (semundo s' t)) \<and>
        (calm s \<longrightarrow> calm s') \<and> (bounded s \<longrightarrow> bounded s'))"
proof (cases mem)
  case (Some u)
  note wf = sys_okD(2,3) [OF ok]
  obtain e where e: "sem_revalidate t semid p nsems (if alter then S_IWUGO else S_IRUGO) s = Some e"
      "e = 0 \<longrightarrow> has_id (view_of s) p semid \<and> (\<exists>a. semas s p = Some a \<and> sem_nsems a = nsems)"
    using sem_revalidate_ok [OF ok sid] by blast
  show ?thesis
  proof (cases "e = 0")
    case True
    then obtain a where a: "semas s p = Some a" "sem_nsems a = nsems" and id: "has_id (view_of s) p semid" using e(2) by blast
    define s' where "s' = s\<lparr>undos := (undos s)(u \<mapsto> \<lparr>un_semid = semid, semadj = replicate nsems 0\<rparr>),
      semundo := (semundo s)(t := u # semundo s t), semas := (semas s)(p \<mapsto> a\<lparr>sma_undo := u # sma_undo a\<rparr>)\<rparr>"
    have run: "alloc_undo t semid p nsems alter mem s = Some (0, Some u, s')"
      using Some e(1) True a(1) by (simp add: alloc_undo_def s'_def)
    have new: "v_undo (view_of s) u = None" using mem Some by simp
    have view: "view_of s' = (view_of s)\<lparr>v_undo := (v_undo (view_of s))(u \<mapsto> (semid, v_nsems (view_of s) p)),
        v_semundo := (semundo s)(t := u # semundo s t), v_und := (v_und (view_of s))(p := u # v_und (view_of s) p)\<rparr>"
      using a by (auto simp: view_of_def s'_def fun_eq_iff)
    have wf': "wf_view (view_of s')" using wf_view_link [OF wf(1) new id, of t] by (simp add: view)
    have d': "data_ok s'" using wf(2) a(1) unfolding data_ok_def s'_def by (auto simp: list_all_iff in_s16_def)
    have nu: "u \<notin> set (v_und (view_of s) p')" for p'
      using set_fineD(6) [OF wf_viewD(3) [OF wf(1)], of u p'] new by (auto simp del: view_of_simps)
    have same: "same_at p' s s'" for p' using nu [of p'] a(1) by (auto simp: same_at_def s'_def)
    have id': "has_id (view_of s') p semid" using id by (simp add: view)
    have lk: "linked (view_of s') u'" if "linked (view_of s) u'" for u'
      using that id by (auto simp: linked_def view simp del: view_of_simps)
    have lk': "linked (view_of s') u" using id by (auto simp: linked_def view)
    have "used_ok s'" using sys_okD(4) [OF ok] by (simp add: used_ok_def view) (simp add: s'_def)
    then have "sys_ok s'" using sys_okD(1) [OF ok] wf' d' by (simp add: sys_ok_def s'_def)
    moreover have "others_kept t s s'" by (rule others_kept_view) (use lk in \<open>simp_all add: s'_def\<close>)
    moreover have "at_rest s' t" using rest lk lk' by (simp add: at_rest_def) (simp add: s'_def)
    moreover have "calm s' = calm s" by (rule calm_same [OF wf wf' d' _ same]) (simp add: view, simp add: s'_def)
    moreover have "trial_ready s' p sops (Some u)" using fit a by (simp add: trial_ready_def s'_def)
    moreover have "bounded s \<longrightarrow> bounded s'" using a(1) by (auto simp: bounded_def s'_def)
    moreover have "u \<in> set (semundo s' t)" by (simp add: s'_def)
    ultimately show ?thesis using run id' by auto
  qed (use Some e(1) in \<open>simp add: alloc_undo_def\<close>)
qed (simp add: alloc_undo_def)

lemma semop_alloc_good:
  assumes ok: "sys_ok s" and pc: "pc_fine (view_of s) t (Waiting (Alloc_undo semid p nsems sops decrease alter))"
    and mem: "\<And>u. mem = Some u \<Longrightarrow> undos s u = None"
  shows "section_good t (decrease \<or> zero_ops sops \<or> positive_ops sops) s
           (semop_alloc t semid p nsems sops decrease alter mem s)"
proof -
  have rest: "at_rest s t" and sid: "semid_ok semid" and fit: "sops_fit nsems True sops"
    and kinds: "decrease \<longrightarrow> alter" "\<not> alter \<longrightarrow> zero_ops sops"
    using pc by (auto simp: pc_fine_def at_rest_def)
  obtain e un s' where A: "alloc_undo t semid p nsems alter mem s = Some (e, un, s')" "e \<noteq> 0 \<longrightarrow> s' = s"
     "e = 0 \<longrightarrow> sys_ok s' \<and> others_kept t s s' \<and> at_rest s' t \<and> has_id (view_of s') p semid \<and>
        trial_ready s' p sops un \<and> (\<forall>u. un = Some u \<longrightarrow> u \<in> set (semundo s' t)) \<and>
        (calm s \<longrightarrow> calm s') \<and> (bounded s \<longrightarrow> bounded s')"
    using alloc_undo_ok [OF ok rest sid fit mem, where p = p and alter = alter] by blast
  show ?thesis
  proof (cases "e = 0")
    case True
    with A(3) semop_try_good [of s' t p semid sops un decrease alter] kinds
    have "section_good t (decrease \<or> zero_ops sops \<or> positive_ops sops) s' (semop_try t semid p sops un decrease alter s')"
      by blast
    then show ?thesis using A(1,3) True by (auto simp: semop_alloc_def intro: section_good_after)
  qed (use A ok rest in \<open>simp add: semop_alloc_def\<close>)
qed

section \<open>When a sleeping task runs again\<close>

lemma tsk_state_simps [simp]:
  "view_of (s\<lparr>tsk_state := x\<rparr>) = view_of s" "data_ok (s\<lparr>tsk_state := x\<rparr>) = data_ok s"
  "sys_ok (s\<lparr>tsk_state := x\<rparr>) = sys_ok s" "sem_lock n (s\<lparr>tsk_state := x\<rparr>) = sem_lock n s"
  "others_kept t s (s\<lparr>tsk_state := x\<rparr>)" "others_kept t (s\<lparr>tsk_state := x\<rparr>) s' = others_kept t s s'"
  by (simp_all add: view_of_def data_ok_def sys_ok_def used_ok_def sem_lock_def others_kept_def)

lemma sleeping_simps [simp]:
  "view_of (s\<lparr>semsleeping := x\<rparr>) = (view_of s)\<lparr>v_sleeping := x\<rparr>" "data_ok (s\<lparr>semsleeping := x\<rparr>) = data_ok s"
  by (simp_all add: view_of_def data_ok_def)

lemma sys_ok_sleeping [simp]: "sys_ok (s\<lparr>semsleeping := x\<rparr>) = sys_ok s"
  by (simp add: sys_ok_def used_ok_def)

lemma others_kept_sleeping: "others_kept t s (s\<lparr>semsleeping := (semsleeping s)(t := b)\<rparr>)"
  by (rule others_kept_view) simp_all

lemma quiet_tsk [simp]:
  assumes "sys_ok s"
  shows "quiet (s\<lparr>tsk_state := x\<rparr>) p = quiet s p" "quiet (s\<lparr>semsleeping := y\<rparr>) p = quiet s p"
  by (rule quiet_same; use sys_okD(2,3) [OF assms] in \<open>simp add: same_at_def\<close>)+

lemma pure_queue_tsk [simp]:
  "pure_queue (s\<lparr>tsk_state := x\<rparr>) p = pure_queue s p" "pure_queue (s\<lparr>semsleeping := y\<rparr>) p = pure_queue s p"
  by (simp_all add: pure_queue_def)

text \<open>Leaving the queue of \<open>p\<close>.\<close>

lemma remove_calm:
  assumes wf: "wf_view (view_of s)" "data_ok s" and q: "queues s t = Some q" "q_prev q" "q_sma q = p"
    and step: "queue_step X s s'" "v_pend (view_of s') = (v_pend (view_of s))(p := remove1 t (v_pend (view_of s) p))"
      "queues s' = (queues s)(t \<mapsto> q\<lparr>q_prev := False\<rparr>)" "\<forall>p'. same_at p' s s'"
  shows "calm_but s p \<Longrightarrow> calm_but s' p" "quiet s p \<Longrightarrow> q_status q \<noteq> 1 \<Longrightarrow> quiet s' p"
proof -
  have own: "p' = p" if "t \<in> set (v_pend (view_of s) p')" for p'
    using pending_entry [OF wf(1) that] q by (metis option.inject)
  have d: "distinct (v_pend (view_of s) p)" using set_fineD(4) [OF wf_viewD(3) [OF wf(1)]] .
  have pend: "set (v_pend (view_of s') p') = set (v_pend (view_of s) p') - {t}" for p'
  proof (cases "p' = p")
    case True
    show ?thesis unfolding True step(2) using d by simp
  next
    case False
    then have "t \<notin> set (v_pend (view_of s) p')" using own by blast
    with False show ?thesis unfolding step(2) by simp
  qed
  have e: "entry_verdict s' t' = entry_verdict s t'" "told s' t' = told s t'" "queues s' t' = queues s t'"
    if "t' \<in> set (v_pend (view_of s) p')" "t' \<noteq> t" for t' p'
    using entry_verdict_kept [OF wf queue_stepD(1,2) [OF step(1)] that(1)] step(3,4) that(2) by (simp_all add: told_def)
  show "calm_but s' p" if c: "calm_but s p"
  proof -
    have "quiet s' p'" if "p' \<noteq> p" for p'
    proof -
      have t: "t' \<noteq> t" if "t' \<in> set (v_pend (view_of s) p')" for t' using own [of p'] that \<open>p' \<noteq> p\<close> by blast
      then have "set (v_pend (view_of s') p') = set (v_pend (view_of s) p')" using pend [of p'] by blast
      then have "quiet s' p' = quiet s p'" using e(1,2) [OF _ t] by (simp add: quiet_def)
      then show ?thesis using c that by (simp add: calm_but_def)
    qed
    moreover have "pure_queue s' p'" for p'
    proof -
      have "pure_queue s p'" using c by (simp add: calm_but_def)
      then show ?thesis using e(3) [of _ p'] unfolding pure_queue_def pend by auto
    qed
    ultimately show ?thesis by (simp add: calm_but_def)
  qed
  show "quiet s' p" if c: "quiet s p" "q_status q \<noteq> 1"
  proof -
    have "\<not> told s t" using q(1) c(2) by (simp add: told_def)
    then show ?thesis using c(1) e(1,2) [of _ p] pend [of p] by (auto simp: quiet_def)
  qed
qed

lemma semop_leave_ok:
  assumes ok: "sys_ok s" and q: "queues s t = Some q" "q_prev q" "q_sma q = p"
    and rest: "\<not> semsleeping s t" "\<forall>u\<in>set (semundo s t). linked (view_of s) u"
  shows "\<exists>s'. (do { s \<leftarrow> remove_from_queue p t s; semop_update t p alter e s }) = Some (Ret e, s') \<and>
              section_ok t s s' Idle \<and>
              (calm_but s p \<longrightarrow> (\<not> alter \<longrightarrow> quiet s p \<and> q_status q \<noteq> 1) \<longrightarrow> calm s')"
proof -
  note wf = sys_okD(2,3) [OF ok]
  have X: "q_status q \<noteq> 1 \<or> t \<in> {t}" by simp
  obtain s1 where s1: "remove_from_queue p t s = Some s1" "queue_step {t} s s1"
    "v_pend (view_of s1) = (v_pend (view_of s))(p := remove1 t (v_pend (view_of s) p))"
    "queues s1 = (queues s)(t \<mapsto> q\<lparr>q_prev := False\<rparr>)" "\<forall>p'. same_at p' s s1"
    using remove_entry_step [OF wf q X] .
  have ok1: "sys_ok s1" by (rule sys_ok_queue_step [OF s1(2) ok])
  obtain a where a: "semas s p = Some a" using queued_ready [OF wf(1) q(1,2)] q(3) by (auto simp: trial_ready_def)
  then have "v_seq (view_of s1) p \<noteq> None" using queue_stepD(10) [OF s1(2)] by (simp add: fun_eq_iff)
  then obtain a1 where a1: "semas s1 p = Some a1" by auto
  have rest1: "\<not> semsleeping s1 t" "\<forall>u\<in>set (semundo s1 t). linked (view_of s1) u"
    using rest queue_stepD(5,6) [OF s1(2)] linked_queue_step [OF s1(2)] by simp_all
  have q1: "\<not> q_prev q'" if "queues s1 t = Some q'" for q' using that s1(4) by auto
  obtain s2 where s2: "semop_update t p alter e s1 = Some (Ret e, s2)" "section_ok t s1 s2 Idle"
    "calm_but s1 p \<longrightarrow> (\<not> alter \<longrightarrow> quiet s1 p) \<longrightarrow> calm s2"
    using semop_update_ok [OF ok1 a1 q1 rest1] by blast
  have "others_kept t s s1" by (rule others_kept_queue_step [OF s1(2)]) simp
  note R = remove_calm [OF wf q s1(2-5)]
  show ?thesis using s1(1) s2 R section_trans [OF \<open>others_kept t s s1\<close> s2(2)] by auto
qed

lemma semop_forget_ok:
  assumes ok: "sys_ok s" and q: "queues s t = Some q" "\<not> q_prev q"
    and rest: "\<not> semsleeping s t" "\<forall>u\<in>set (semundo s t). linked (view_of s) u"
  shows "section_ok t s (drop_queue t s) Idle" "calm (drop_queue t s) = calm s"
proof -
  have np: "\<not> q_prev q'" if "queues s t = Some q'" for q' using q that by simp
  note D = drop_queue_step [OF sys_okD(2,3) [OF ok] np]
  have "at_rest (drop_queue t s) t" using rest linked_queue_step [OF D(1)] by (simp add: at_rest_def)
  then show "section_ok t s (drop_queue t s) Idle"
    using sys_ok_queue_step [OF D(1) ok] others_kept_queue_step [OF D(1)] by (simp add: section_ok_def pc_fine_Idle)
  show "calm (drop_queue t s) = calm s" using D(3,4) by (simp add: calm_def)
qed

text \<open>An entry whose task has tried in vain is no longer told to try.\<close>

lemma retry_calm:
  assumes wf: "wf_view (view_of s)" "data_ok s" and q: "queues s t = Some q" "q_prev q" "q_sma q = p"
    and q': "q' = q\<lparr>q_status := e\<rparr>" "e \<noteq> 1" and v: "entry_verdict s t > 0" and c: "calm s"
  shows "calm (put_queue t q' s)"
proof -
  let ?s = "put_queue t q' s"
  have step: "queue_step {} s ?s"
  proof (rule put_entry_step [OF wf q(1)])
    have "queue_fine (view_of s) t q" using wf_viewD(7) [OF wf(1)] q(1) by simp
    then show "queue_fine (view_of s) t q'" using q q' by (simp add: queue_fine_def)
  qed (use q q' in \<open>simp_all add: q_evolves_def\<close>)
  note wf' = queue_stepD(1,2) [OF step]
  have pend: "v_pend (view_of ?s) = v_pend (view_of s)" by (simp add: view_of_put_queue)
  have same: "same_at p' s ?s" for p' by (simp add: same_at_def)
  have e: "entry_verdict ?s t' = entry_verdict s t'" if t': "t' \<in> set (v_pend (view_of s) p')" for t' p'
  proof -
    obtain q0 where "queues s t' = Some q0" "q_prev q0" "q_sma q0 = p'" by (rule pending_entry [OF wf(1) t'])
    then show ?thesis
      by (intro entry_verdict_same [OF wf wf' t' same, where q = q0 and q' = "if t' = t then q' else q0"]) (use q q' in auto)
  qed
  have "quiet ?s p'" for p'
  proof -
    have told: "told ?s t' = (t' \<noteq> t \<and> told s t')" for t' using q' by (simp add: told_def)
    have "quiet s p'" using c by (simp add: calm_def)
    moreover have "t' \<noteq> t" if "entry_verdict s t' \<le> 0" for t' using v that by auto
    ultimately show ?thesis using e [of _ p'] v unfolding quiet_def pend told by (metis (full_types) linorder_not_le)
  qed
  moreover have "pure_queue ?s p'" for p'
    using c q(1) q'(1) unfolding calm_def pure_queue_def pend by auto
  ultimately show ?thesis by (simp add: calm_def)
qed

text \<open>The queues of other sets do not see a change of an entry.\<close>

lemma retry_calm_but:
  assumes wf: "wf_view (view_of s)" "data_ok s" and q: "queues s t = Some q" "q_prev q" "q_sma q = p"
    and q': "q_alter q'" and c: "calm_but s p" and wf': "wf_view (view_of (put_queue t q' s))"
  shows "calm_but (put_queue t q' s) p"
proof -
  let ?s = "put_queue t q' s"
  have pend: "v_pend (view_of ?s) = v_pend (view_of s)" by (simp add: view_of_put_queue)
  have "quiet ?s p'" if "p' \<noteq> p" for p'
  proof -
    have "t \<notin> set (v_pend (view_of s) p')" using pending_entry [OF wf(1), of t p'] q that by (metis option.inject)
    then have "quiet ?s p' = quiet s p'"
      by (intro quiet_same [OF wf wf']) (use wf(2) in \<open>auto simp: pend same_at_def\<close>)
    then show ?thesis using c that by (simp add: calm_but_def)
  qed
  moreover have "pure_queue ?s p'" for p' using c q' by (auto simp: calm_but_def pure_queue_def pend)
  ultimately show ?thesis by (simp add: calm_but_def)
qed

text \<open>The part of the call after an entry has been told to try again.\<close>

lemma semop_retry_good:
  assumes ok: "sys_ok s" and q: "queues s t = Some q" "q_prev q" "q_sma q = p" "q_undo q = un" "q_id q = semid"
      "q_status q = 1" "q_alter q \<longrightarrow> alter"
    and rest: "semsleeping s t" "\<forall>u\<in>set (semundo s t). linked (view_of s) u" "semid_ok semid"
  shows "section_good t True s (do {
           (error, sops, s) \<leftarrow> try_atomic_semop p (q_sops q) un (pid (creds s t)) False s;
           let s = put_queue t (q\<lparr>q_sops := sops\<rparr>) s;
           if error \<le> 0 then do {
             s \<leftarrow> remove_from_queue p t (s\<lparr>semsleeping := (semsleeping s)(t := False)\<rparr>);
             semop_update t p alter error s }
           else do { s \<leftarrow> go_to_sleep t s; Some (Wait (Semop_sleep semid p un alter), s) } })"
proof -
  note wf = sys_okD(2,3) [OF ok]
  have ready: "trial_ready s p (q_sops q) un" using queued_ready [OF wf(1) q(1,2)] q(3,4) by simp
  have fine: "queue_fine (view_of s) t q" using wf_viewD(7) [OF wf(1)] q(1) by simp
  then have al: "q_alter q" alter using q by (auto simp: queue_fine_def)
  obtain r sops' s1 where T: "try_atomic_semop p (q_sops q) un (pid (creds s t)) False s = Some (r, sops', s1)"
    "data_step s s1" "trial_ready s1 p sops' un"
    "\<forall>p'. p' \<noteq> p \<or> r \<noteq> 0 \<or> False \<or> zero_ops (q_sops q) \<longrightarrow> same_at p' s s1" "0 \<le> r \<longrightarrow> sops' = q_sops q" "r \<le> 1"
    using trial_step [OF wf ready, of "pid (creds s t)" False] .
  note D = data_stepD [OF T(2)]
  have step1: "queue_step {} s s1" by (rule data_step_queue_step [OF wf(1) T(2)])
  have ok1: "sys_ok s1" by (rule sys_ok_queue_step [OF step1 ok])
  note wf1 = sys_okD(2,3) [OF ok1]
  have q1: "queues s1 t = Some q" using D(6) q(1) by simp
  have C: "calm s \<longrightarrow> calm_but s1 p \<and> (r \<noteq> 0 \<longrightarrow> quiet s1 p)"
    using data_step_calm [OF T(2) wf, of p "r \<noteq> 0"] T(4) by blast
  let ?q = "q\<lparr>q_sops := sops'\<rparr>"
  let ?s2 = "put_queue t ?q s1"
  have step2: "queue_step {} s1 ?s2"
  proof (rule put_entry_step [OF wf1 q1])
    obtain a where "semas s1 p = Some a" "sops_fit (sem_nsems a) (un \<noteq> None) sops'" using T(3) by (auto simp: trial_ready_def)
    then have "sops_fit (v_nsems (view_of s1) p) (un \<noteq> None) sops'" by simp
    then show "queue_fine (view_of s1) t ?q" using fine unfolding D(1) by (simp add: queue_fine_def q)
  qed (simp_all add: q_evolves_def q)
  have step: "queue_step {} s ?s2" by (rule queue_step_trans [OF step1 step2])
  have ok2: "sys_ok ?s2" by (rule sys_ok_queue_step [OF step ok])
  have kept: "others_kept t s ?s2" by (rule others_kept_queue_step [OF step]) simp
  show ?thesis
  proof (cases "r \<le> 0")
    case True
    let ?s3 = "?s2\<lparr>semsleeping := (semsleeping ?s2)(t := False)\<rparr>"
    have rest3: "\<not> semsleeping ?s3 t" "\<forall>u\<in>set (semundo ?s3 t). linked (view_of ?s3) u"
      using rest D(5) linked_queue_step [OF step] by simp_all
    obtain s4 where s4: "(do { s \<leftarrow> remove_from_queue p t ?s3; semop_update t p alter r s }) = Some (Ret r, s4)"
      "section_ok t ?s3 s4 Idle"
      "calm_but ?s3 p \<longrightarrow> (\<not> alter \<longrightarrow> quiet ?s3 p \<and> q_status ?q \<noteq> 1) \<longrightarrow> calm s4"
      using semop_leave_ok [of ?s3 t ?q p alter r] ok2 q rest3 by auto
    have kept3: "others_kept t s ?s3" by (rule others_kept_trans [OF kept others_kept_sleeping])
    have "calm_but ?s3 p" if "calm_but s1 p"
      using retry_calm_but [OF wf1 q1 q(2,3) _ that sys_okD(2) [OF ok2]] al ok2 by (simp add: calm_but_def)
    then show ?thesis using T(1) True s4 al(2) C section_trans [OF kept3 s4(2)]
      by (auto simp: Let_def intro!: section_goodI)
  next
    case False
    then have so: "?q = q" using T(5) by simp
    have v: "entry_verdict s1 t > 0"
    proof -
      have "verdict s p (q_sops q) un = r" by (rule verdict_eq [OF wf ready T(1)])
      moreover have "verdict s p (q_sops q) un = verdict s1 p (q_sops q) un"
        using T(3-5) False by (intro verdict_same wf wf1 ready) simp_all
      ultimately show ?thesis using False q q1 by (simp add: entry_verdict_def)
    qed
    let ?s3 = "(put_queue t (q\<lparr>q_status := - EINTR\<rparr>) s1)\<lparr>tsk_state := (tsk_state ?s2)(t := TASK_INTERRUPTIBLE)\<rparr>"
    have run: "go_to_sleep t ?s2 = Some ?s3"
      using so by (simp add: go_to_sleep_def) (simp add: put_queue_def)
    have step3: "queue_step {} s1 (put_queue t (q\<lparr>q_status := - EINTR\<rparr>) s1)"
      using fine D(1) q by (intro put_entry_step [OF wf1 q1]) (simp_all add: q_evolves_def queue_fine_def)
    then have ok3: "sys_ok ?s3" using sys_ok_queue_step [OF step3 ok1] by simp
    have "others_kept t s ?s3"
      using others_kept_queue_step [OF queue_step_trans [OF step1 step3], of t] others_kept_trans by fastforce
    moreover have "pc_fine (view_of ?s3) t (Waiting (Semop_sleep semid p un alter))"
      using rest q D(1,5,7) linked_queue_step [OF step3] by (simp add: pc_fine_def)
    moreover have "calm ?s3" if "calm s1"
      using retry_calm [OF wf1 q1 q(2,3) refl _ v that] ok3 by (simp add: calm_def)
    ultimately show ?thesis using T(1) False run ok3 C calm_butD
      by (auto simp: Let_def section_ok_def intro!: section_goodI)
  qed
qed

lemma semop_wakeup_good:
  assumes ok: "sys_ok s" and pc: "pc_fine (view_of s) t (Waiting (Semop_sleep semid p un alter))"
  shows "section_good t True s (semop_wakeup t semid p un alter s)"
proof -
  obtain q where q: "queues s t = Some q" "q_sma q = p" "q_undo q = un" "q_id q = semid" "q_alter q \<longrightarrow> alter"
      "\<not> q_prev q \<longrightarrow> q_status q \<noteq> 1"
    and rest: "semid_ok semid" "semsleeping s t" "\<forall>u\<in>set (semundo s t). linked (view_of s) u"
    using pc by (auto simp: pc_fine_def)
  let ?s = "s\<lparr>tsk_state := (tsk_state s)(t := TASK_RUNNING)\<rparr>"
  let ?w = "?s\<lparr>semsleeping := (semsleeping ?s)(t := False)\<rparr>"
  have okw: "sys_ok ?w" using ok by simp
  have kept: "others_kept t s ?w" using others_kept_sleeping [of t ?s False] by simp
  have calmw: "calm ?w = calm s" using ok by (simp add: calm_def)
  obtain l where l: "sem_lock semid ?s = Some l" using sem_lock_slot [OF sys_okD(1) [OF ok] rest(1)] by simp
  have locked: "l \<noteq> None" if "q_prev q"
  proof -
    have "has_id (view_of s) p semid" using wf_viewD(7) [OF sys_okD(2) [OF ok], of t q] q that by (auto simp: queue_fine_def)
    from has_id_lock [OF sys_okD(1,2) [OF ok] this] show ?thesis using l by fastforce
  qed
  have gone: "section_good t True s (Some (Ret e, drop_queue t ?w))" if "\<not> q_prev q" for e
  proof (rule section_goodI)
    show "section_ok t s (drop_queue t ?w) (after (Ret e))"
      using section_trans [OF kept semop_forget_ok(1) [OF okw]] q(1) that rest(3) by simp
    show "calm (drop_queue t ?w)" if "calm s"
      using semop_forget_ok(2) [OF okw] q(1) \<open>\<not> q_prev q\<close> rest(3) that calmw by simp
  qed simp
  show ?thesis
  proof (cases "q_prev q")
    case True
    show ?thesis
    proof (cases "q_status q = 1")
      case T: True
      have "section_good t True ?s (semop_wakeup t semid p un alter s)"
        using semop_retry_good [of ?s t q p un semid alter] ok q True T rest l locked
        by (auto simp: semop_wakeup_def Let_def)
      then show ?thesis by (rule section_good_after) (use ok in \<open>simp_all add: calm_def bounded_def\<close>)
    next
      case False
      obtain s' where s': "(do { s \<leftarrow> remove_from_queue p t ?w; semop_update t p alter (q_status q) s }) = Some (Ret (q_status q), s')"
        "section_ok t ?w s' Idle"
        "calm_but ?w p \<longrightarrow> (\<not> alter \<longrightarrow> quiet ?w p \<and> q_status q \<noteq> 1) \<longrightarrow> calm s'"
        using semop_leave_ok [OF okw, of t q p alter "q_status q"] q(1,2) True rest(3) by auto
      have "calm_but ?w p \<and> quiet ?w p" if "calm s" using that calmw by (simp add: calm_def calm_but_def)
      then show ?thesis using s' section_trans [OF kept s'(2)] l locked True False q(1)
        by (auto simp: semop_wakeup_def Let_def intro!: section_goodI)
    qed
  next
    case False
    then show ?thesis using gone l q(1,6) by (auto simp: semop_wakeup_def Let_def split: option.split)
  qed
qed

end
