(* ===== verification/SemControl.thy ===== *)
theory SemControl
  imports SemCalls
begin

text \<open>
  The sections of \<open>sys_semctl\<close>, \<open>sys_semget\<close> and \<open>sem_exit\<close>: reading and setting values, removing
  and creating sets, and applying the undo structures of a task that exits.
\<close>

section \<open>Setting values\<close>

lemma data_stepI:
  assumes "view_of s' = view_of s" "data_ok s'" "s'\<lparr>semas := semas s, undos := undos s\<rparr> = s"
  shows "data_step s s'"
  using assms by (simp add: data_step_def)

lemma data_step_trans: "data_step s s1 \<Longrightarrow> data_step s1 s2 \<Longrightarrow> data_step s s2"
proof -
  assume a: "data_step s s1" "data_step s1 s2"
  have "s2\<lparr>semas := semas s, undos := undos s\<rparr> = (s2\<lparr>semas := semas s1, undos := undos s1\<rparr>)\<lparr>semas := semas s, undos := undos s\<rparr>"
    by simp
  also have "\<dots> = s1\<lparr>semas := semas s, undos := undos s\<rparr>" using a(2) by (simp only: data_step_def)
  also have "\<dots> = s" using a(1) by (simp only: data_step_def)
  finally show ?thesis using a by (simp add: data_step_def)
qed

lemma zero_index_ok:
  "\<forall>i\<in>set is. i < length a \<Longrightarrow> list_all in_s16 a \<Longrightarrow>
   \<exists>a'. zero_index is a = Some a' \<and> length a' = length a \<and> list_all in_s16 a'"
proof (induction "is" arbitrary: a)
  case (Cons i "is")
  have "list_all in_s16 (a[i := 0])"
    using Cons.prems(2) set_update_subset_insert [of a i 0] by (auto simp: list_all_iff in_s16_def)
  then show ?case using Cons.IH [of "a[i := 0]"] Cons.prems(1) by simp
qed simp

lemma zero_undos_ok:
  assumes "wf_view (view_of s)" "data_ok s" "set us \<subseteq> set (v_und (view_of s) p)"
    "\<forall>i\<in>set is. i < v_nsems (view_of s) p"
  shows "\<exists>s'. zero_undos is us s = Some s' \<and> data_step s s' \<and> semas s' = semas s \<and>
              (\<forall>u. u \<notin> set us \<longrightarrow> undos s' u = undos s u)"
  using assms
proof (induction us arbitrary: s)
  case Nil
  then show ?case by (simp add: data_step_def)
next
  case (Cons u us)
  obtain x where x: "undos s u = Some x" "length (semadj x) = v_nsems (view_of s) p"
    using set_fineD(6) [OF wf_viewD(3) [OF Cons.prems(1)], of u p] Cons.prems(3) by auto
  have "list_all in_s16 (semadj x)" using Cons.prems(2) x(1) unfolding data_ok_def by blast
  then obtain a where a: "zero_index is (semadj x) = Some a" "length a = length (semadj x)" "list_all in_s16 a"
    using zero_index_ok [of "is" "semadj x"] x(2) Cons.prems(4) by auto
  let ?s = "s\<lparr>undos := (undos s)(u \<mapsto> x\<lparr>semadj := a\<rparr>)\<rparr>"
  have step: "data_step s ?s"
  proof (rule data_stepI)
    show "view_of ?s = view_of s" using x(1) a(2) by (auto simp: view_of_def)
    show "data_ok ?s" using Cons.prems(2) a(3) by (auto simp: data_ok_def)
  qed simp
  note v = data_stepD(1,2) [OF step]
  obtain s' where s': "zero_undos is us ?s = Some s'" "data_step ?s s'" "semas s' = semas ?s"
      "\<forall>u. u \<notin> set us \<longrightarrow> undos s' u = undos ?s u"
    using Cons.IH [of ?s] Cons.prems v by auto
  then show ?case using x(1) a(1) data_step_trans [OF step s'(2)] by auto
qed

text \<open>New values for one set, followed by \<open>update_queue\<close>.\<close>

lemma set_update_ok:
  assumes ok: "sys_ok s" and rest: "at_rest s t" and step: "data_step s s1" and a: "semas s1 p = Some a"
    and same: "\<And>p'. p' \<noteq> p \<Longrightarrow> same_at p' s s1"
  shows "\<exists>s'. update_queue p s1 = Some s' \<and> section_ok t s s' Idle \<and> (calm s \<longrightarrow> calm s')"
proof -
  note wf = sys_okD(2,3) [OF ok]
  have step1: "queue_step {} s s1" by (rule data_step_queue_step [OF wf(1) step])
  note wf1 = queue_stepD(1,2) [OF step1]
  obtain s' where s': "update_queue p s1 = Some s'" "update_step {} p (sem_pending a) s1 s'"
      "pure_queue s1 p \<longrightarrow> quiet s' p \<and> pure_queue s' p"
    using update_queue_step [OF wf1 a] by blast
  have step2: "queue_step {} s s'" by (rule queue_step_trans [OF step1 update_stepD(6) [OF s'(2)]])
  have "calm_but s1 p" if "calm s" using data_step_calm(1) [OF step wf that, of p False] same by simp
  then have "calm s \<longrightarrow> calm s'" using update_calm [OF s'(2) wf1 a s'(3)] by blast
  moreover have "at_rest s' t"
    using rest queue_stepD(5,6,14) [OF step2] linked_queue_step [OF step2] by (simp add: at_rest_def)
  then have "section_ok t s s' Idle"
    using sys_ok_queue_step [OF step2 ok] others_kept_queue_step [OF step2] by (simp add: section_ok_def pc_fine_Idle)
  ultimately show ?thesis using s'(1) by blast
qed

lemma set_values_ok:
  assumes ok: "sys_ok s" and rest: "at_rest s t" and a: "semas s p = Some a"
    and idx: "\<forall>i\<in>set is. i < sem_nsems a"
    and base: "length base = sem_nsems a" "list_all in_s32 (vals base)" "nonneg base"
  shows "\<exists>s1 s'. zero_undos is (sma_undo a) s = Some s1 \<and> current_time s1 = current_time s \<and> creds s1 = creds s \<and> semas s1 = semas s \<and>
     update_queue p (s1\<lparr>semas := (semas s1)(p \<mapsto> a\<lparr>sem_base := base, sem_ctime := now\<rparr>)\<rparr>) = Some s' \<and>
     section_ok t s s' Idle \<and> (calm s \<longrightarrow> calm s')"
proof -
  note wf = sys_okD(2,3) [OF ok]
  obtain s1 where s1: "zero_undos is (sma_undo a) s = Some s1" "data_step s s1" "semas s1 = semas s"
      "\<forall>u. u \<notin> set (sma_undo a) \<longrightarrow> undos s1 u = undos s u"
    using zero_undos_ok [OF wf, of "sma_undo a" p "is"] a idx by auto
  let ?s = "s1\<lparr>semas := (semas s1)(p \<mapsto> a\<lparr>sem_base := base, sem_ctime := now\<rparr>)\<rparr>"
  have "data_step s1 ?s"
  proof (rule data_stepI)
    show "view_of ?s = view_of s1" using a s1(3) by (auto simp: view_of_def fun_eq_iff)
    show "data_ok ?s" using data_stepD(2) [OF s1(2)] base by (auto simp: data_ok_def)
  qed simp
  then have step: "data_step s ?s" by (rule data_step_trans [OF s1(2)])
  have same: "same_at p' s ?s" if "p' \<noteq> p" for p'
  proof -
    have "u \<notin> set (sma_undo a)" if "u \<in> set (v_und (view_of s) p')" for u
      using undo_one_set [OF wf(1) that, of p] a \<open>p' \<noteq> p\<close> by auto
    with that s1(3,4) show ?thesis by (simp add: same_at_def)
  qed
  obtain s' where "update_queue p ?s = Some s'" "section_ok t s s' Idle" "calm s \<longrightarrow> calm s'"
    using set_update_ok [OF ok rest step _ same, where p = p and a = "a\<lparr>sem_base := base, sem_ctime := now\<rparr>"] by auto
  with s1(1,3) data_stepD(8,9) [OF s1(2)] show ?thesis by blast
qed

section \<open>Removing a set\<close>

lemma invalidate_undos_run:
  "\<forall>u\<in>set us. undos s u \<noteq> None \<Longrightarrow>
   invalidate_undos us s =
     Some (s\<lparr>undos := \<lambda>u. if u \<in> set us then map_option (\<lambda>x. x\<lparr>un_semid := -1\<rparr>) (undos s u) else undos s u\<rparr>)"
proof (induction us arbitrary: s)
  case (Cons u us)
  obtain x where x: "undos s u = Some x" using Cons.prems by auto
  let ?s = "s\<lparr>undos := (undos s)(u \<mapsto> x\<lparr>un_semid := -1\<rparr>)\<rparr>"
  have "(\<lambda>u'. if u' \<in> set us then map_option (\<lambda>x. x\<lparr>un_semid := -1\<rparr>) (undos ?s u') else undos ?s u') =
        (\<lambda>u'. if u' \<in> set (u # us) then map_option (\<lambda>x. x\<lparr>un_semid := -1\<rparr>) (undos s u') else undos s u')"
    using x by (auto simp: fun_eq_iff)
  with Cons.IH [of ?s] Cons.prems x show ?case by simp
qed simp

definition woken :: "sem_queue \<Rightarrow> sem_queue" where
  "woken q = q\<lparr>q_status := - EIDRM, q_prev := False\<rparr>"

lemma woken_twice [simp]: "woken (woken q) = woken q"
  by (simp add: woken_def)

lemma wake_pending_run:
  "\<forall>t\<in>set ts. queues s t \<noteq> None \<Longrightarrow>
   \<exists>st. wake_pending ts s =
     Some (s\<lparr>queues := \<lambda>t. if t \<in> set ts then map_option woken (queues s t) else queues s t, tsk_state := st\<rparr>)"
proof (induction ts arbitrary: s)
  case Nil
  show ?case by (rule exI [of _ "tsk_state s"]) simp
next
  case (Cons t ts)
  obtain q where q: "queues s t = Some q" using Cons.prems by auto
  let ?s = "wake_up_process t (put_queue t (woken q) s)"
  have e: "(\<lambda>t'. if t' \<in> set ts then map_option woken (queues ?s t') else queues ?s t') =
        (\<lambda>t'. if t' \<in> set (t # ts) then map_option woken (queues s t') else queues s t')"
    using q by (auto simp: fun_eq_iff)
  have "\<forall>t\<in>set ts. queues ?s t \<noteq> None" using Cons.prems by simp
  then obtain st where "wake_pending ts ?s =
      Some (?s\<lparr>queues := \<lambda>t. if t \<in> set ts then map_option woken (queues ?s t) else queues ?s t, tsk_state := st\<rparr>)"
    using Cons.IH [of ?s] by blast
  then have "wake_pending (t # ts) s = Some (s\<lparr>queues := \<lambda>t'. if t' \<in> set (t # ts) then map_option woken (queues s t') else queues s t', tsk_state := st\<rparr>)"
    unfolding e using q by (simp add: woken_def [symmetric]) (simp add: wake_up_process_def put_queue_def)
  then show ?case by blast
qed

text \<open>The view without the set \<open>p\<close> in slot \<open>i\<close>.\<close>

definition without :: "nat \<Rightarrow> ptr \<Rightarrow> view \<Rightarrow> view" where
  "without i p v =
     v\<lparr>v_slot := (v_slot v)(i := None), v_seq := (v_seq v)(p := None), v_nsems := (v_nsems v)(p := 0),
       v_und := (v_und v)(p := []), v_pend := (v_pend v)(p := []),
       v_undo := \<lambda>u. if u \<in> set (v_und v p) then map_option (\<lambda>(semid, n). (-1, n)) (v_undo v u) else v_undo v u,
       v_queue := \<lambda>t. if t \<in> set (v_pend v p) then map_option woken (v_queue v t) else v_queue v t\<rparr>"

lemma pend_one_set:
  assumes "wf_view v" "t \<in> set (v_pend v p)" "t \<in> set (v_pend v p')"
  shows "p = p'"
  using set_fineD(7) [OF wf_viewD(3) [OF assms(1)] assms(2)] set_fineD(7) [OF wf_viewD(3) [OF assms(1)] assms(3)] by auto

lemma without_has_id:
  assumes "v_slot v i = Some p" "p' \<noteq> p"
  shows "has_id (without i p v) p' = has_id v p'"
proof -
  have "(if j = i then None else v_slot v j) = Some p' \<longleftrightarrow> v_slot v j = Some p'" for j using assms by auto
  with assms(2) show ?thesis by (auto simp: has_id_def without_def fun_eq_iff)
qed

lemma wf_viewI:
  assumes "\<And>i. v_slot v i \<noteq> None \<Longrightarrow> i < 32768" "\<And>i j p. v_slot v i = Some p \<Longrightarrow> v_slot v j = Some p \<Longrightarrow> i = j"
    "\<And>p. set_fine v p" "\<And>t. distinct (v_semundo v t)"
    "\<And>t t' u. u \<in> set (v_semundo v t) \<Longrightarrow> u \<in> set (v_semundo v t') \<Longrightarrow> t = t'"
    "\<And>t u. u \<in> set (v_semundo v t) \<Longrightarrow> undo_fine v u" "\<And>t q. v_queue v t = Some q \<Longrightarrow> queue_fine v t q"
  shows "wf_view v"
  unfolding wf_view_def using assms by blast

lemma wf_view_without:
  assumes wf: "wf_view v" and i: "v_slot v i = Some p"
  shows "wf_view (without i p v)"
proof -
  let ?v = "without i p v"
  note W = wf_viewD [OF wf]
  have fine: "set_fine ?v p'" for p'
  proof (cases "p' = p")
    case True
    have "v_slot ?v j \<noteq> Some p" for j using W(2) [OF i, of j] by (auto simp: without_def)
    then show ?thesis by (auto simp: True set_fine_def) (simp_all add: without_def)
  next
    case False
    note f = set_fineD [OF W(3) [of p']] and id = without_has_id [OF i False]
    have n: "u \<notin> set (v_und v p)" if "u \<in> set (v_und v p')" for u using undo_one_set [OF wf that] False by blast
    have m: "t \<notin> set (v_pend v p)" if "t \<in> set (v_pend v p')" for t using pend_one_set [OF wf that] False by blast
    have "v_slot ?v j = Some p' \<longleftrightarrow> v_slot v j = Some p'" for j using i False by (auto simp: without_def)
    moreover have "v_seq ?v p' = v_seq v p'" "v_und ?v p' = v_und v p'" "v_pend ?v p' = v_pend v p'" "v_semundo ?v = v_semundo v"
        "v_nsems ?v p' = v_nsems v p'" using False by (simp_all add: without_def)
    moreover have "v_undo ?v u = v_undo v u" if "u \<in> set (v_und v p')" for u using n [OF that] by (simp add: without_def)
    moreover have "v_queue ?v t = v_queue v t" if "t \<in> set (v_pend v p')" for t using m [OF that] by (simp add: without_def)
    ultimately show ?thesis using f unfolding set_fine_def id by simp
  qed
  have undo: "undo_fine ?v u" if "u \<in> set (v_semundo v t)" for t u
    using W(6) [OF that] by (auto simp: undo_fine_def without_def)
  have queue: "queue_fine ?v t q" if q: "v_queue ?v t = Some q" for t q
  proof (cases "t \<in> set (v_pend v p)")
    case True
    with q show ?thesis by (auto simp: without_def woken_def queue_fine_def)
  next
    case False
    then have "v_queue v t = Some q" using q by (simp add: without_def)
    from W(7) [OF this] have f: "queue_fine v t q" .
    show ?thesis
    proof (cases "q_prev q")
      case True
      then have "t \<in> set (v_pend v (q_sma q))" using f by (simp add: queue_fine_def)
      then have "q_sma q \<noteq> p" using False by auto
      with f without_has_id [OF i this] show ?thesis by (simp add: queue_fine_def) (simp add: without_def)
    qed (simp add: queue_fine_def)
  qed
  have sl: "v_slot v j = Some p'" if "v_slot ?v j = Some p'" for j p' using that by (auto simp: without_def split: if_splits)
  have un: "v_semundo ?v = v_semundo v" by (simp add: without_def)
  show ?thesis
  proof (rule wf_viewI)
    show "j < 32768" if "v_slot ?v j \<noteq> None" for j using W(1) sl that by blast
    show "j = j'" if "v_slot ?v j = Some p'" "v_slot ?v j' = Some p'" for j j' p' using W(2) sl that by blast
    show "t = t'" if "u \<in> set (v_semundo ?v t)" "u \<in> set (v_semundo ?v t')" for t t' u using W(5) that unfolding un by blast
  qed (use fine undo queue W(4) un in simp_all)
qed

lemma linked_without:
  assumes wf: "wf_view v" and i: "v_slot v i = Some p" and u: "linked v u"
  shows "linked (without i p v) u"
proof (cases "u \<in> set (v_und v p)")
  case True
  then show ?thesis by (auto simp: linked_def without_def)
next
  case False
  show ?thesis unfolding linked_def
  proof (intro allI impI)
    fix semid n assume h: "v_undo (without i p v) u = Some (semid, n)" "semid \<noteq> -1"
    then obtain p' where p': "has_id v p' semid" "u \<in> set (v_und v p')" "n = v_nsems v p'"
      using u False by (auto simp: linked_def without_def)
    then have "p' \<noteq> p" using False by auto
    with p' without_has_id [OF i this] show "\<exists>p'. has_id (without i p v) p' semid \<and>
        u \<in> set (v_und (without i p v) p') \<and> n = v_nsems (without i p v) p'"
      by (intro exI [of _ p']) (simp add: without_def)
  qed
qed

lemma pc_fine_without:
  assumes wf: "wf_view v" and i: "v_slot v i = Some p" and pc: "pc_fine v t pc"
  shows "pc_fine (without i p v) t pc"
proof -
  have lk: "\<forall>u\<in>set (v_semundo (without i p v) t). linked (without i p v) u" if "pc \<noteq> Exiting"
    using pc that linked_without [OF wf i] by (auto simp: pc_fine_def) (simp add: without_def)
  have sl: "v_sleeping (without i p v) = v_sleeping v" by (simp add: without_def)
  have none: "v_queue (without i p v) t = None" if "v_queue v t = None" using that by (simp add: without_def)
  have some: "v_queue (without i p v) t \<in> {Some q, Some (woken q)}" if "v_queue v t = Some q" for q
    using that by (simp add: without_def)
  show ?thesis
  proof (cases "\<exists>semid p un alter. pc = Waiting (Semop_sleep semid p un alter)")
    case True
    then obtain semid p' un alter where p': "pc = Waiting (Semop_sleep semid p' un alter)" by blast
    with pc obtain q where "v_queue v t = Some q" "q_sma q = p'" "q_undo q = un" "q_id q = semid"
      "q_alter q \<longrightarrow> alter" "\<not> q_prev q \<longrightarrow> q_status q \<noteq> 1" by (auto simp: pc_fine_def)
    with some [of q] pc lk show ?thesis by (auto simp: p' pc_fine_def sl woken_def)
  next
    case False
    with pc lk none show ?thesis by (auto simp: pc_fine_def sl split: sem_pc.splits sem_wait.splits)
  qed
qed

text \<open>The sum of the sizes when one slot changes.\<close>

lemma used_ok_change:
  assumes "used_ok s" "i < 32768" "slot_nsems (view_of s') = (slot_nsems (view_of s))(i := n)"
    "used_sems s' = s32 (used_sems s - slot_nsems (view_of s) i + n)"
  shows "used_ok s'"
proof -
  let ?S = "sum_list (map (slot_nsems (view_of s)) [0..<32768])" and ?d = "n - slot_nsems (view_of s) i"
  have "used_sems s' = s32 (s32 ?S + ?d)" using assms(1,4) by (simp add: used_ok_def algebra_simps)
  also have "\<dots> = s32 (?S + ?d)" using s32_add_diff [of "?S + ?d" "- ?d"] by (simp add: algebra_simps)
  also have "?S + ?d = sum_list (map (slot_nsems (view_of s')) [0..<32768])"
    unfolding assms(3) slots_sum_update [OF assms(2)] by simp
  finally show ?thesis by (simp add: used_ok_def)
qed

lemma freeary_calm:
  assumes c: "calm s" and wf: "wf_view (view_of s)" "data_ok s" and wf': "wf_view (view_of s')" "data_ok s'" and a: "semas s p = Some a"
    and view: "view_of s' = without i p (view_of s)"
    and semas: "semas s' = (semas s)(p := None)"
    and undos: "\<And>u. u \<notin> set (sma_undo a) \<Longrightarrow> undos s' u = undos s u"
    and queues: "\<And>t. t \<notin> set (sem_pending a) \<Longrightarrow> queues s' t = queues s t"
  shows "calm s'"
proof -
  have "quiet s' p' \<and> pure_queue s' p'" for p'
  proof (cases "p' = p")
    case True
    then have "v_pend (view_of s') p' = []" by (simp add: view without_def)
    then show ?thesis by (simp add: quiet_def pure_queue_def)
  next
    case False
    have n: "u \<notin> set (sma_undo a)" if "u \<in> set (v_und (view_of s) p')" for u
      using undo_one_set [OF wf(1) that, of p] False a by auto
    have m: "t' \<notin> set (sem_pending a)" if "t' \<in> set (v_pend (view_of s) p')" for t'
      using pend_one_set [OF wf(1) that, of p] False a by auto
    have pend: "v_pend (view_of s') p' = v_pend (view_of s) p'" using False by (simp add: view without_def)
    have same: "same_at p' s s'" using n False undos semas by (simp add: same_at_def)
    have "quiet s' p' = quiet s p'" by (rule quiet_same [OF wf wf' pend same]) (use m queues in simp)
    moreover have "pure_queue s' p' = pure_queue s p'" using m queues unfolding pure_queue_def pend by auto
    ultimately show ?thesis using c by (simp add: calm_def)
  qed
  then show ?thesis by (simp add: calm_def)
qed

lemma freeary_ok:
  assumes ok: "sys_ok s" and rest: "at_rest s t" and sid: "semid_ok semid"
    and lock: "sem_lock semid s = Some (Some p)" and a: "semas s p = Some a"
  shows "\<exists>s'. freeary semid s = Some s' \<and> section_ok t s s' Idle \<and> (calm s \<longrightarrow> calm s')"
proof -
  note wf = sys_okD(2,3) [OF ok]
  let ?i = "nat (semid mod 32768)"
  have i: "slot (sem_ids s) ?i = Some p" using lock sem_lock_slot [OF sys_okD(1) [OF ok] sid] by simp
  then have i32: "?i < 32768" using wf_viewD(1) [OF wf(1), of ?i] by simp
  obtain ids' where ids': "ipc_rmid (sem_ids s) semid = Some (p, ids')" "ids_ok ids'"
      "slot ids' = (slot (sem_ids s))(?i := None)"
    using ipc_rmid_spec [OF sys_okD(1) [OF ok] _ i] sid by (auto simp: semid_ok_def)
  let ?U = "\<lambda>u. if u \<in> set (sma_undo a) then map_option (\<lambda>x. x\<lparr>un_semid := -1\<rparr>) (undos s u) else undos s u"
  let ?Q = "\<lambda>t. if t \<in> set (sem_pending a) then map_option woken (queues s t) else queues s t"
  note f = set_fineD(6,7) [OF wf_viewD(3) [OF wf(1), of p]]
  have "\<forall>u\<in>set (sma_undo a). undos s u \<noteq> None" "\<forall>t\<in>set (sem_pending a). queues s t \<noteq> None"
    using f a by fastforce+
  then obtain st where I: "invalidate_undos (sma_undo a) (s\<lparr>sem_ids := ids'\<rparr>) = Some (s\<lparr>sem_ids := ids', undos := ?U\<rparr>)"
      "wake_pending (sem_pending a) (s\<lparr>sem_ids := ids', undos := ?U\<rparr>) =
         Some (s\<lparr>sem_ids := ids', undos := ?U, queues := ?Q, tsk_state := st\<rparr>)"
    using invalidate_undos_run [of "sma_undo a" "s\<lparr>sem_ids := ids'\<rparr>"]
      wake_pending_run [of "sem_pending a" "s\<lparr>sem_ids := ids', undos := ?U\<rparr>"]
    by (auto cong: if_cong)
  have run: "freeary semid s = Some (s\<lparr>sem_ids := ids', undos := ?U, queues := ?Q, tsk_state := st,
        used_sems := s32 (used_sems s - int (sem_nsems a)), semas := (semas s)(p := None)\<rparr>)" (is "_ = Some ?s")
    using I ids'(1) a by (simp add: freeary_def Let_def)
  have view: "view_of ?s = without ?i p (view_of s)"
    using a ids'(3) by (auto simp: view_of_def without_def fun_eq_iff option.map_comp comp_def)
  have wf': "wf_view (view_of ?s)" using wf_view_without [OF wf(1)] i by (simp add: view)
  have d': "data_ok ?s" using wf(2) by (auto simp: data_ok_def)
  have pcs: "pc_fine (view_of ?s) t' pc" if "pc_fine (view_of s) t' pc" for t' pc
    using pc_fine_without [OF wf(1) _ that] i by (simp add: view)
  have "slot_nsems (view_of ?s) = (slot_nsems (view_of s))(?i := 0)"
  proof (rule ext)
    fix j
    have "j = ?i" if "slot (sem_ids s) j = Some p" using wf_viewD(2) [OF wf(1), of j p ?i] i that by simp
    then show "slot_nsems (view_of ?s) j = ((slot_nsems (view_of s))(?i := 0)) j"
      by (cases "j = ?i") (auto simp: view slot_nsems_def without_def split: option.split)
  qed
  then have "used_ok ?s" using used_ok_change [OF sys_okD(4) [OF ok] i32, of ?s 0] i a by (simp add: slot_nsems_def)
  then have "sys_ok ?s" using ids'(2) wf' d' by (simp add: sys_ok_def)
  then have "section_ok t s ?s Idle" using pcs rest by (simp add: section_ok_def others_kept_def flip: pc_fine_Idle)
  moreover have "calm ?s" if "calm s" by (rule freeary_calm [OF that wf wf' d' a view]) simp_all
  ultimately show ?thesis using run by blast
qed

section \<open>sys_semctl\<close>

definition ctl_good :: "task \<Rightarrow> sem_sys \<Rightarrow> semctl_result option \<Rightarrow> bool" where
  "ctl_good t s c \<longleftrightarrow> section_good t True s (map_option (\<lambda>(r, out, s). (r, s)) c)"

lemma ctl_good_ret [simp]: "sys_ok s \<Longrightarrow> at_rest s t \<Longrightarrow> ctl_good t s (Some (Ret e, out, s))"
  by (simp add: ctl_good_def)

lemma ctl_goodI: "section_ok t s s' Idle \<Longrightarrow> (calm s \<Longrightarrow> calm s') \<Longrightarrow> ctl_good t s (Some (Ret e, out, s'))"
  by (auto simp: ctl_good_def intro!: section_goodI)

lemma getall_copy_good [simp]: "sys_ok s \<Longrightarrow> at_rest s t \<Longrightarrow> ctl_good t s (Some (getall_copy arg sma s))"
  by (simp add: getall_copy_def)

lemma semctl_nolock_good:
  assumes ok: "sys_ok s" and rest: "at_rest s t" and sid: "semid_ok semid"
  shows "ctl_good t s (semctl_nolock t semid cmd version arg s)"
proof -
  note wf = sys_okD(1,2) [OF ok]
  note L = sem_lock_slot [OF wf(1) sid]
  have "\<exists>a. semas s p = Some a" if "slot (sem_ids s) (nat (semid mod 32768)) = Some p" for p
    using lock_live [OF wf sid, of p] L that by auto
  then show ?thesis using ok rest
    by (auto simp: semctl_nolock_def Let_def L split: option.split prod.split)
qed

lemma zero_undos_semas:
  "zero_undos is us (s\<lparr>semas := x\<rparr>) = map_option (\<lambda>s. s\<lparr>semas := x\<rparr>) (zero_undos is us s)"
proof (induction us arbitrary: s)
  case (Cons u us)
  have e: "s\<lparr>semas := x, undos := y\<rparr> = s\<lparr>undos := y, semas := x\<rparr>" for y by simp
  show ?case
    by (cases "undos s u"; cases "zero_index is (semadj (the (undos s u)))") (simp_all add: Cons.IH [symmetric] e)
qed simp

lemma semctl_setval_good:
  assumes ok: "sys_ok s" and rest: "at_rest s t" and a: "semas s p = Some a" and n: "n < sem_nsems a"
  shows "ctl_good t s (semctl_setval t p a n v s)"
proof (cases "v > SEMVMX \<or> v < 0")
  case True
  then show ?thesis using ok rest by (auto simp: semctl_setval_def)
next
  case False
  have d: "length (sem_base a) = sem_nsems a" "list_all in_s32 (vals (sem_base a))" "nonneg (sem_base a)"
    using sys_okD(3) [OF ok] a unfolding data_ok_def by blast+
  let ?base = "(sem_base a)[n := (sem_base a ! n)\<lparr>semval := v, sempid := pid (creds s t)\<rparr>]"
  have v: "in_s32 v" "0 \<le> v" using False by (simp_all add: in_s32_def SEMVMX_def)
  have base: "length ?base = sem_nsems a" "list_all in_s32 (vals ?base)" "nonneg ?base"
    using d n v by (auto simp: list_all_length nth_list_update nonneg_def vals_def)
  have "\<forall>i\<in>set [n]. i < sem_nsems a" using n by simp
  from set_values_ok [OF ok rest a this base, of "current_time s"] obtain s1 s' where
    s': "zero_undos [n] (sma_undo a) s = Some s1" "current_time s1 = current_time s" "creds s1 = creds s"
     "update_queue p (s1\<lparr>semas := (semas s1)(p \<mapsto> a\<lparr>sem_base := ?base, sem_ctime := current_time s\<rparr>)\<rparr>) = Some s'"
     "section_ok t s s' Idle" "calm s \<longrightarrow> calm s'" by auto
  then have "semctl_setval t p a n v s = Some (Ret 0, No_out, s')"
    using False by (simp add: semctl_setval_def Let_def)
  then show ?thesis using s'(5,6) by (simp add: ctl_goodI)
qed

lemma setall_copy_good:
  assumes ok: "sys_ok s" and rest: "at_rest s t" and sid: "semid_ok semid"
  shows "ctl_good t s (setall_copy t semid p nsems mem arg s)"
proof (cases "nsems > SEMMSL_FAST \<and> \<not> mem \<or> \<not> user_ok arg \<or> (\<exists>v\<in>set (map (user_array arg) [0..<nsems]). uint v > SEMVMX)")
  case True
  then show ?thesis using ok rest by (auto simp: setall_copy_def Let_def)
next
  case False
  let ?io = "map (user_array arg) [0..<nsems]"
  obtain e where e: "sem_revalidate t semid p nsems S_IWUGO s = Some e"
      "e = 0 \<longrightarrow> has_id (view_of s) p semid \<and> (\<exists>a. semas s p = Some a \<and> sem_nsems a = nsems)"
    using sem_revalidate_ok [OF ok sid] by blast
  have head: "setall_copy t semid p nsems mem arg s =
     (do {
        err \<leftarrow> sem_revalidate t semid p nsems S_IWUGO s;
        if err \<noteq> 0 then Some (Ret err, No_out, s)
        else do {
          sma \<leftarrow> semas s p;
          if length (sem_base sma) < nsems then None
          else do {
            let sma = sma\<lparr>sem_base := map2 (\<lambda>x v. x\<lparr>semval := uint v\<rparr>) (take nsems (sem_base sma)) ?io
                                     @ drop nsems (sem_base sma)\<rparr>;
            s \<leftarrow> zero_undos [0..<nsems] (sma_undo sma) (s\<lparr>semas := (semas s)(p \<mapsto> sma)\<rparr>);
            let s = s\<lparr>semas := (semas s)(p \<mapsto> sma\<lparr>sem_ctime := current_time s\<rparr>)\<rparr>;
            s \<leftarrow> update_queue p s;
            Some (Ret 0, No_out, s) } } })"
    unfolding setall_copy_def Let_def using False by (simp only: if_False if_not_P de_Morgan_disj)
  show ?thesis
  proof (cases "e = 0")
    case True
    then obtain a where a: "semas s p = Some a" "sem_nsems a = nsems" using e(2) by blast
    have d: "length (sem_base a) = nsems" using sys_okD(3) [OF ok] a unfolding data_ok_def by blast
    let ?base = "map2 (\<lambda>x v. x\<lparr>semval := uint v\<rparr>) (sem_base a) ?io"
    have "in_s32 (uint v)" if "v \<in> set ?io" for v
    proof -
      have "uint v \<le> SEMVMX" using False that by (meson not_less)
      then show ?thesis by (simp add: in_s32_def SEMVMX_def order_trans [OF _ uint_nonnegative])
    qed
    then have base: "length ?base = sem_nsems a" "list_all in_s32 (vals ?base)" "nonneg ?base"
      using d a(2) by (auto simp: list_all_length nonneg_def vals_def)
    have "\<forall>i\<in>set [0..<nsems]. i < sem_nsems a" using a(2) by simp
    from set_values_ok [OF ok rest a(1) this base, of "current_time s"] obtain s1 s' where
      s': "zero_undos [0..<nsems] (sma_undo a) s = Some s1" "current_time s1 = current_time s" "semas s1 = semas s"
       "update_queue p (s1\<lparr>semas := (semas s1)(p \<mapsto> a\<lparr>sem_base := ?base, sem_ctime := current_time s\<rparr>)\<rparr>) = Some s'"
       "section_ok t s s' Idle" "calm s \<longrightarrow> calm s'" by auto
    have "setall_copy t semid p nsems mem arg s = Some (Ret 0, No_out, s')"
      unfolding head using e(1) True a d s'(1-4) by (simp add: zero_undos_semas Let_def)
    then show ?thesis using s'(5,6) by (simp add: ctl_goodI)
  next
    case False
    then show ?thesis unfolding head using e(1) ok rest by simp
  qed
qed

lemma count_pending_ok: "\<forall>t\<in>set ts. queues s t \<noteq> None \<Longrightarrow> \<exists>n. count_pending P ts s = Some n"
  by (induction ts) auto

lemma counts_ok:
  assumes "wf_view (view_of s)" "semas s p = Some a"
  shows "\<exists>n. count_semncnt p k s = Some n" "\<exists>n. count_semzcnt p k s = Some n"
proof -
  have "\<forall>t\<in>set (sem_pending a). queues s t \<noteq> None" using pending_queued [OF assms(1), of _ p] assms(2) by auto
  with assms(2) count_pending_ok show "\<exists>n. count_semncnt p k s = Some n" "\<exists>n. count_semzcnt p k s = Some n"
    by (simp_all add: count_semncnt_def count_semzcnt_def)
qed

lemma ctl_wait_good:
  assumes "sys_ok s" "at_rest s t" "semid_ok semid"
  shows "ctl_good t s (Some (Wait (Getall_alloc semid p n), No_out, s))"
    "ctl_good t s (Some (Wait (Setall_copy semid p n), No_out, s))"
  using assms by (auto simp: ctl_good_def section_ok_def pc_fine_def at_rest_def intro!: section_goodI)

lemma semctl_main_good:
  assumes ok: "sys_ok s" and rest: "at_rest s t" and sid: "semid_ok semid"
  shows "ctl_good t s (semctl_main t semid semnum cmd version arg s)"
proof -
  note wf = sys_okD(1,2) [OF ok]
  note L = sem_lock_slot [OF wf(1) sid]
  show ?thesis
  proof (cases "slot (sem_ids s) (nat (semid mod 32768))")
    case None
    then show ?thesis using ok rest by (simp add: semctl_main_def L)
  next
    case (Some p)
    then obtain a where a: "semas s p = Some a" using lock_live [OF wf sid, of p] L by auto
    have len: "length (sem_base a) = sem_nsems a" using sys_okD(3) [OF ok] a unfolding data_ok_def by blast
    obtain n z where cnt: "count_semncnt p (word_of_int semnum) s = Some n" "count_semzcnt p (word_of_int semnum) s = Some z"
      using counts_ok [OF wf(2) a] by blast
    have sv: "ctl_good t s (semctl_setval t p a (nat semnum) v s)" if "\<not> semnum < 0" "\<not> int (sem_nsems a) \<le> semnum" for v
      using semctl_setval_good [OF ok rest a] that by (simp add: nat_less_iff)
    have nat: "\<not> sem_nsems a \<le> nat semnum" if "\<not> semnum < 0" "\<not> int (sem_nsems a) \<le> semnum" using that by linarith
    show ?thesis
      by (cases "semnum < 0 \<or> int (sem_nsems a) \<le> semnum")
        (simp_all add: semctl_main_def L Some a len cnt Let_def nat sv ctl_wait_good [OF ok rest sid] ok rest split: prod.split)
  qed
qed

lemma semctl_down_good:
  assumes ok: "sys_ok s" and rest: "at_rest s t" and sid: "semid_ok semid"
  shows "ctl_good t s (semctl_down t semid cmd version arg s)"
proof (cases "cmd = IPC_SET \<and> copy_semid_from_user arg version = None")
  case True
  then show ?thesis using ok rest by (simp add: semctl_down_def)
next
  case set: False
  note wf = sys_okD(1-3) [OF ok]
  note L = sem_lock_slot [OF wf(1) sid]
  show ?thesis
  proof (cases "slot (sem_ids s) (nat (semid mod 32768))")
    case None
    then show ?thesis using ok rest set by (simp add: semctl_down_def L Let_def)
  next
    case (Some p)
    then have lock: "sem_lock semid s = Some (Some p)" using L by simp
    then obtain a where a: "semas s p = Some a" using lock_live [OF wf(1,2) sid] by blast
    obtain s' where s': "freeary semid s = Some s'" "section_ok t s s' Idle" "calm s \<longrightarrow> calm s'"
      using freeary_ok [OF ok rest sid lock a] by blast
    have down: "ctl_good t s (Some (Ret 0, No_out, s\<lparr>semas := (semas s)(p \<mapsto> a\<lparr>sem_perm := x, sem_ctime := now\<rparr>)\<rparr>))"
      (is "ctl_good t s (Some (_, _, ?s))") if x: "p_seq x = p_seq (sem_perm a)" for x now
    proof (rule ctl_goodI)
      have step: "data_step s ?s"
      proof (rule data_stepI)
        show "view_of ?s = view_of s" using a x by (auto simp: view_of_def fun_eq_iff)
        show "data_ok ?s" using wf(3) a by (auto simp: data_ok_def)
      qed simp
      have q: "queue_step {} s ?s" by (rule data_step_queue_step [OF wf(2) step])
      show "section_ok t s ?s Idle"
        using sys_ok_queue_step [OF q ok] others_kept_queue_step [OF q] rest at_rest_data_step [OF step]
        by (simp add: section_ok_def pc_fine_Idle)
      have "\<forall>p'. p' \<noteq> p \<or> True \<longrightarrow> same_at p' s ?s" using a by (auto simp: same_at_def)
      then show "calm ?s" if "calm s" using data_step_calm [OF step wf(2,3) that, of p True] calm_butD by blast
    qed
    show ?thesis using ok rest set s' down ctl_goodI [OF s'(2)]
      by (cases "copy_semid_from_user arg version") (auto simp: semctl_down_def L Some a Let_def IPC_RMID_def IPC_SET_def)
  qed
qed

lemma sys_semctl_good:
  assumes "sys_ok s" "at_rest s t" "in_s32 semid"
  shows "ctl_good t s (sys_semctl t semid semnum cmd arg s)"
proof (cases "semid < 0")
  case True
  then show ?thesis using assms by (simp add: sys_semctl_def)
next
  case False
  then have sid: "semid_ok semid" using assms(3) by (simp add: semid_ok_def in_s32_def)
  note good = semctl_nolock_good [OF assms(1,2) sid] semctl_main_good [OF assms(1,2) sid] semctl_down_good [OF assms(1,2) sid]
  show ?thesis using False by (cases "ipc_parse_version cmd") (simp add: sys_semctl_def good assms)
qed

lemma sem_resume_good:
  assumes ok: "sys_ok s" and pc: "pc_fine (view_of s) t (Waiting w)" and mem: "\<And>u. mem = Some u \<Longrightarrow> undos s u = None"
  shows "section_good t (tame_pc (Waiting w)) s (sem_resume t w mem arg s)"
proof (cases w)
  case (Alloc_undo semid p nsems sops decrease alter)
  then show ?thesis using semop_alloc_good [OF ok, of t semid p nsems sops decrease alter mem] pc mem by (simp add: sem_resume_def)
next
  case (Semop_sleep semid p un alter)
  then show ?thesis using semop_wakeup_good [OF ok, of t semid p un alter] pc by (simp add: sem_resume_def)
next
  case (Getall_alloc semid p nsems)
  then have w: "at_rest s t" "semid_ok semid" using pc by (auto simp: pc_fine_def at_rest_def)
  obtain e where "sem_revalidate t semid p nsems S_IRUGO s = Some e" "e = 0 \<longrightarrow> (\<exists>a. semas s p = Some a)"
    using sem_revalidate_ok [OF ok w(2)] by blast
  then have "ctl_good t s (getall_alloc t semid p nsems (mem \<noteq> None) arg s)"
    using ok w(1) by (auto simp: getall_alloc_def)
  then show ?thesis by (simp add: Getall_alloc sem_resume_def ctl_good_def)
next
  case (Setall_copy semid p nsems)
  then have w: "at_rest s t" "semid_ok semid" using pc by (auto simp: pc_fine_def at_rest_def)
  then show ?thesis using setall_copy_good [OF ok w] by (simp add: Setall_copy sem_resume_def ctl_good_def)
qed

end
