(* ===== verification/SemInv.thy ===== *)
theory SemInv
  imports SemControl
begin

text \<open>
  The creation of sets and the exit of a task, and with them the invariant of the whole system of
  tasks that use semaphores: in every reachable state no call runs into a fault, values and
  counts are in order, and no task sleeps that could proceed.
\<close>

section \<open>Creating a set\<close>

text \<open>The view with a new set \<open>p\<close> of \<open>n\<close> semaphores in slot \<open>i\<close>.\<close>

definition with_set :: "nat \<Rightarrow> ptr \<Rightarrow> ulong \<Rightarrow> nat \<Rightarrow> view \<Rightarrow> view" where
  "with_set i p q n v =
     v\<lparr>v_slot := (v_slot v)(i := Some p), v_seq := (v_seq v)(p := Some q), v_nsems := (v_nsems v)(p := n)\<rparr>"

lemma with_set_has_id:
  assumes "v_slot v i = None" "p' \<noteq> p"
  shows "has_id (with_set i p q n v) p' = has_id v p'"
proof -
  have "v_slot (with_set i p q n v) j = Some p' \<longleftrightarrow> v_slot v j = Some p'" for j using assms by (auto simp: with_set_def)
  moreover have "v_seq (with_set i p q n v) p' = v_seq v p'" using assms(2) by (simp add: with_set_def)
  ultimately show ?thesis by (simp add: has_id_def fun_eq_iff)
qed

lemma wf_view_with_set:
  assumes wf: "wf_view v" and i: "v_slot v i = None" "i < 32768" and p: "v_seq v p = None" "v_und v p = []" "v_pend v p = []"
    and q: "unat q < 65536"
  shows "wf_view (with_set i p q n v)"
proof -
  let ?v = "with_set i p q n v"
  note W = wf_viewD [OF wf]
  have no: "v_slot v j \<noteq> Some p" for j using set_fineD(1) [OF W(3) [of p]] p(1) by blast
  show ?thesis
  proof (rule wf_viewI)
    show "j < 32768" if "v_slot ?v j \<noteq> None" for j using W(1) [of j] i(2) that by (auto simp: with_set_def split: if_splits)
    show "j = j'" if "v_slot ?v j = Some p'" "v_slot ?v j' = Some p'" for j j' p'
      using W(2) [of j p' j'] no that by (auto simp: with_set_def split: if_splits)
    show "set_fine ?v p'" for p'
    proof (cases "p' = p")
      case True
      then show ?thesis using p q by (auto simp: set_fine_def with_set_def)
    next
      case False
      note f = set_fineD [OF W(3) [of p']] and id = with_set_has_id [OF i(1) False]
      have "v_slot ?v j = Some p' \<longleftrightarrow> v_slot v j = Some p'" for j using i False by (auto simp: with_set_def)
      moreover have "v_seq ?v p' = v_seq v p'" "v_und ?v = v_und v" "v_pend ?v = v_pend v" "v_semundo ?v = v_semundo v"
        "v_nsems ?v p' = v_nsems v p'" "v_undo ?v = v_undo v" "v_queue ?v = v_queue v" using False by (simp_all add: with_set_def)
      ultimately show ?thesis using f unfolding set_fine_def id by simp
    qed
    show "undo_fine ?v u" if "u \<in> set (v_semundo ?v t)" for t u
      using W(6) [of u t] that by (simp add: undo_fine_def with_set_def)
    show "queue_fine ?v t qq" if "v_queue ?v t = Some qq" for t qq
    proof (cases "q_prev qq")
      case True
      have f: "queue_fine v t qq" using W(7) [of t qq] that by (simp add: with_set_def)
      with True have "q_sma qq \<noteq> p" using p(3) by (auto simp: queue_fine_def)
      with f with_set_has_id [OF i(1) this, of q n] show ?thesis by (simp add: queue_fine_def) (simp add: with_set_def)
    qed (simp add: queue_fine_def)
    show "t = t'" if "u \<in> set (v_semundo ?v t)" "u \<in> set (v_semundo ?v t')" for t t' u
      using W(5) [of u t t'] that by (simp add: with_set_def)
  qed (use W(4) in \<open>simp add: with_set_def\<close>)
qed

lemma linked_with_set:
  assumes "v_slot v i = None" "v_und v p = []" "linked v u"
  shows "linked (with_set i p q n v) u"
  unfolding linked_def
proof (intro allI impI)
  fix semid m assume h: "v_undo (with_set i p q n v) u = Some (semid, m)" "semid \<noteq> -1"
  then obtain p' where p': "has_id v p' semid" "u \<in> set (v_und v p')" "m = v_nsems v p'"
    using assms(3) by (auto simp: linked_def with_set_def)
  then have "p' \<noteq> p" using assms(2) by auto
  with p' with_set_has_id [OF assms(1) this] show "\<exists>p'. has_id (with_set i p q n v) p' semid \<and>
      u \<in> set (v_und (with_set i p q n v) p') \<and> m = v_nsems (with_set i p q n v) p'"
    by (intro exI [of _ p']) (simp add: with_set_def)
qed

text \<open>A call of \<open>sys_semget\<close> leaves every task where it is.\<close>

definition all_kept :: "sem_sys \<Rightarrow> sem_sys \<Rightarrow> bool" where
  "all_kept s s' \<longleftrightarrow> (\<forall>t pc. pc_fine (view_of s) t pc \<longrightarrow> pc_fine (view_of s') t pc)"

lemma all_keptI:
  assumes "queues s' = queues s" "semsleeping s' = semsleeping s" "semundo s' = semundo s"
    "\<And>u. linked (view_of s) u \<Longrightarrow> linked (view_of s') u"
  shows "all_kept s s'"
  unfolding all_kept_def
proof (intro allI impI)
  fix t pc assume "pc_fine (view_of s) t pc"
  with assms show "pc_fine (view_of s') t pc" unfolding pc_fine_def by (simp split: sem_pc.splits sem_wait.splits)
qed

lemma newary_set_ok:
  assumes ok: "sys_ok s" and p: "semas s p = None"
    and i: "slot (sem_ids s) i = None" "i < 32768" "slot ids i = Some p" "slot ids = (slot (sem_ids s))(i := Some p)" "ids_ok ids"
    and q: "unat (p_seq (sem_perm a)) < 65536"
    and a: "sem_nsems a = n" "sem_base a = replicate n \<lparr>semval = 0, sempid = 0\<rparr>" "sem_pending a = []" "sma_undo a = []"
    and s': "s' = s\<lparr>sem_ids := ids, used_sems := s32 (used_sems s + int n), semas := (semas s)(p \<mapsto> a)\<rparr>"
  shows "sys_ok s' \<and> all_kept s s' \<and> (calm s \<longrightarrow> calm s')"
proof -
  note wf = sys_okD(2,3) [OF ok]
  have view: "view_of s' = with_set i p (p_seq (sem_perm a)) n (view_of s)"
    using i p a by (auto simp: s' view_of_def with_set_def fun_eq_iff)
  have wf': "wf_view (view_of s')"
    unfolding view by (rule wf_view_with_set [OF wf(1)]) (use i p q view_of_dead [OF p] in simp_all)
  have d': "data_ok s'" using wf(2) a by (auto simp: data_ok_def s' vals_def nonneg_def list_all_iff in_s32_def)
  have no: "slot (sem_ids s) j \<noteq> Some p" for j using set_fineD(1) [OF wf_viewD(3) [OF wf(1), of p]] p by auto
  have "slot_nsems (view_of s') = (slot_nsems (view_of s))(i := int n)"
  proof (rule ext)
    fix j show "slot_nsems (view_of s') j = ((slot_nsems (view_of s))(i := int n)) j"
      using no [of j] by (cases "j = i") (auto simp: view slot_nsems_def with_set_def split: option.split)
  qed
  then have "used_ok s'" using used_ok_change [OF sys_okD(4) [OF ok] i(2), of s' "int n"] i(1) by (simp add: slot_nsems_def s')
  then have "sys_ok s'" using i(5) wf' d' by (simp add: sys_ok_def s')
  moreover have "linked (view_of s') u" if "linked (view_of s) u" for u
    unfolding view using linked_with_set [OF _ view_of_dead(2) [OF p] that] i(1) by simp
  then have "all_kept s s'" by (intro all_keptI) (simp_all add: s')
  moreover have "calm s' = calm s"
  proof -
    have pend: "v_pend (view_of s') = v_pend (view_of s)" by (simp add: view with_set_def)
    have qs: "queues s' = queues s" by (simp add: s')
    have "quiet s' p' = quiet s p'" for p'
    proof (cases "p' = p")
      case True
      then show ?thesis using view_of_dead [OF p] by (simp add: quiet_def pend)
    next
      case False
      have "same_at p' s s'" using False by (simp add: same_at_def s')
      then show ?thesis using quiet_same [OF wf wf' d'] by (simp add: pend qs)
    qed
    then show ?thesis by (simp add: calm_def pure_queue_def pend qs)
  qed
  ultimately show ?thesis by blast
qed

lemma newary_ok:
  assumes ok: "sys_ok s" and mem: "\<And>p. mem = Some p \<Longrightarrow> semas s p = None" and n: "0 \<le> nsems"
  shows "\<exists>r s'. newary t key nsems flg mem grow s = Some (r, s') \<and> sys_ok s' \<and> all_kept s s' \<and> (calm s \<longrightarrow> calm s')"
proof (cases "nsems = 0 \<or> s32 (used_sems s + nsems) > sc_semmns s \<or> mem = None")
  case True
  then show ?thesis using ok by (auto simp: newary_def all_kept_def)
next
  case False
  then obtain p where p: "mem = Some p" "semas s p = None" using mem by auto
  note ids = sys_okD(1) [OF ok] and wf = sys_okD(2,3) [OF ok]
  obtain n' ids0 where g: "grow_ary grow (sem_ids s) (sc_semmni s) = (n', ids0)" by (metis surj_pair)
  note g' = grow_ary_ok [OF ids g]
  have fresh: "\<forall>j. slot (sem_ids s) j \<noteq> Some p" using set_fineD(1) [OF wf_viewD(3) [OF wf(1), of p]] p(2) by auto
  from ipc_addid_cases [OF ids g, of "creds s t" p zero_perm] show ?thesis
  proof (elim disjE exE conjE)
    assume r: "ipc_addid (creds s t) grow (sem_ids s) p zero_perm (sc_semmni s) = Some (-1, ids0, zero_perm)"
    let ?s = "s\<lparr>sem_ids := ids0\<rparr>"
    have view: "view_of ?s = view_of s" using g' by (simp add: view_of_def)
    have ok': "sys_ok ?s" using ok g' by (simp add: sys_ok_def view used_ok_def data_ok_def)
    moreover have "calm ?s = calm s"
      by (rule calm_same [OF wf sys_okD(2,3) [OF ok']]) (simp_all add: view same_at_def)
    moreover have "all_kept s ?s" by (simp add: all_kept_def view)
    ultimately show ?thesis using False p r by (auto simp: newary_def)
  next
    fix i ids' perm assume r: "ipc_addid (creds s t) grow (sem_ids s) p zero_perm (sc_semmni s) = Some (int i, ids', perm)"
      "i < 32768" "slot (sem_ids s) i = None" "slot ids' = (slot (sem_ids s))(i := Some p)"
    have "ids_ok ids'" using addid_new_seq(3) [OF ids r(1)] ipc_added_ok [OF ids _ fresh] by simp
    moreover have "unat (p_seq perm) < 65536" using addid_new_seq(5) [OF ids r(1)] by simp
    ultimately show ?thesis
      using newary_set_ok [OF ok p(2) r(3,2) _ r(4), of _ "nat nsems", OF _ _ _ _ _ _ _ refl] r(1,4) False p(1) n
      by (simp add: newary_def Let_def)
  qed
qed

lemma sys_semget_ok:
  assumes ok: "sys_ok s" and mem: "\<And>p. mem = Some p \<Longrightarrow> semas s p = None"
  shows "\<exists>r s'. sys_semget t key nsems flg mem grow s = Some (r, s') \<and> sys_ok s' \<and> all_kept s s' \<and> (calm s \<longrightarrow> calm s')"
proof (cases "nsems < 0 \<or> nsems > sc_semmsl s")
  case True
  then show ?thesis using ok by (auto simp: sys_semget_def all_kept_def)
next
  case False
  note ids = sys_okD(1) [OF ok] and wf = sys_okD(2) [OF ok]
  have live: "semas s p \<noteq> None" if "slot (sem_ids s) i = Some p" for i p
    using set_fineD(1) [OF wf_viewD(3) [OF wf, of p]] that by auto
  obtain r where r: "ipc_findkey (\<lambda>p. map_option sem_perm (semas s p)) (sem_ids s) key = Some r"
      "r \<noteq> -1 \<longrightarrow> 0 \<le> r \<and> r < 32768 \<and> (\<exists>p. slot (sem_ids s) (nat r) = Some p)"
    using findkey_live [OF ids, of "\<lambda>p. map_option sem_perm (semas s p)" key] live by auto
  obtain r' s' where new: "newary t key nsems flg mem grow s = Some (r', s')" "sys_ok s'" "all_kept s s'" "calm s \<longrightarrow> calm s'"
    using newary_ok [OF ok mem, of mem nsems t key flg grow] False by auto
  show ?thesis
  proof (cases "r = -1 \<or> key = IPC_PRIVATE")
    case True
    then show ?thesis using False r(1) new ok by (auto simp: sys_semget_def all_kept_def)
  next
    case f: False
    then obtain p a where p: "slot (sem_ids s) (nat r) = Some p" "semas s p = Some a" "semid_ok r" "r mod 32768 = r"
      using r(2) live by (fastforce simp: semid_ok_def)
    have "sem_lock r s = Some (Some p)" using sem_lock_slot [OF ids p(3)] p(1,4) by simp
    then show ?thesis using False f r(1) p(2) ok by (auto simp: sys_semget_def all_kept_def)
  qed
qed

section \<open>The exit of a task\<close>

lemma wf_view_unlink:
  assumes wf: "wf_view v" and u: "u \<in> set (v_semundo v t)" "v_queue v t = None"
  shows "wf_view (v\<lparr>v_und := (v_und v)(p := remove1 u (v_und v p))\<rparr>)" (is "wf_view ?v")
proof (rule wf_view_changeI [OF wf])
  note W = wf_viewD [OF wf]
  have sub: "set (v_und ?v p') \<subseteq> set (v_und v p')" for p' using set_remove1_subset [of u "v_und v p"] by auto
  show "set_fine ?v p'" for p'
  proof -
    note f = set_fineD [OF W(3) [of p']]
    have "distinct (v_und ?v p')" using f(3) by (cases "p' = p") simp_all
    moreover have "\<forall>u'\<in>set (v_und ?v p'). (\<exists>t. u' \<in> set (v_semundo v t)) \<and>
        (\<exists>semid. v_undo v u' = Some (semid, v_nsems v p') \<and> has_id v p' semid)" using f(5,6) sub [of p'] by blast
    ultimately show ?thesis using f(1,2,4,7) unfolding set_fine_def queue_view_indep by simp
  qed
  show "undo_fine ?v u'" if "u' \<in> set (v_semundo ?v t')" for t' u'
    using W(6) [of u' t'] that by (simp add: undo_fine_def)
  show "queue_fine ?v t' q" if "v_queue ?v t' = Some q" for t' q
  proof -
    have "u' \<noteq> u" if "u' \<in> set (v_semundo v t')" for u' using W(5) [OF u(1), of t'] that u(2) \<open>v_queue ?v t' = Some q\<close> by auto
    then show ?thesis using W(7) [of t' q] that by (auto simp: queue_fine_def)
  qed
  show "t1 = t2" if "u' \<in> set (v_semundo ?v t1)" "u' \<in> set (v_semundo ?v t2)" for t1 t2 u'
    using W(5) [of u' t1 t2] that by simp
qed (use wf_viewD(4) [OF wf] in simp_all)

lemma linked_unlink:
  assumes "linked v u'" "u' \<noteq> u"
  shows "linked (v\<lparr>v_und := (v_und v)(p := remove1 u (v_und v p))\<rparr>) u'"
  using assms by (fastforce simp: linked_def)

lemma adjust_fine: "0 \<le> semval (adjust cpid x d)" "in_s32 (semval (adjust cpid x d))"
  using s32_range [of "semval x + d"] by (simp_all add: adjust_def Let_def in_s32_def)

text \<open>The structure of a set is taken off the set's list and applied.\<close>

lemma apply_undo_linked:
  assumes ok: "sys_ok s" and t: "u \<in> set (semundo s t)" "queues s t = None" "\<not> semsleeping s t"
    and x: "undos s u = Some x" and u: "u \<in> set (v_und (view_of s) p)"
  shows "\<exists>s'. apply_undo t u x s = Some s' \<and> section_ok t s s' Exiting \<and> (calm s \<longrightarrow> calm s') \<and>
              semundo s' = semundo s \<and> undos s' u \<noteq> None \<and> (\<forall>p. u \<notin> set (v_und (view_of s') p))"
proof -
  note wf = sys_okD(2,3) [OF ok]
  obtain a where a: "semas s p = Some a" using u view_of_dead(2) [of s p] by (cases "semas s p") auto
  have id: "has_id (view_of s) p (un_semid x)" and len: "length (semadj x) = sem_nsems a"
    using set_fineD(6) [OF wf_viewD(3) [OF wf(1)] u] x a by auto
  have d: "length (sem_base a) = sem_nsems a" using wf(2) a unfolding data_ok_def by blast
  have du: "distinct (sma_undo a)" using set_fineD(3) [OF wf_viewD(3) [OF wf(1), of p]] a by simp
  have sid: "un_semid x \<noteq> -1" using has_id_bounds(1) [OF wf(1) id] by (auto simp: semid_ok_def)
  let ?a = "a\<lparr>sma_undo := remove1 u (sma_undo a), sem_base := map2 (adjust (pid (creds s t))) (sem_base a) (semadj x),
              sem_otime := current_time s\<rparr>"
  let ?s = "s\<lparr>semas := (semas s)(p \<mapsto> ?a)\<rparr>"
  obtain a' where "sem_lock (un_semid x) s = Some (Some p)" "semas s p = Some a'" "\<not> ipc_checkid (sem_perm a') (un_semid x)"
    by (rule has_id_lock [OF sys_okD(1) [OF ok] wf(1) id])
  then have run: "apply_undo t u x s = update_queue p ?s" using a u sid d len by (simp add: apply_undo_def)
  have view: "view_of ?s = (view_of s)\<lparr>v_und := (v_und (view_of s))(p := remove1 u (v_und (view_of s) p))\<rparr>"
    using a by (auto simp: view_of_def fun_eq_iff)
  have wf1: "wf_view (view_of ?s)" unfolding view using t wf_view_unlink [OF wf(1), of u t p] by simp
  have d1: "data_ok ?s" using wf(2) d len a adjust_fine
    unfolding data_ok_def by (auto simp: list_all_length nonneg_def vals_def)
  have used: "used_ok ?s" using sys_okD(4) [OF ok] by (simp add: used_ok_def view)
  have ok1: "sys_ok ?s" using sys_okD(1) [OF ok] wf1 d1 used by (simp add: sys_ok_def)
  have own: "t' = t" if "u \<in> set (semundo s t')" for t' using wf_viewD(5) [OF wf(1), of u t' t] t(1) that by simp
  have kept1: "others_kept t s ?s"
  proof (rule others_kept_view)
    show "linked (view_of ?s) u'" if "t' \<noteq> t" "u' \<in> set (semundo s t')" "linked (view_of s) u'" for t' u'
    proof -
      have "u' \<noteq> u" using own that(1,2) by blast
      then show ?thesis unfolding view by (rule linked_unlink [OF that(3)])
    qed
  qed simp
  obtain s' where s': "update_queue p ?s = Some s'" "update_step {} p (sem_pending ?a) ?s s'"
      "pure_queue ?s p \<longrightarrow> quiet s' p \<and> pure_queue s' p"
    using update_queue_step [OF wf1 d1, of p ?a] by auto
  have step: "queue_step {} ?s s'" by (rule update_stepD(6) [OF s'(2)])
  note Q = queue_stepD [OF step]
  have "calm_but ?s p" if "calm s"
  proof -
    have pend: "v_pend (view_of ?s) = v_pend (view_of s)" by (simp add: view)
    have "quiet ?s p' = quiet s p'" if "p' \<noteq> p" for p'
      by (rule quiet_same [OF wf wf1 d1]) (use that in \<open>simp_all add: pend same_at_def\<close>)
    then show ?thesis using that by (simp add: calm_but_def calm_def pure_queue_def pend)
  qed
  then have "calm s \<longrightarrow> calm s'" using update_calm [OF s'(2) wf1 d1 _ s'(3)] by simp
  moreover have "section_ok t s s' Exiting"
    using sys_ok_queue_step [OF step ok1] others_kept_trans [OF kept1 others_kept_queue_step [OF step]] t Q(6,14)
    by (simp add: section_ok_def pc_fine_def)
  moreover have "u \<notin> set (v_und (view_of s') p')" for p'
    unfolding Q(9) view using undo_one_set [OF wf(1) u, of p'] du a by (cases "p' = p") auto
  moreover have "v_undo (view_of s') u \<noteq> None" unfolding Q(11) using x by simp
  ultimately show ?thesis using run s'(1) Q(5) by auto
qed

lemma exit_undo_ok:
  assumes ok: "sys_ok s" and pc: "pc_fine (view_of s) t Exiting" and us: "semundo s t = u # us"
  shows "\<exists>s'. exit_undo t s = Some s' \<and> section_ok t s s' Exiting \<and> (calm s \<longrightarrow> calm s')"
proof -
  note wf = sys_okD(2,3) [OF ok]
  have t: "u \<in> set (semundo s t)" "queues s t = None" "\<not> semsleeping s t" using pc us by (simp_all add: pc_fine_def)
  have "undo_fine (view_of s) u" using wf_viewD(6) [OF wf(1)] t(1) by simp
  then obtain x where x: "undos s u = Some x" "un_semid x = -1 \<or> semid_ok (un_semid x)" by (auto simp: undo_fine_def)
  obtain s1 where s1: "apply_undo t u x s = Some s1" "section_ok t s s1 Exiting" "calm s \<longrightarrow> calm s1"
      "semundo s1 = semundo s" "\<forall>p. u \<notin> set (v_und (view_of s1) p)"
  proof (cases "\<exists>p. u \<in> set (v_und (view_of s) p)")
    case True
    then show thesis using apply_undo_linked [OF ok t x(1)] that by blast
  next
    case False
    have "apply_undo t u x s = Some s"
    proof (cases "un_semid x = -1 \<or> sem_lock (un_semid x) s = Some None")
      case n: False
      then have sid: "semid_ok (un_semid x)" using x(2) by simp
      then obtain p where p: "sem_lock (un_semid x) s = Some (Some p)" using n sem_lock_slot [OF sys_okD(1) [OF ok] sid] by auto
      obtain a where "semas s p = Some a" by (rule lock_live [OF sys_okD(1) [OF ok] wf(1) sid p])
      moreover from this have "u \<notin> set (sma_undo a)" using False [simplified, rule_format, of p] by simp
      ultimately show ?thesis using p n by (simp add: apply_undo_def)
    qed (auto simp: apply_undo_def)
    then show thesis using that [of s] False ok pc by (simp add: section_ok_def)
  qed
  have ok1: "sys_ok s1" and pc1: "pc_fine (view_of s1) t Exiting" using s1(2) by (simp_all add: section_ok_def)
  note F = without_undo_ok [OF ok1, of u t]
  have run: "exit_undo t s = Some (without_undo t u s1)"
    using us x(1) s1(1,4) by (simp add: exit_undo_def without_undo_def)
  moreover have "section_ok t s (without_undo t u s1) Exiting"
  proof (rule section_trans)
    show "others_kept t s s1" using s1(2) by (simp add: section_ok_def)
    show "section_ok t s1 (without_undo t u s1) Exiting"
      using F(1,2) t(1) s1(4,5) pc1 by (simp add: section_ok_def pc_fine_def) (simp add: without_undo_def)
  qed
  ultimately show ?thesis using F(3) t(1) s1(3,4,5) by auto
qed

section \<open>The system\<close>

lemma sem_inv_iff: "sem_inv w \<longleftrightarrow> sys_ok (sys w) \<and> (\<forall>t. pc_fine (view_of (sys w)) t (pcs w t))"
  by (auto simp: sem_inv_def sys_ok_def)

lemma sem_invD:
  assumes "sem_inv w"
  shows "sys_ok (sys w)" "pc_fine (view_of (sys w)) t (pcs w t)" "pcs w t = Idle \<Longrightarrow> at_rest (sys w) t"
proof -
  show "sys_ok (sys w)" using assms by (simp add: sem_inv_iff)
  show p: "pc_fine (view_of (sys w)) t (pcs w t)" using assms by (simp add: sem_inv_iff)
  show "at_rest (sys w) t" if "pcs w t = Idle" using p that by (simp add: pc_fine_Idle)
qed

lemma section_inv:
  assumes "sem_inv w" "section_ok t (sys w) s' pc"
  shows "sem_inv (w\<lparr>sys := s', pcs := (pcs w)(t := pc)\<rparr>)"
  using assms by (auto simp: sem_inv_iff section_ok_def others_kept_def)

text \<open>The start: no set, no undo structure, all tasks outside the calls.\<close>

definition sem_start :: "bool \<Rightarrow> sem_sys \<Rightarrow> sem_world" where
  "sem_start mem s =
     \<lparr>sys = sem_init mem (s\<lparr>semas := Map.empty, undos := Map.empty, queues := Map.empty,
                           semundo := (\<lambda>_. []), semsleeping := (\<lambda>_. False)\<rparr>),
      pcs = (\<lambda>_. Idle)\<rparr>"

definition sem_starts :: "sem_world \<Rightarrow> bool" where
  "sem_starts w \<longleftrightarrow> (\<exists>mem s. 0 \<le> sc_semmni s \<and> w = sem_start mem s)"

lemma sum_list_zero: "(\<And>i. i \<in> set xs \<Longrightarrow> f i = (0 :: int)) \<Longrightarrow> sum_list (map f xs) = 0"
  by (induction xs) simp_all

lemma sem_start_ok:
  assumes "0 \<le> sc_semmni s"
  shows "sys_ok (sys (sem_start mem s))" "pc_fine (view_of (sys (sem_start mem s))) t Idle" "calm (sys (sem_start mem s))"
proof -
  let ?s = "sys (sem_start mem s)"
  have f: "semas ?s = Map.empty" "undos ?s = Map.empty" "queues ?s = Map.empty" "semundo ?s = (\<lambda>_. [])"
      "semsleeping ?s = (\<lambda>_. False)" "used_sems ?s = 0" "sem_ids ?s = ipc_init_ids mem (sc_semmni s)"
    by (simp_all add: sem_start_def sem_init_def)
  have ids: "ids_ok (sem_ids ?s)" using init_ids_ok [OF assms] by (simp add: f)
  have sl: "slot (ipc_init_ids mem (sc_semmni s)) i = None" for i by (simp add: slot_def ipc_init_ids_def Let_def)
  have v: "v_und (view_of ?s) p = []" "v_pend (view_of ?s) p = []" for p using view_of_dead f by auto
  have "wf_view (view_of ?s)" by (rule wf_viewI) (simp_all add: sl set_fine_def v f)
  moreover have "data_ok ?s" by (simp add: data_ok_def f)
  moreover have "used_ok ?s"
    using sum_list_zero [of "[0..<32768]" "slot_nsems (view_of ?s)"] by (simp add: used_ok_def f(6,7) slot_nsems_def sl s32_id)
  ultimately show "sys_ok ?s" using ids by (simp add: sys_ok_def)
  show "pc_fine (view_of ?s) t Idle" by (simp add: pc_fine_def f)
  show "calm ?s" by (simp add: calm_def quiet_def pure_queue_def v)
qed

lemma outside_same:
  fixes s s' now cr ou og c1 c2 c3 c4
  defines "s' \<equiv> s\<lparr>current_time := now, creds := cr, overflowuid := ou, overflowgid := og,
        sc_semmsl := c1, sc_semmns := c2, sc_semopm := c3, sc_semmni := c4\<rparr>"
  assumes "sys_ok s"
  shows "view_of s' = view_of s" "sys_ok s'" "calm s' = calm s"
proof -
  show v: "view_of s' = view_of s" by (simp add: s'_def view_of_def)
  have d: "data_ok s' = data_ok s" by (simp add: s'_def data_ok_def)
  show ok: "sys_ok s'" using assms(2) v d by (simp add: sys_ok_def used_ok_def) (simp add: s'_def)
  show "calm s' = calm s"
    by (rule calm_same) (use sys_okD(2,3) [OF assms(2)] v d in simp_all, simp_all add: s'_def same_at_def)
qed

text \<open>A step that does not mix, with values that are not close to the largest integer.\<close>

definition tame_step :: "sem_world \<Rightarrow> sem_world \<Rightarrow> bool" where
  "tame_step w w' \<longleftrightarrow> sem_step tame w w' \<and> bounded (sys w)"

definition sem_calm :: "sem_world \<Rightarrow> bool" where
  "sem_calm w \<longleftrightarrow> sem_inv w \<and> calm (sys w) \<and> (\<forall>t. tame_pc (pcs w t))"

lemma section_good_step:
  assumes "sem_inv w" "section_good t good (sys w) (Some (r, s'))"
  shows "sem_inv (w\<lparr>sys := s', pcs := (pcs w)(t := after r)\<rparr>)"
    "sem_calm w \<Longrightarrow> good \<Longrightarrow> bounded (sys w) \<Longrightarrow> sem_calm (w\<lparr>sys := s', pcs := (pcs w)(t := after r)\<rparr>)"
proof -
  show i: "sem_inv (w\<lparr>sys := s', pcs := (pcs w)(t := after r)\<rparr>)"
    using section_inv [OF assms(1), of t s' "after r"] assms(2) by (simp add: section_good_def)
  show "sem_calm (w\<lparr>sys := s', pcs := (pcs w)(t := after r)\<rparr>)" if "sem_calm w" good "bounded (sys w)"
    using i assms(2) that by (simp add: sem_calm_def section_good_def)
qed

lemma all_kept_step:
  assumes "sem_inv w" "sys_ok s'" "all_kept (sys w) s'"
  shows "sem_inv (w\<lparr>sys := s'\<rparr>)" "sem_calm w \<Longrightarrow> calm s' \<Longrightarrow> sem_calm (w\<lparr>sys := s'\<rparr>)"
  using assms by (auto simp: sem_inv_iff all_kept_def sem_calm_def)

lemma sem_step_keeps:
  assumes "sem_step allowed w w'" "sem_inv w"
  shows "sem_inv w' \<and> (allowed = tame \<longrightarrow> bounded (sys w) \<longrightarrow> sem_calm w \<longrightarrow> sem_calm w')"
  using assms
proof (cases rule: sem_step.cases)
  case (semget t mem key nsems flg grow r s')
  obtain r' s'' where "sys_semget t key nsems flg mem grow (sys w) = Some (r', s'')" "sys_ok s''"
      "all_kept (sys w) s''" "calm (sys w) \<longrightarrow> calm s''"
    using sys_semget_ok [OF sem_invD(1) [OF assms(2)] semget(3)] by blast
  with semget all_kept_step [OF assms(2), of s'] show ?thesis by (auto simp: sem_calm_def)
next
  case (semop t sops semid mem copy r s')
  have "section_good t (tame sops) (sys w) (Some (r, s'))"
    using sys_semop_good [OF sem_invD(1,3) [OF assms(2)], of t semid sops mem copy] semop by simp
  from section_good_step [OF assms(2) this] semop show ?thesis by auto
next
  case (semctl t semid semnum cmd arg r out s')
  have "section_good t True (sys w) (Some (r, s'))"
    using sys_semctl_good [OF sem_invD(1,3) [OF assms(2)], of t semid semnum cmd arg] semctl by (simp add: ctl_good_def)
  from section_good_step [OF assms(2) this] semctl show ?thesis by simp
next
  case (resume t wt mem arg r s')
  have "pc_fine (view_of (sys w)) t (Waiting wt)" using sem_invD(2) [OF assms(2), of t] resume(2) by simp
  then have "section_good t (tame_pc (Waiting wt)) (sys w) (Some (r, s'))"
    using sem_resume_good [OF sem_invD(1) [OF assms(2)] _ resume(3), where mem = mem and arg = arg and t = t and w = wt] resume(4) by simp
  moreover have "tame_pc (Waiting wt)" if "sem_calm w" using that resume(2) unfolding sem_calm_def by metis
  ultimately show ?thesis using section_good_step [OF assms(2)] resume(1) by blast
next
  case (exit_begin t s')
  then have rest: "at_rest (sys w) t" using sem_invD(3) [OF assms(2)] by simp
  then have "s' = sys w" using exit_begin(3) by (simp add: exit_sleeping_def at_rest_def)
  then show ?thesis using exit_begin(1) rest assms(2) sem_invD(1) [OF assms(2)]
      section_inv [OF assms(2), of t s' Exiting]
    by (auto simp: section_ok_def pc_fine_def at_rest_def sem_calm_def)
next
  case (exit_next t s')
  obtain u us where us: "semundo (sys w) t = u # us" using exit_next(3) by (cases "semundo (sys w) t") auto
  have pc: "pc_fine (view_of (sys w)) t Exiting" using sem_invD(2) [OF assms(2), of t] exit_next(2) by simp
  obtain s1 where "exit_undo t (sys w) = Some s1" "section_ok t (sys w) s1 Exiting" "calm (sys w) \<longrightarrow> calm s1"
    using exit_undo_ok [OF sem_invD(1) [OF assms(2)] pc us] by blast
  moreover have "w\<lparr>sys := s', pcs := (pcs w)(t := Exiting)\<rparr> = w\<lparr>sys := s'\<rparr>"
    using exit_next(2) by (auto simp: fun_upd_idem)
  ultimately show ?thesis using exit_next section_inv [OF assms(2), of t s' Exiting] by (simp add: sem_calm_def)
next
  case (exit_end t)
  then have "section_ok t (sys w) (sys w) Idle"
    using sem_invD(1) [OF assms(2)] sem_invD(2) [OF assms(2), of t] by (simp add: section_ok_def pc_fine_def)
  then show ?thesis using exit_end(1) section_inv [OF assms(2), of t "sys w" Idle] by (simp add: sem_calm_def)
next
  case (outside now cr ou og c1 c2 c3 c4)
  note o = outside_same [OF sem_invD(1) [OF assms(2)], of now cr ou og c1 c2 c3 c4]
  then show ?thesis unfolding outside using assms(2) by (simp add: sem_inv_iff sem_calm_def)
qed

lemma sem_starts_calm: "sem_starts w \<Longrightarrow> sem_calm w"
  using sem_start_ok by (auto simp: sem_starts_def sem_calm_def sem_inv_iff) (auto simp: sem_start_def)

interpretation sm: invariant_system sem_starts "sem_step allowed" sem_inv for allowed
  by unfold_locales (use sem_starts_calm sem_step_keeps in \<open>auto simp: sem_calm_def\<close>)

interpretation sc: invariant_system sem_starts tame_step sem_calm
proof unfold_locales
  show "sem_calm w" if "sem_starts w" for w using that by (rule sem_starts_calm)
  show "sem_calm w'" if "sem_calm w" "tame_step w w'" for w w'
    using sem_step_keeps [of tame w w'] that by (simp add: tame_step_def sem_calm_def)
qed

section \<open>Reachable states\<close>




text \<open>C8. In every reachable state every entry of the queue of a set is the structure on the
  stack of a different task that is asleep in \<open>sys_semop\<close> for this set, every undo structure on
  the list of a set belongs to exactly one task, and \<open>used_sems\<close> is the number of all semaphores.\<close>

theorem sem_queues_sound:
  assumes start: "sem_starts w0" and run: "(sem_step allowed)\<^sup>*\<^sup>* w0 w" and a: "semas (sys w) p = Some a"
  shows "distinct (sem_pending a) \<and>
         (\<forall>t\<in>set (sem_pending a). \<exists>semid un alter. pcs w t = Waiting (Semop_sleep semid p un alter)) \<and>
         (\<forall>u\<in>set (sma_undo a). \<exists>!t. u \<in> set (semundo (sys w) t)) \<and>
         used_sems (sys w) =
           s32 (sum_list (map (\<lambda>i. case slot (sem_ids (sys w)) i of None \<Rightarrow> 0
                                  | Some p \<Rightarrow> (case semas (sys w) p of None \<Rightarrow> 0 | Some b \<Rightarrow> int (sem_nsems b)))
                             [0..<32768]))"
proof -
  have inv: "sem_inv w" by (rule sm.reachable_inv [OF start run])
  note ok = sys_okD [OF sem_invD(1) [OF inv]]
  have "\<exists>semid un alter. pcs w t = Waiting (Semop_sleep semid p un alter)" if t: "t \<in> set (sem_pending a)" for t
  proof -
    obtain q where "queues (sys w) t = Some q" "q_sma q = p" using pending_entry [OF ok(2), of t p] a t by auto
    with sem_invD(2) [OF inv, of t] show ?thesis by (auto simp: pc_fine_def split: sem_pc.splits sem_wait.splits)
  qed
  moreover have "\<exists>!t. u \<in> set (semundo (sys w) t)" if "u \<in> set (sma_undo a)" for u
    using set_fineD(5) [OF wf_viewD(3) [OF ok(2)], of u p] wf_viewD(5) [OF ok(2), of u] a that by auto
  moreover have "distinct (sem_pending a)" using set_fineD(4) [OF wf_viewD(3) [OF ok(2)], of p] a by simp
  moreover have "slot_nsems (view_of (sys w)) = (\<lambda>i. case slot (sem_ids (sys w)) i of None \<Rightarrow> 0
                   | Some p \<Rightarrow> (case semas (sys w) p of None \<Rightarrow> 0 | Some b \<Rightarrow> int (sem_nsems b)))"
    by (auto simp: slot_nsems_def view_of_def fun_eq_iff split: option.split)
  ultimately show ?thesis using ok(4) by (simp add: used_ok_def)
qed

text \<open>C3. When no array of operations mixes waiting for zero with increments and no value comes
  close to the largest integer, no wakeup is lost: in every reachable state and for every set
  either a task that has been told to try again can proceed, and will update the queue, or
  every task that has not been told is rightly asleep, its operations still blocking.\<close>

theorem sem_no_lost_wakeup:
  assumes start: "sem_starts w0" and run: "tame_step\<^sup>*\<^sup>* w0 w" and a: "semas (sys w) p = Some a"
  shows "(\<exists>t\<in>set (sem_pending a). \<exists>q. queues (sys w) t = Some q \<and> q_status q = 1 \<and>
            verdict (sys w) p (q_sops q) (q_undo q) \<le> 0) \<or>
         (\<forall>t\<in>set (sem_pending a). \<exists>q. queues (sys w) t = Some q \<and>
            (q_status q = 1 \<or> verdict (sys w) p (q_sops q) (q_undo q) > 0))"
proof -
  have c: "sem_calm w" by (rule sc.reachable_inv [OF start run])
  then have wf: "wf_view (view_of (sys w))" and quiet: "quiet (sys w) p"
    by (simp_all add: sem_calm_def sem_inv_def calm_def)
  have q: "\<exists>q. queues (sys w) t = Some q \<and> told (sys w) t = (q_status q = 1) \<and>
             entry_verdict (sys w) t = verdict (sys w) p (q_sops q) (q_undo q)" if "t \<in> set (sem_pending a)" for t
  proof -
    obtain q where "queues (sys w) t = Some q" "q_sma q = p" using pending_entry [OF wf, of t p] a \<open>t \<in> set (sem_pending a)\<close> by auto
    then show ?thesis by (simp add: told_def entry_verdict_def)
  qed
  show ?thesis using quiet a q unfolding quiet_def by (simp add: view_of_set [OF a]) (metis (mono_tags, lifting))
qed

end
