(* ===== verification/Msg.thy ===== *)
theory Msg
  imports IpcUtil
begin

text \<open>
  System V message queues, ipc/msg.c. A queue (\<open>struct msg_queue\<close>) lives at an address of a
  store; reading a freed address fails (\<open>None\<close>), as does \<open>BUG()\<close> and the removal of an entry
  from a list that it is not on. The structures of a sleeping receiver and of a sleeping
  sender are on its stack and are found under the task; the lists of receivers and senders are
  lists of tasks. A message is a value, its chunks of text are lists of bytes.

  As in the model of the semaphores all code between taking and releasing the lock is one atomic
  section, and a call that sleeps ends with \<open>MWait\<close> and is continued by a second function.
\<close>

section \<open>Data\<close>

definition MSG_STAT :: u32 where "MSG_STAT = 11"
definition MSG_INFO :: u32 where "MSG_INFO = 12"
definition MSG_NOERROR :: u32 where "MSG_NOERROR = 4096"
definition MSG_EXCEPT :: u32 where "MSG_EXCEPT = 8192"
definition MSGMNI :: int where "MSGMNI = 16"
definition MSGMAX :: int where "MSGMAX = 8192"
definition MSGMNB :: int where "MSGMNB = 16384"
definition MSGPOOL :: int where "MSGPOOL = MSGMNI * MSGMNB div 1024"
definition MSGTQL :: int where "MSGTQL = MSGMNB"
definition MSGMAP :: int where "MSGMAP = MSGMNB"
definition MSGSSZ :: int where "MSGSSZ = 16"
definition MSGSEG :: int where
  "MSGSEG = (if (MSGPOOL * 1024) div MSGSSZ \<le> 65535 then (MSGPOOL * 1024) div MSGSSZ else 65535)"

text \<open>\<open>PAGE_SIZE\<close> less the size of \<open>struct msg_msg\<close> (20) and of \<open>struct msg_msgseg\<close> (4).\<close>

definition DATALEN_MSG :: int where "DATALEN_MSG = 4096 - 20"
definition DATALEN_SEG :: int where "DATALEN_SEG = 4096 - 4"

datatype search_mode = SEARCH_ANY | SEARCH_EQUAL | SEARCH_NOTEQUAL | SEARCH_LESSEQUAL

record msg_msg =
  m_type :: int
  m_ts :: int
  m_text :: "u8 list"
  m_segs :: "u8 list list"

text \<open>The field \<open>r_msg\<close> holds a message or an encoded error.\<close>

datatype r_msg = Err int | Arrived msg_msg

record msg_receiver =
  r_mode :: search_mode
  r_msgtype :: int
  r_maxsize :: int
  r_msg :: r_msg

record msg_queue =
  q_perm :: kern_ipc_perm
  q_stime :: int
  q_rtime :: int
  q_ctime :: int
  q_cbytes :: ulong
  q_qnum :: ulong
  q_qbytes :: ulong
  q_lspid :: int
  q_lrpid :: int
  q_messages :: "msg_msg list"
  q_receivers :: "task list"
  q_senders :: "task list"

text \<open>\<open>mss\<close> says whether the field \<open>list.next\<close> of a task's \<open>msg_sender\<close> is not \<open>NULL\<close>.\<close>

record msg_sys =
  msg_ids :: ipc_ids
  msg_ctlmax :: int
  msg_ctlmnb :: int
  msg_ctlmni :: int
  msg_bytes :: int
  msg_hdrs :: int
  msqs :: "ptr \<rightharpoonup> msg_queue"
  msr :: "task \<rightharpoonup> msg_receiver"
  mss :: "task \<Rightarrow> bool"
  mtsk_state :: "task \<Rightarrow> task_state"
  mcreds :: "task \<Rightarrow> task_cred"
  moverflowuid :: int
  moverflowgid :: int
  mcurrent_time :: int

definition msg_lock :: "int \<Rightarrow> msg_sys \<Rightarrow> ptr option option" where
  "msg_lock n s = ipc_lock (msg_ids s) n"

definition msg_init :: "bool \<Rightarrow> msg_sys \<Rightarrow> msg_sys" where
  "msg_init mem s = s\<lparr>msg_ids := ipc_init_ids mem (msg_ctlmni s)\<rparr>"

definition put_msq :: "ptr \<Rightarrow> msg_queue \<Rightarrow> msg_sys \<Rightarrow> msg_sys" where
  "put_msq p q s = s\<lparr>msqs := (msqs s)(p \<mapsto> q)\<rparr>"

definition msg_wake_up :: "task \<Rightarrow> msg_sys \<Rightarrow> msg_sys" where
  "msg_wake_up t s = s\<lparr>mtsk_state := (mtsk_state s)(t := TASK_RUNNING)\<rparr>"

section \<open>Queues\<close>

definition newque :: "task \<Rightarrow> int \<Rightarrow> u32 \<Rightarrow> ptr option \<Rightarrow> bool \<Rightarrow> msg_sys \<Rightarrow> (int \<times> msg_sys) option" where
  "newque t key msgflg mem grow s =
     (case mem of
        None \<Rightarrow> Some (- ENOMEM, s)
      | Some p \<Rightarrow> do {
          (n, ids, perm) \<leftarrow> ipc_addid (mcreds s t) grow (msg_ids s) p
             \<lparr>p_key = 0, p_uid = 0, p_gid = 0, p_cuid = 0, p_cgid = 0, p_mode = 0, p_seq = 0\<rparr> (msg_ctlmni s);
          if n = -1 then Some (- ENOSPC, s\<lparr>msg_ids := ids\<rparr>)
          else
            let perm = perm\<lparr>p_mode := ucast (msgflg AND word_of_int S_IRWXUGO), p_key := key\<rparr>;
                msq = \<lparr>q_perm = perm, q_stime = 0, q_rtime = 0, q_ctime = mcurrent_time s, q_cbytes = 0, q_qnum = 0,
                       q_qbytes = word_of_int (msg_ctlmnb s), q_lspid = 0, q_lrpid = 0,
                       q_messages = [], q_receivers = [], q_senders = []\<rparr>
            in Some (ipc_buildid n (sint (p_seq perm)), put_msq p msq (s\<lparr>msg_ids := ids\<rparr>)) })"

section \<open>Message text\<close>

text \<open>
  The user memory from the start of the text on, \<open>None\<close> where it cannot be read; the argument
  \<open>mem\<close> tells which of the allocations of the call succeed.
\<close>

definition copy_from_user :: "(nat \<Rightarrow> u8 option) \<Rightarrow> nat \<Rightarrow> int \<Rightarrow> u8 list option" where
  "copy_from_user user off n =
     (if list_all (\<lambda>i. user i \<noteq> None) [off..<off + nat n]
      then Some (map (\<lambda>i. the (user i)) [off..<off + nat n]) else None)"

text \<open>The loop over the segments; on an error the chunks so far are freed.\<close>

function load_segs :: "(nat \<Rightarrow> u8 option) \<Rightarrow> (nat \<Rightarrow> bool) \<Rightarrow> nat \<Rightarrow> nat \<Rightarrow> int \<Rightarrow> int + u8 list list" where
  "load_segs user mem k off len =
     (if len > 0
      then let alen = (if len > DATALEN_SEG then DATALEN_SEG else len) in
           if \<not> mem k then Inl (- ENOMEM)
           else case copy_from_user user off alen of
             None \<Rightarrow> Inl (- EFAULT)
           | Some b \<Rightarrow> (case load_segs user mem (Suc k) (off + nat alen) (len - alen) of
                          Inl e \<Rightarrow> Inl e
                        | Inr segs \<Rightarrow> Inr (b # segs))
      else Inr [])"
  by pat_completeness auto

termination by (relation "measure (\<lambda>(user, mem, k, off, len). nat len)") (auto simp: DATALEN_SEG_def)

declare load_segs.simps [simp del]

definition load_msg :: "(nat \<Rightarrow> u8 option) \<Rightarrow> (nat \<Rightarrow> bool) \<Rightarrow> int \<Rightarrow> int + msg_msg" where
  "load_msg user mem len =
     (let alen = (if len > DATALEN_MSG then DATALEN_MSG else len) in
      if \<not> mem 0 then Inl (- ENOMEM)
      else case copy_from_user user 0 alen of
        None \<Rightarrow> Inl (- EFAULT)
      | Some b \<Rightarrow> (case load_segs user mem 1 (nat alen) (len - alen) of
                     Inl e \<Rightarrow> Inl e
                   | Inr segs \<Rightarrow> Inr \<lparr>m_type = 0, m_ts = 0, m_text = b, m_segs = segs\<rparr>))"

text \<open>
  Writing to user memory at an offset, \<open>wr\<close> telling which bytes can be written. A read past the
  end of a chunk or of the list of segments fails; otherwise the result says whether all could be
  written and what has been written.
\<close>

definition copy_to_user :: "(nat \<Rightarrow> bool) \<Rightarrow> nat \<Rightarrow> u8 list \<Rightarrow> int \<Rightarrow> (bool \<times> u8 list) option" where
  "copy_to_user wr off chunk n =
     (if nat n > length chunk then None
      else if list_all wr [off..<off + nat n] then Some (True, take (nat n) chunk) else Some (False, []))"

function store_segs :: "(nat \<Rightarrow> bool) \<Rightarrow> nat \<Rightarrow> u8 list list \<Rightarrow> int \<Rightarrow> (bool \<times> u8 list) option" where
  "store_segs wr off segs len =
     (if len > 0
      then let alen = (if len > DATALEN_SEG then DATALEN_SEG else len) in
           (case segs of
              [] \<Rightarrow> None
            | seg # segs \<Rightarrow> do {
                (ok, b) \<leftarrow> copy_to_user wr off seg alen;
                if \<not> ok then Some (False, [])
                else do {
                  (ok, rest) \<leftarrow> store_segs wr (off + nat alen) segs (len - alen);
                  Some (ok, b @ rest) } })
      else Some (True, []))"
  by pat_completeness auto

termination by (relation "measure (\<lambda>(wr, off, segs, len). nat len)") (auto simp: DATALEN_SEG_def)

declare store_segs.simps [simp del]

definition store_msg :: "(nat \<Rightarrow> bool) \<Rightarrow> msg_msg \<Rightarrow> int \<Rightarrow> (bool \<times> u8 list) option" where
  "store_msg wr msg len =
     (let alen = (if len > DATALEN_MSG then DATALEN_MSG else len) in do {
        (ok, b) \<leftarrow> copy_to_user wr 0 (m_text msg) alen;
        if \<not> ok then Some (False, [])
        else do {
          (ok, rest) \<leftarrow> store_segs wr (nat alen) (m_segs msg) (len - alen);
          Some (ok, b @ rest) } })"

section \<open>Sleeping senders and receivers\<close>

definition ss_add :: "ptr \<Rightarrow> task \<Rightarrow> msg_sys \<Rightarrow> msg_sys option" where
  "ss_add p t s = do {
     msq \<leftarrow> msqs s p;
     Some (put_msq p (msq\<lparr>q_senders := q_senders msq @ [t]\<rparr>)
             (s\<lparr>mss := (mss s)(t := True), mtsk_state := (mtsk_state s)(t := TASK_INTERRUPTIBLE)\<rparr>)) }"

text \<open>\<open>p\<close> is the queue that the sender has been added to.\<close>

definition ss_del :: "ptr \<Rightarrow> task \<Rightarrow> msg_sys \<Rightarrow> msg_sys option" where
  "ss_del p t s =
     (if mss s t
      then do {
        msq \<leftarrow> msqs s p;
        if t \<in> set (q_senders msq)
        then Some (put_msq p (msq\<lparr>q_senders := remove1 t (q_senders msq)\<rparr>) (s\<lparr>mss := (mss s)(t := False)\<rparr>))
        else None }
      else Some s)"

fun ss_wakeup :: "task list \<Rightarrow> bool \<Rightarrow> msg_sys \<Rightarrow> msg_sys" where
  "ss_wakeup [] kill s = s"
| "ss_wakeup (t # ts) kill s =
     ss_wakeup ts kill (msg_wake_up t (if kill then s\<lparr>mss := (mss s)(t := False)\<rparr> else s))"

fun expunge :: "task list \<Rightarrow> int \<Rightarrow> msg_sys \<Rightarrow> msg_sys option" where
  "expunge [] res s = Some s"
| "expunge (t # ts) res s = do {
     r \<leftarrow> msr s t;
     expunge ts res (msg_wake_up t (s\<lparr>msr := (msr s)(t \<mapsto> r\<lparr>r_msg := Err res\<rparr>)\<rparr>)) }"

definition expunge_all :: "ptr \<Rightarrow> int \<Rightarrow> msg_sys \<Rightarrow> msg_sys option" where
  "expunge_all p res s = do { msq \<leftarrow> msqs s p; expunge (q_receivers msq) res s }"

text \<open>The loop that frees the messages counts them.\<close>

fun free_messages :: "msg_msg list \<Rightarrow> msg_sys \<Rightarrow> msg_sys" where
  "free_messages [] s = s"
| "free_messages (m # ms) s = free_messages ms (s\<lparr>msg_hdrs := s32 (msg_hdrs s - 1)\<rparr>)"

definition freeque :: "int \<Rightarrow> msg_sys \<Rightarrow> msg_sys option" where
  "freeque n s = do {
     (p, ids) \<leftarrow> ipc_rmid (msg_ids s) n;
     let s = s\<lparr>msg_ids := ids\<rparr>;
     s \<leftarrow> expunge_all p (- EIDRM) s;
     msq \<leftarrow> msqs s p;
     let s = ss_wakeup (q_senders msq) True s;
     let s = free_messages (q_messages msq) s;
     Some (s\<lparr>msg_bytes := s32 (msg_bytes s - uint (q_cbytes msq)), msqs := (msqs s)(p := None)\<rparr>) }"

definition sys_msgget :: "task \<Rightarrow> int \<Rightarrow> u32 \<Rightarrow> ptr option \<Rightarrow> bool \<Rightarrow> msg_sys \<Rightarrow> (int \<times> msg_sys) option" where
  "sys_msgget t key msgflg mem grow s =
     (if key = IPC_PRIVATE then newque t key msgflg mem grow s
      else do {
        n \<leftarrow> ipc_findkey (\<lambda>p. map_option q_perm (msqs s p)) (msg_ids s) key;
        if n = -1
        then if msgflg AND IPC_CREAT = 0 then Some (- ENOENT, s) else newque t key msgflg mem grow s
        else if msgflg AND IPC_CREAT \<noteq> 0 \<and> msgflg AND IPC_EXCL \<noteq> 0 then Some (- EEXIST, s)
        else do {
          l \<leftarrow> msg_lock n s;
          p \<leftarrow> l;
          msq \<leftarrow> msqs s p;
          Some (if ipcperms (mcreds s t) (q_perm msq) (s16 (sint msgflg)) \<noteq> 0 then - EACCES
                else ipc_buildid n (sint (p_seq (q_perm msq))), s) } })"

section \<open>sys_msgctl\<close>

record msginfo =
  msgpool :: int
  msgmap :: int
  msgmax :: int
  msgmnb :: int
  msgmni :: int
  msgssz :: int
  msgtql :: int
  msgseg :: u16

record msqid64_ds =
  ds64_perm :: ipc64_perm
  ds64_stime :: int
  ds64_rtime :: int
  ds64_ctime :: int
  ds64_cbytes :: ulong
  ds64_qnum :: ulong
  ds64_qbytes :: ulong
  ds64_lspid :: int
  ds64_lrpid :: int

record msqid_ds =
  mds_perm :: ipc_perm
  mds_first :: u32
  mds_last :: u32
  mds_stime :: int
  mds_rtime :: int
  mds_ctime :: int
  mds_lcbytes :: ulong
  mds_lqbytes :: ulong
  mds_cbytes :: u16
  mds_qnum :: u16
  mds_qbytes :: u16
  mds_lspid :: u16
  mds_lrpid :: u16

text \<open>The argument \<open>buf\<close>, and what is there in the two formats.\<close>

record msgctl_arg =
  buf_null :: bool
  buf_ok :: bool
  mbuf64 :: msqid64_ds
  mbuf_old :: msqid_ds

datatype msg_out = No_msg_out | Msg_out_info msginfo | Msg_out64 msqid64_ds | Msg_out_old msqid_ds

definition short_of :: "ulong \<Rightarrow> u16" where
  "short_of n = (if n > word_of_int USHRT_MAX then word_of_int USHRT_MAX else ucast n)"

definition copy_msqid_to_user :: "msgctl_arg \<Rightarrow> msqid64_ds \<Rightarrow> u32 \<Rightarrow> msg_sys \<Rightarrow> bool \<times> msg_out" where
  "copy_msqid_to_user arg in_ds version s =
     (if version = IPC_64 then (buf_ok arg, if buf_ok arg then Msg_out64 in_ds else No_msg_out)
      else if version = IPC_OLD
      then let out = \<lparr>mds_perm = ipc64_perm_to_ipc_perm (moverflowuid s) (moverflowgid s) (ds64_perm in_ds),
                      mds_first = 0, mds_last = 0,
                      mds_stime = ds64_stime in_ds, mds_rtime = ds64_rtime in_ds, mds_ctime = ds64_ctime in_ds,
                      mds_lcbytes = ds64_cbytes in_ds, mds_lqbytes = ds64_qbytes in_ds,
                      mds_cbytes = short_of (ds64_cbytes in_ds), mds_qnum = short_of (ds64_qnum in_ds),
                      mds_qbytes = short_of (ds64_qbytes in_ds),
                      mds_lspid = word_of_int (ds64_lspid in_ds), mds_lrpid = word_of_int (ds64_lrpid in_ds)\<rparr>
           in (buf_ok arg, if buf_ok arg then Msg_out_old out else No_msg_out)
      else (False, No_msg_out))"

record msq_setbuf =
  sb_qbytes :: ulong
  sb_uid :: u32
  sb_gid :: u32
  sb_mode :: u16

definition copy_msqid_from_user :: "msgctl_arg \<Rightarrow> u32 \<Rightarrow> msq_setbuf option" where
  "copy_msqid_from_user arg version =
     (if version = IPC_64
      then if \<not> buf_ok arg then None
           else Some \<lparr>sb_qbytes = ds64_qbytes (mbuf64 arg), sb_uid = uid64 (ds64_perm (mbuf64 arg)),
                      sb_gid = gid64 (ds64_perm (mbuf64 arg)), sb_mode = mode64 (ds64_perm (mbuf64 arg))\<rparr>
      else if version = IPC_OLD
      then if \<not> buf_ok arg then None
           else Some \<lparr>sb_qbytes = (if mds_qbytes (mbuf_old arg) = 0 then mds_lqbytes (mbuf_old arg)
                                   else ucast (mds_qbytes (mbuf_old arg))),
                      sb_uid = ucast (uid16 (mds_perm (mbuf_old arg))), sb_gid = ucast (gid16 (mds_perm (mbuf_old arg))),
                      sb_mode = mode16 (mds_perm (mbuf_old arg))\<rparr>
      else None)"

definition fill_msq_tbuf :: "msg_queue \<Rightarrow> msqid64_ds" where
  "fill_msq_tbuf msq =
     \<lparr>ds64_perm = kernel_to_ipc64_perm (q_perm msq), ds64_stime = q_stime msq, ds64_rtime = q_rtime msq,
      ds64_ctime = q_ctime msq, ds64_cbytes = q_cbytes msq, ds64_qnum = q_qnum msq, ds64_qbytes = q_qbytes msq,
      ds64_lspid = q_lspid msq, ds64_lrpid = q_lrpid msq\<rparr>"

type_synonym msgctl_result = "int \<times> msg_out \<times> msg_sys"

text \<open>The cases \<open>IPC_INFO\<close> and \<open>MSG_INFO\<close>, and \<open>MSG_STAT\<close> and \<open>IPC_STAT\<close>.\<close>

definition msgctl_info :: "u32 \<Rightarrow> msgctl_arg \<Rightarrow> msg_sys \<Rightarrow> msgctl_result" where
  "msgctl_info cmd arg s =
     (if buf_null arg then (- EFAULT, No_msg_out, s)
      else let info = \<lparr>msgpool = (if cmd = MSG_INFO then in_use (msg_ids s) else MSGPOOL),
                       msgmap = (if cmd = MSG_INFO then msg_hdrs s else MSGMAP),
                       msgmax = msg_ctlmax s, msgmnb = msg_ctlmnb s, msgmni = msg_ctlmni s, msgssz = MSGSSZ,
                       msgtql = (if cmd = MSG_INFO then msg_bytes s else MSGTQL),
                       msgseg = word_of_int MSGSEG\<rparr>;
               m = max_id (msg_ids s)
           in if \<not> buf_ok arg then (- EFAULT, No_msg_out, s)
              else (if m < 0 then 0 else m, Msg_out_info info, s))"

definition msgctl_stat :: "task \<Rightarrow> int \<Rightarrow> u32 \<Rightarrow> u32 \<Rightarrow> msgctl_arg \<Rightarrow> msg_sys \<Rightarrow> msgctl_result option" where
  "msgctl_stat t msqid cmd version arg s =
     (if buf_null arg then Some (- EFAULT, No_msg_out, s)
      else if cmd = MSG_STAT \<and> msqid \<ge> ids_size (msg_ids s) then Some (- EINVAL, No_msg_out, s)
      else do {
        l \<leftarrow> msg_lock msqid s;
        case l of
          None \<Rightarrow> Some (- EINVAL, No_msg_out, s)
        | Some p \<Rightarrow> do {
            msq \<leftarrow> msqs s p;
            if cmd \<noteq> MSG_STAT \<and> ipc_checkid (q_perm msq) msqid then Some (- EIDRM, No_msg_out, s)
            else if ipcperms (mcreds s t) (q_perm msq) S_IRUGO \<noteq> 0 then Some (- EACCES, No_msg_out, s)
            else let success = (if cmd = MSG_STAT then ipc_buildid msqid (sint (p_seq (q_perm msq))) else 0);
                     (copied, out) = copy_msqid_to_user arg (fill_msq_tbuf msq) version s
                 in Some (if copied then success else - EFAULT, out, s) } })"

text \<open>The second part of the call, for \<open>IPC_SET\<close> and \<open>IPC_RMID\<close>.\<close>

definition msgctl_down :: "task \<Rightarrow> int \<Rightarrow> u32 \<Rightarrow> msq_setbuf \<Rightarrow> msg_sys \<Rightarrow> (int \<times> msg_sys) option" where
  "msgctl_down t msqid cmd setbuf s = do {
     l \<leftarrow> msg_lock msqid s;
     case l of
       None \<Rightarrow> Some (- EINVAL, s)
     | Some p \<Rightarrow> do {
         msq \<leftarrow> msqs s p;
         let ipcp = q_perm msq;
         if ipc_checkid ipcp msqid then Some (- EIDRM, s)
         else if euid (mcreds s t) \<noteq> p_cuid ipcp \<and> euid (mcreds s t) \<noteq> p_uid ipcp \<and> \<not> capable (mcreds s t) CAP_SYS_ADMIN
         then Some (- EPERM, s)
         else if cmd = IPC_SET
         then if sb_qbytes setbuf > word_of_int (msg_ctlmnb s) \<and> \<not> capable (mcreds s t) CAP_SYS_RESOURCE
              then Some (- EPERM, s)
              else do {
                let ipcp = ipcp\<lparr>p_uid := sb_uid setbuf, p_gid := sb_gid setbuf,
                                p_mode := (p_mode ipcp AND NOT (word_of_int S_IRWXUGO))
                                          OR (word_of_int S_IRWXUGO AND sb_mode setbuf)\<rparr>;
                let s = put_msq p (msq\<lparr>q_qbytes := sb_qbytes setbuf, q_perm := ipcp, q_ctime := mcurrent_time s\<rparr>) s;
                s \<leftarrow> expunge_all p (- EAGAIN) s;
                Some (0, ss_wakeup (q_senders msq) False s) }
         else do { s \<leftarrow> freeque msqid s; Some (0, s) } } }"

definition sys_msgctl :: "task \<Rightarrow> int \<Rightarrow> u32 \<Rightarrow> msgctl_arg \<Rightarrow> msg_sys \<Rightarrow> msgctl_result option" where
  "sys_msgctl t msqid cmd arg s =
     (if msqid < 0 \<or> sint cmd < 0 then Some (- EINVAL, No_msg_out, s)
      else let (version, cmd) = ipc_parse_version cmd in
      if cmd = IPC_INFO \<or> cmd = MSG_INFO then Some (msgctl_info cmd arg s)
      else if cmd = MSG_STAT \<or> cmd = IPC_STAT then msgctl_stat t msqid cmd version arg s
      else if cmd = IPC_SET
      then if buf_null arg then Some (- EFAULT, No_msg_out, s)
           else case copy_msqid_from_user arg version of
             None \<Rightarrow> Some (- EFAULT, No_msg_out, s)
           | Some setbuf \<Rightarrow> map_option (\<lambda>(e, s). (e, No_msg_out, s)) (msgctl_down t msqid cmd setbuf s)
      else if cmd = IPC_RMID
      then map_option (\<lambda>(e, s). (e, No_msg_out, s))
             (msgctl_down t msqid cmd \<lparr>sb_qbytes = 0, sb_uid = 0, sb_gid = 0, sb_mode = 0\<rparr> s)
      else Some (- EINVAL, No_msg_out, s))"

section \<open>sys_msgsnd\<close>

definition testmsg :: "msg_msg \<Rightarrow> int \<Rightarrow> search_mode \<Rightarrow> bool" where
  "testmsg msg type mode =
     (case mode of
        SEARCH_ANY \<Rightarrow> True
      | SEARCH_LESSEQUAL \<Rightarrow> m_type msg \<le> type
      | SEARCH_EQUAL \<Rightarrow> m_type msg = type
      | SEARCH_NOTEQUAL \<Rightarrow> m_type msg \<noteq> type)"

text \<open>
  The loop over the receivers, \<open>ts\<close> being the list from \<open>tmp\<close> on. Removing an entry from the
  list of the queue fails if it is not there.
\<close>

fun pipelined_loop :: "ptr \<Rightarrow> msg_msg \<Rightarrow> task list \<Rightarrow> msg_sys \<Rightarrow> (bool \<times> msg_sys) option" where
  "pipelined_loop p msg [] s = Some (False, s)"
| "pipelined_loop p msg (t # ts) s = do {
     r \<leftarrow> msr s t;
     if testmsg msg (r_msgtype r) (r_mode r)
     then do {
       msq \<leftarrow> msqs s p;
       if t \<notin> set (q_receivers msq) then None
       else
         let msq = msq\<lparr>q_receivers := remove1 t (q_receivers msq)\<rparr> in
         if r_maxsize r < m_ts msg
         then pipelined_loop p msg ts
                (msg_wake_up t (put_msq p msq (s\<lparr>msr := (msr s)(t \<mapsto> r\<lparr>r_msg := Err (- E2BIG)\<rparr>)\<rparr>)))
         else
           let msq = msq\<lparr>q_lrpid := pid (mcreds s t), q_rtime := mcurrent_time s\<rparr>
           in Some (True, msg_wake_up t (put_msq p msq (s\<lparr>msr := (msr s)(t \<mapsto> r\<lparr>r_msg := Arrived msg\<rparr>)\<rparr>))) }
     else pipelined_loop p msg ts s }"

definition pipelined_send :: "ptr \<Rightarrow> msg_msg \<Rightarrow> msg_sys \<Rightarrow> (bool \<times> msg_sys) option" where
  "pipelined_send p msg s = do { msq \<leftarrow> msqs s p; pipelined_loop p msg (q_receivers msq) s }"

text \<open>What a sleeping call has to do; \<open>p\<close> is the queue that it sleeps on.\<close>

datatype msg_wait =
    Msgsnd_sleep int ptr msg_msg u32 u32
  | Msgrcv_sleep int ptr u32 int search_mode u32

text \<open>What a call returns: a number, and a message's type and text for the user.\<close>

datatype msg_ret = MRet int | MDone int int "u8 list" | MWait msg_wait

text \<open>The part of the call from the label \<open>retry\<close> on.\<close>

definition msgsnd_full :: "u32 \<Rightarrow> msg_queue \<Rightarrow> bool" where
  "msgsnd_full msgsz msq \<longleftrightarrow> msgsz + q_cbytes msq > q_qbytes msq \<or> 1 + q_qnum msq > q_qbytes msq"

definition msgsnd_try ::
  "task \<Rightarrow> int \<Rightarrow> ptr \<Rightarrow> msg_msg \<Rightarrow> u32 \<Rightarrow> u32 \<Rightarrow> msg_sys \<Rightarrow> (msg_ret \<times> msg_sys) option"
where
  "msgsnd_try t msqid p msg msgsz msgflg s = do {
     msq \<leftarrow> msqs s p;
     if ipc_checkid (q_perm msq) msqid then Some (MRet (- EIDRM), s)
     else if ipcperms (mcreds s t) (q_perm msq) S_IWUGO \<noteq> 0 then Some (MRet (- EACCES), s)
     else if msgsnd_full msgsz msq
     then if msgflg AND IPC_NOWAIT \<noteq> 0 then Some (MRet (- EAGAIN), s)
          else do { s \<leftarrow> ss_add p t s; Some (MWait (Msgsnd_sleep msqid p msg msgsz msgflg), s) }
     else do {
       let s = put_msq p (msq\<lparr>q_lspid := pid (mcreds s t), q_stime := mcurrent_time s\<rparr>) s;
       (sent, s) \<leftarrow> pipelined_send p msg s;
       if sent then Some (MRet 0, s)
       else do {
         msq \<leftarrow> msqs s p;
         Some (MRet 0,
           (put_msq p (msq\<lparr>q_messages := q_messages msq @ [msg], q_cbytes := q_cbytes msq + msgsz,
                           q_qnum := q_qnum msq + 1\<rparr>) s)
             \<lparr>msg_bytes := s32 (msg_bytes s + uint msgsz), msg_hdrs := s32 (msg_hdrs s + 1)\<rparr>) } } }"

text \<open>\<open>mtype\<close> is the type read from the user's buffer, \<open>None\<close> when it cannot be read.\<close>

definition sys_msgsnd ::
  "task \<Rightarrow> int \<Rightarrow> int option \<Rightarrow> (nat \<Rightarrow> u8 option) \<Rightarrow> (nat \<Rightarrow> bool) \<Rightarrow> u32 \<Rightarrow> u32 \<Rightarrow> msg_sys \<Rightarrow>
   (msg_ret \<times> msg_sys) option"
where
  "sys_msgsnd t msqid mtype user mem msgsz msgflg s =
     (if msgsz > word_of_int (msg_ctlmax s) \<or> sint msgsz < 0 \<or> msqid < 0 then Some (MRet (- EINVAL), s)
      else case mtype of
        None \<Rightarrow> Some (MRet (- EFAULT), s)
      | Some mtype \<Rightarrow>
          if mtype < 1 then Some (MRet (- EINVAL), s)
          else case load_msg user mem (sint msgsz) of
            Inl e \<Rightarrow> Some (MRet e, s)
          | Inr msg \<Rightarrow> do {
              let msg = msg\<lparr>m_type := mtype, m_ts := sint msgsz\<rparr>;
              l \<leftarrow> msg_lock msqid s;
              case l of
                None \<Rightarrow> Some (MRet (- EINVAL), s)
              | Some p \<Rightarrow> msgsnd_try t msqid p msg msgsz msgflg s })"

text \<open>What the sender does when \<open>schedule()\<close> returns; \<open>sig\<close> says whether a signal is pending.\<close>

definition msgsnd_wakeup ::
  "task \<Rightarrow> int \<Rightarrow> ptr \<Rightarrow> msg_msg \<Rightarrow> u32 \<Rightarrow> u32 \<Rightarrow> bool \<Rightarrow> msg_sys \<Rightarrow> (msg_ret \<times> msg_sys) option"
where
  "msgsnd_wakeup t msqid p0 msg msgsz msgflg sig s = do {
     let s = msg_wake_up t s;
     l \<leftarrow> msg_lock msqid s;
     case l of
       None \<Rightarrow> if mss s t then None else Some (MRet (- EIDRM), s)
     | Some p \<Rightarrow> do {
         s \<leftarrow> ss_del p0 t s;
         if sig then Some (MRet (- EINTR), s)
         else msgsnd_try t msqid p msg msgsz msgflg s } }"

section \<open>sys_msgrcv\<close>

definition convert_mode :: "int \<Rightarrow> u32 \<Rightarrow> int \<times> search_mode" where
  "convert_mode msgtyp msgflg =
     (if msgtyp = 0 then (msgtyp, SEARCH_ANY)
      else if msgtyp < 0 then (s32 (- msgtyp), SEARCH_LESSEQUAL)
      else if msgflg AND MSG_EXCEPT \<noteq> 0 then (msgtyp, SEARCH_NOTEQUAL)
      else (msgtyp, SEARCH_EQUAL))"

text \<open>The loop over the messages; the result is the position of \<open>found_msg\<close>, and \<open>msgtyp\<close>.\<close>

fun search_loop :: "search_mode \<Rightarrow> int \<Rightarrow> msg_msg list \<Rightarrow> nat \<Rightarrow> nat option \<Rightarrow> nat option \<times> int" where
  "search_loop mode msgtyp [] i found = (found, msgtyp)"
| "search_loop mode msgtyp (msg # ms) i found =
     (if testmsg msg msgtyp mode
      then if mode = SEARCH_LESSEQUAL \<and> m_type msg \<noteq> 1
           then search_loop mode (m_type msg - 1) ms (Suc i) (Some i)
           else (Some i, msgtyp)
      else search_loop mode msgtyp ms (Suc i) found)"

text \<open>
  The label \<open>out_success\<close>: the type and the text are written to the user's buffer, \<open>put\<close> and \<open>wr\<close>
  telling whether that is possible.
\<close>

definition msgrcv_success :: "msg_msg \<Rightarrow> u32 \<Rightarrow> bool \<Rightarrow> (nat \<Rightarrow> bool) \<Rightarrow> msg_ret option" where
  "msgrcv_success msg msgsz put wr =
     (let msgsz = (if msgsz > word_of_int (m_ts msg) then word_of_int (m_ts msg) else msgsz) in
      if \<not> put then Some (MRet (- EFAULT))
      else do {
        (ok, b) \<leftarrow> store_msg wr msg (sint msgsz);
        Some (if ok then MDone (sint msgsz) (m_type msg) b else MRet (- EFAULT)) })"

text \<open>The part of the call from the label \<open>retry\<close> on.\<close>

definition msgrcv_try ::
  "task \<Rightarrow> int \<Rightarrow> ptr \<Rightarrow> u32 \<Rightarrow> int \<Rightarrow> search_mode \<Rightarrow> u32 \<Rightarrow> bool \<Rightarrow> (nat \<Rightarrow> bool) \<Rightarrow> msg_sys \<Rightarrow>
   (msg_ret \<times> msg_sys) option"
where
  "msgrcv_try t msqid p msgsz msgtyp mode msgflg put wr s = do {
     msq \<leftarrow> msqs s p;
     if ipc_checkid (q_perm msq) msqid then Some (MRet (- EIDRM), s)
     else if ipcperms (mcreds s t) (q_perm msq) S_IRUGO \<noteq> 0 then Some (MRet (- EACCES), s)
     else case search_loop mode msgtyp (q_messages msq) 0 None of
       (Some i, _) \<Rightarrow>
         let msg = q_messages msq ! i in
         if msgsz < word_of_int (m_ts msg) \<and> msgflg AND MSG_NOERROR = 0 then Some (MRet (- E2BIG), s)
         else do {
           let s = (put_msq p (msq\<lparr>q_messages := take i (q_messages msq) @ drop (Suc i) (q_messages msq),
                                  q_qnum := q_qnum msq - 1, q_rtime := mcurrent_time s,
                                  q_lrpid := pid (mcreds s t), q_cbytes := q_cbytes msq - word_of_int (m_ts msg)\<rparr>) s)
                     \<lparr>msg_bytes := s32 (msg_bytes s - m_ts msg), msg_hdrs := s32 (msg_hdrs s - 1)\<rparr>;
           let s = ss_wakeup (q_senders msq) False s;
           r \<leftarrow> msgrcv_success msg msgsz put wr;
           Some (r, s) }
     | (None, msgtyp) \<Rightarrow>
         if msgflg AND IPC_NOWAIT \<noteq> 0 then Some (MRet (- ENOMSG), s)
         else
           let r = \<lparr>r_mode = mode, r_msgtype = msgtyp,
                    r_maxsize = (if msgflg AND MSG_NOERROR \<noteq> 0 then INT_MAX else sint msgsz),
                    r_msg = Err (- EAGAIN)\<rparr>
           in Some (MWait (Msgrcv_sleep msqid p msgsz msgtyp mode msgflg),
                    (put_msq p (msq\<lparr>q_receivers := q_receivers msq @ [t]\<rparr>) s)
                      \<lparr>msr := (msr s)(t \<mapsto> r), mtsk_state := (mtsk_state s)(t := TASK_INTERRUPTIBLE)\<rparr>) }"

definition sys_msgrcv ::
  "task \<Rightarrow> int \<Rightarrow> u32 \<Rightarrow> int \<Rightarrow> u32 \<Rightarrow> bool \<Rightarrow> (nat \<Rightarrow> bool) \<Rightarrow> msg_sys \<Rightarrow> (msg_ret \<times> msg_sys) option"
where
  "sys_msgrcv t msqid msgsz msgtyp msgflg put wr s =
     (if msqid < 0 \<or> sint msgsz < 0 then Some (MRet (- EINVAL), s)
      else let (msgtyp, mode) = convert_mode msgtyp msgflg in do {
        l \<leftarrow> msg_lock msqid s;
        case l of
          None \<Rightarrow> Some (MRet (- EINVAL), s)
        | Some p \<Rightarrow> msgrcv_try t msqid p msgsz msgtyp mode msgflg put wr s })"

text \<open>
  What the receiver does when \<open>schedule()\<close> returns. The receiver's structure goes away with the
  stack when the call returns.
\<close>

definition msgrcv_wakeup ::
  "task \<Rightarrow> int \<Rightarrow> ptr \<Rightarrow> u32 \<Rightarrow> int \<Rightarrow> search_mode \<Rightarrow> u32 \<Rightarrow> bool \<Rightarrow> bool \<Rightarrow> (nat \<Rightarrow> bool) \<Rightarrow> msg_sys \<Rightarrow>
   (msg_ret \<times> msg_sys) option"
where
  "msgrcv_wakeup t msqid p msgsz msgtyp mode msgflg sig put wr s = do {
     let s = msg_wake_up t s;
     r \<leftarrow> msr s t;
     let gone = s\<lparr>msr := (msr s)(t := None)\<rparr>;
     case r_msg r of
       Arrived msg \<Rightarrow> do { ret \<leftarrow> msgrcv_success msg msgsz put wr; Some (ret, gone) }
     | Err e \<Rightarrow> do {
         l \<leftarrow> msg_lock msqid s;
         if e = - EAGAIN
         then case l of
           None \<Rightarrow> None
         | Some _ \<Rightarrow> do {
             msq \<leftarrow> msqs s p;
             if t \<notin> set (q_receivers msq) then None
             else let s = put_msq p (msq\<lparr>q_receivers := remove1 t (q_receivers msq)\<rparr>) gone in
                  if sig then Some (MRet (- EINTR), s)
                  else msgrcv_try t msqid p msgsz msgtyp mode msgflg put wr s }
         else Some (MRet e, gone) } }"

end
