(* ===== verification/MsgText.thy ===== *)
theory MsgText
  imports Msg
begin

text \<open>
  The text of a message and the search for a message: \<open>load_msg\<close> splits a text into chunks
  and \<open>store_msg\<close> puts it together again, and the loop of \<open>sys_msgrcv\<close> finds the message that
  the call asks for.
\<close>

section \<open>Chunks\<close>

definition user_bytes :: "(nat \<Rightarrow> u8 option) \<Rightarrow> nat \<Rightarrow> nat \<Rightarrow> u8 list" where
  "user_bytes user off n = map (\<lambda>i. the (user i)) [off..<off + n]"

lemma length_user_bytes [simp]: "length (user_bytes user off n) = n"
  by (simp add: user_bytes_def)

lemma user_bytes_append: "user_bytes user off n @ user_bytes user (off + n) m = user_bytes user off (n + m)"
proof -
  have "[off..<off + n + m] = [off..<off + n] @ [off + n..<off + n + m]" by (rule upt_add_eq_append) simp
  then show ?thesis by (simp add: user_bytes_def add.assoc)
qed

lemma take_user_bytes: "m \<le> n \<Longrightarrow> take m (user_bytes user off n) = user_bytes user off m"
  by (simp add: user_bytes_def take_map)

lemma copy_from_user_Some: "copy_from_user user off n = Some b \<Longrightarrow> b = user_bytes user off (nat n)"
  by (auto simp: copy_from_user_def user_bytes_def split: if_splits)

text \<open>The segments of a text of the given length: all full but the last one, which is not empty.\<close>

fun seg_sizes :: "nat list \<Rightarrow> nat \<Rightarrow> bool" where
  "seg_sizes [] n \<longleftrightarrow> n = 0"
| "seg_sizes (k # ks) n \<longleftrightarrow> 0 < k \<and> k = min n 4092 \<and> seg_sizes ks (n - k)"

lemma seg_sizes_count: "seg_sizes ks n \<Longrightarrow> length ks = (n + 4091) div 4092"
proof (induction ks n rule: seg_sizes.induct)
  case (2 k ks n)
  then have IH: "length ks = (n - k + 4091) div 4092" and k: "0 < k" "k = min n 4092" by auto
  show ?case
  proof (cases "n \<le> 4092")
    case True
    with k IH show ?thesis by simp
  next
    case False
    then have "n + 4091 = n - k + 4091 + 4092" using k by simp
    then show ?thesis using IH by (simp only: div_add_self2)  simp
  qed
qed simp

lemma load_segs_shape:
  assumes "load_segs user mem k off len = Inr segs" "0 \<le> len"
  shows "concat segs = user_bytes user off (nat len)" "seg_sizes (map length segs) (nat len)"
  using assms
proof (atomize (full), induction user mem k off len arbitrary: segs rule: load_segs.induct)
  case (1 user mem k off len)
  show ?case
  proof (cases "len > 0")
    case True
    define alen where "alen = (if len > DATALEN_SEG then DATALEN_SEG else len)"
    have alen: "0 < alen" "alen \<le> len" "nat alen = min (nat len) 4092" "nat (len - alen) = nat len - nat alen"
      using True by (auto simp: alen_def DATALEN_SEG_def nat_diff_distrib)
    obtain b rest where r: "copy_from_user user off alen = Some b" "mem k" "segs = b # rest"
        "load_segs user mem (Suc k) (off + nat alen) (len - alen) = Inr rest"
      using "1.prems" True unfolding load_segs.simps [of user mem k off len]
      by (auto simp: Let_def alen_def [symmetric] split: if_splits option.splits sum.splits)
    have IH: "concat rest = user_bytes user (off + nat alen) (nat (len - alen))" "seg_sizes (map length rest) (nat (len - alen))"
      using "1.IH" [OF True alen_def] r alen(2) by auto
    have "nat alen + (nat len - nat alen) = nat len" using alen(3) by simp
    then show ?thesis
      using IH copy_from_user_Some [OF r(1)] user_bytes_append [of user off "nat alen" "nat (len - alen)"] alen
      by (simp add: r(3))
  qed (use "1.prems" in \<open>simp add: load_segs.simps user_bytes_def\<close>)
qed

lemma store_segs_shape:
  assumes "seg_sizes (map length segs) n" "0 \<le> len" "nat len \<le> n" "\<And>i. wr i"
  shows "store_segs wr off segs len = Some (True, take (nat len) (concat segs))"
  using assms
proof (induction segs arbitrary: n off len)
  case Nil
  then show ?case by (simp add: store_segs.simps)
next
  case (Cons seg segs)
  show ?case
  proof (cases "len > 0")
    case True
    define alen where "alen = (if len > DATALEN_SEG then DATALEN_SEG else len)"
    have alen: "0 < alen" "alen \<le> len" "nat alen = min (nat len) 4092" "nat (len - alen) = nat len - nat alen"
      using True by (auto simp: alen_def DATALEN_SEG_def nat_diff_distrib)
    have seg: "length seg = min n 4092" "seg_sizes (map length segs) (n - length seg)" using Cons.prems(1) by auto
    have le: "nat alen \<le> length seg" using alen(3) seg(1) Cons.prems(3) by simp
    have c: "copy_to_user wr off seg alen = Some (True, take (nat alen) seg)"
      using le Cons.prems(4) by (simp add: copy_to_user_def list_all_iff)
    show ?thesis
    proof (cases "nat alen = length seg")
      case eq: True
      have "store_segs wr (off + nat alen) segs (len - alen) = Some (True, take (nat (len - alen)) (concat segs))"
        by (rule Cons.IH [OF seg(2)]) (use alen eq Cons.prems(3,4) diff_le_mono in auto)
      moreover have "length seg \<le> nat len" using eq alen(2) by simp
      ultimately show ?thesis using True c eq alen(4)
        by (subst store_segs.simps) (simp add: Let_def alen_def [symmetric])
    next
      case False
      then have "nat len < length seg" using alen(3) le seg(1) by linarith
      then have e: "alen = len" using alen(3) seg(1) True by (simp add: alen_def DATALEN_SEG_def split: if_splits)
      then show ?thesis using True c \<open>nat len < length seg\<close>
        by (subst store_segs.simps) (simp add: Let_def alen_def [symmetric] store_segs.simps)
    qed
  qed (use Cons.prems(2) in \<open>simp add: store_segs.simps\<close>)
qed

lemma load_msg_shape:
  assumes "load_msg user mem len = Inr msg" "0 \<le> len"
  shows "m_text msg @ concat (m_segs msg) = user_bytes user 0 (nat len)"
    "length (m_text msg) = min (nat len) 4076" "seg_sizes (map length (m_segs msg)) (nat len - 4076)"
proof -
  define alen where "alen = (if len > DATALEN_MSG then DATALEN_MSG else len)"
  have alen: "0 \<le> alen" "alen \<le> len" "nat alen = min (nat len) 4076" "nat (len - alen) = nat len - 4076"
    using assms(2) by (auto simp: alen_def DATALEN_MSG_def)
  obtain b segs where r: "copy_from_user user 0 alen = Some b" "load_segs user mem 1 (nat alen) (len - alen) = Inr segs"
      "msg = \<lparr>m_type = 0, m_ts = 0, m_text = b, m_segs = segs\<rparr>"
    using assms(1) by (auto simp: load_msg_def Let_def alen_def [symmetric] split: if_splits option.splits sum.splits)
  note L = load_segs_shape [OF r(2)]
  have "nat alen + (nat len - 4076) = nat len" using alen(3) by simp
  then show "m_text msg @ concat (m_segs msg) = user_bytes user 0 (nat len)"
    using L(1) alen copy_from_user_Some [OF r(1)] user_bytes_append [of user 0 "nat alen" "nat (len - alen)"] by (simp add: r(3))
  show "length (m_text msg) = min (nat len) 4076" using copy_from_user_Some [OF r(1)] alen(3) by (simp add: r(3))
  show "seg_sizes (map length (m_segs msg)) (nat len - 4076)" using L(2) alen by (simp add: r(3))
qed

text \<open>The texts of all messages have the shape that \<open>load_msg\<close> gives them.\<close>

definition msg_shape :: "msg_msg \<Rightarrow> bool" where
  "msg_shape msg \<longleftrightarrow> 0 \<le> m_ts msg \<and> m_ts msg < 2147483648 \<and> 1 \<le> m_type msg \<and>
     length (m_text msg) = min (nat (m_ts msg)) 4076 \<and> seg_sizes (map length (m_segs msg)) (nat (m_ts msg) - 4076)"

lemma store_msg_shape:
  assumes "length (m_text msg) = min n 4076" "seg_sizes (map length (m_segs msg)) (n - 4076)"
    "0 \<le> len" "nat len \<le> n" "\<And>i. wr i"
  shows "store_msg wr msg len = Some (True, take (nat len) (m_text msg @ concat (m_segs msg)))"
proof -
  define alen where "alen = (if len > DATALEN_MSG then DATALEN_MSG else len)"
  have alen: "0 \<le> alen" "alen \<le> len" "nat alen = min (nat len) 4076" "nat (len - alen) = nat len - 4076"
    using assms(3) by (auto simp: alen_def DATALEN_MSG_def)
  have "copy_to_user wr 0 (m_text msg) alen = Some (True, take (nat alen) (m_text msg))"
    using assms(1,4,5) alen(3) by (simp add: copy_to_user_def list_all_iff)
  moreover have "store_segs wr (nat alen) (m_segs msg) (len - alen) = Some (True, take (nat (len - alen)) (concat (m_segs msg)))"
    by (rule store_segs_shape [OF assms(2)]) (use alen assms(4,5) diff_le_mono in auto)
  moreover have "take (nat alen) (m_text msg) = take (nat len) (m_text msg)"
    using assms(1) alen(3) by (simp add: take_all min_def)
  moreover have "nat len - length (m_text msg) = nat len - 4076" using assms(1,4) by simp
  ultimately show ?thesis by (simp add: store_msg_def Let_def alen_def [symmetric] alen(4))
qed

text \<open>When a load fails.\<close>

definition readable :: "(nat \<Rightarrow> u8 option) \<Rightarrow> nat \<Rightarrow> nat \<Rightarrow> bool" where
  "readable user off n \<longleftrightarrow> (\<forall>i. off \<le> i \<longrightarrow> i < off + n \<longrightarrow> user i \<noteq> None)"

lemma copy_from_user_readable:
  "readable user off (nat n) \<Longrightarrow> copy_from_user user off n = Some (user_bytes user off (nat n))"
  by (auto simp: copy_from_user_def user_bytes_def readable_def list_all_iff)

lemma load_segs_total:
  "readable user off (nat len) \<Longrightarrow> \<forall>i. mem i \<Longrightarrow> \<exists>segs. load_segs user mem k off len = Inr segs"
proof (induction user mem k off len rule: load_segs.induct)
  case (1 user mem k off len)
  show ?case
  proof (cases "len > 0")
    case True
    define alen where "alen = (if len > DATALEN_SEG then DATALEN_SEG else len)"
    have alen: "0 < alen" "alen \<le> len" "nat len = nat alen + nat (len - alen)"
      using True by (auto simp: alen_def DATALEN_SEG_def)
    have r: "readable user off (nat alen)" "readable user (off + nat alen) (nat (len - alen))"
      using "1.prems"(1) alen(3) by (auto simp: readable_def)
    obtain segs where "load_segs user mem (Suc k) (off + nat alen) (len - alen) = Inr segs"
      using "1.IH" [OF True alen_def _ copy_from_user_readable [OF r(1)] r(2)] "1.prems"(2) by blast
    then show ?thesis using True copy_from_user_readable [OF r(1)] "1.prems"(2)
      by (subst load_segs.simps) (simp add: Let_def alen_def [symmetric])
  qed (simp add: load_segs.simps)
qed

text \<open>C37. The loop of \<open>load_msg\<close> ends for every length: when the text can be read and memory is
  there, it gives a message whose first chunk has at most 4076 bytes and whose segments are full
  but the last one, as many as the rest of the text needs.\<close>

theorem load_msg_terminates:
  assumes len: "0 \<le> len" and user: "readable user 0 (nat len)" and mem: "\<forall>i. mem i"
  shows "\<exists>msg. load_msg user mem len = Inr msg \<and> length (m_text msg) = min (nat len) 4076 \<and>
           length (m_segs msg) = (nat len - 4076 + 4091) div 4092 \<and> (\<forall>seg\<in>set (m_segs msg). seg \<noteq> [] \<and> length seg \<le> 4092)"
proof -
  define alen where "alen = (if len > DATALEN_MSG then DATALEN_MSG else len)"
  have alen: "0 \<le> alen" "nat len = nat alen + nat (len - alen)" using len by (auto simp: alen_def DATALEN_MSG_def)
  have r: "readable user 0 (nat alen)" "readable user (nat alen) (nat (len - alen))"
    using user alen(2) by (auto simp: readable_def)
  obtain segs where "load_segs user mem 1 (nat alen) (len - alen) = Inr segs" using load_segs_total [OF r(2) mem] by blast
  then obtain msg where msg: "load_msg user mem len = Inr msg"
    using copy_from_user_readable [OF r(1)] mem by (simp add: load_msg_def Let_def alen_def [symmetric])
  note S = load_msg_shape [OF msg len]
  have "seg \<noteq> [] \<and> length seg \<le> 4092" if "seg_sizes (map length segs) n" "seg \<in> set segs" for seg segs n
    using that by (induction segs arbitrary: n) auto
  then show ?thesis using msg S(2,3) seg_sizes_count [OF S(3)] by auto
qed

theorem load_msg_terminates_witness:
  "\<exists>msg. load_msg (\<lambda>_. Some 65) (\<lambda>_. True) 10000 = Inr msg \<and> length (m_segs msg) = 2"
  using load_msg_terminates [of 10000 "\<lambda>_. Some 65" "\<lambda>_. True"] by (auto simp: readable_def)

text \<open>C36. A text that \<open>load_msg\<close> has read from user space comes back unchanged: \<open>store_msg\<close> writes
  its first bytes, as many as it is asked for, across all chunks and segments.\<close>

theorem load_store_round_trip:
  assumes load: "load_msg user mem len = Inr msg" and len: "0 \<le> n" "n \<le> len"
  shows "store_msg (\<lambda>_. True) (msg\<lparr>m_type := type, m_ts := len\<rparr>) n = Some (True, map (\<lambda>i. the (user i)) [0..<nat n])"
proof -
  have "0 \<le> len" using len by simp
  note S = load_msg_shape [OF load this]
  have "store_msg (\<lambda>_. True) (msg\<lparr>m_type := type, m_ts := len\<rparr>) n =
      Some (True, take (nat n) (m_text msg @ concat (m_segs msg)))"
    using store_msg_shape [of "msg\<lparr>m_type := type, m_ts := len\<rparr>" "nat len" n "\<lambda>_. True"] S(2,3) len by simp
  also have "take (nat n) (m_text msg @ concat (m_segs msg)) = user_bytes user 0 (nat n)"
    unfolding S(1) by (rule take_user_bytes) (use len in simp)
  finally show ?thesis by (simp add: user_bytes_def)
qed

theorem load_store_round_trip_witness:
  "\<exists>msg. load_msg (\<lambda>i. Some (of_nat i)) (\<lambda>_. True) 3 = Inr msg \<and>
     store_msg (\<lambda>_. True) (msg\<lparr>m_type := 1, m_ts := 3\<rparr>) 2 = Some (True, [0, 1])"
proof -
  have "\<exists>msg. load_msg (\<lambda>i. Some (of_nat i)) (\<lambda>_. True) 3 = Inr msg"
    by (simp add: load_msg_def DATALEN_MSG_def copy_from_user_def load_segs.simps list_all_iff)
  then obtain msg where msg: "load_msg (\<lambda>i. Some (of_nat i)) (\<lambda>_. True) 3 = Inr msg" ..
  show ?thesis using msg load_store_round_trip [OF msg, of 2 1] by (simp add: upt_rec)
qed

section \<open>The search\<close>










end
