(* ===== verification/MsgSystem.thy ===== *)
theory MsgSystem
  imports MsgText
begin

text \<open>
  Any number of tasks use the message queue calls at the same time. The theory defines the
  interleaving of their atomic sections and the invariant: the books of every queue are right, the
  lists of receivers and senders hold exactly the tasks that sleep there, and no receiver sleeps
  while a message that it would accept is in the queue.
\<close>

section \<open>Interleavings\<close>

datatype msg_pc = MIdle | MSleep msg_wait

definition mafter :: "msg_ret \<Rightarrow> msg_pc" where
  "mafter r = (case r of MWait w \<Rightarrow> MSleep w | _ \<Rightarrow> MIdle)"

record msg_world =
  msys :: msg_sys
  mpcs :: "task \<Rightarrow> msg_pc"

definition in_int :: "int \<Rightarrow> bool" where
  "in_int n \<longleftrightarrow> -2147483648 \<le> n \<and> n < 2147483648"

text \<open>The continuation of a sleeping call.\<close>

definition msg_resume ::
  "task \<Rightarrow> msg_wait \<Rightarrow> bool \<Rightarrow> bool \<Rightarrow> (nat \<Rightarrow> bool) \<Rightarrow> msg_sys \<Rightarrow> (msg_ret \<times> msg_sys) option"
where
  "msg_resume t w sig put wr s =
     (case w of
        Msgsnd_sleep msqid p msg msgsz msgflg \<Rightarrow> msgsnd_wakeup t msqid p msg msgsz msgflg sig s
      | Msgrcv_sleep msqid p msgsz msgtyp mode msgflg \<Rightarrow>
          msgrcv_wakeup t msqid p msgsz msgtyp mode msgflg sig put wr s)"

text \<open>A sleeping task may run again at any time; memory that is handed out is not in use.\<close>

inductive msg_step :: "msg_world \<Rightarrow> msg_world \<Rightarrow> bool" where
  msgget: "mpcs w t = MIdle \<Longrightarrow> (\<And>p. mem = Some p \<Longrightarrow> msqs (msys w) p = None) \<Longrightarrow>
     sys_msgget t key flg mem grow (msys w) = Some (r, s') \<Longrightarrow> msg_step w (w\<lparr>msys := s'\<rparr>)"
| msgctl: "mpcs w t = MIdle \<Longrightarrow> in_int msqid \<Longrightarrow>
     sys_msgctl t msqid cmd arg (msys w) = Some (r, out, s') \<Longrightarrow> msg_step w (w\<lparr>msys := s'\<rparr>)"
| msgsnd: "mpcs w t = MIdle \<Longrightarrow> in_int msqid \<Longrightarrow>
     sys_msgsnd t msqid mtype user mem msgsz msgflg (msys w) = Some (r, s') \<Longrightarrow>
     msg_step w (w\<lparr>msys := s', mpcs := (mpcs w)(t := mafter r)\<rparr>)"
| msgrcv: "mpcs w t = MIdle \<Longrightarrow> in_int msqid \<Longrightarrow>
     sys_msgrcv t msqid msgsz msgtyp msgflg put wr (msys w) = Some (r, s') \<Longrightarrow>
     msg_step w (w\<lparr>msys := s', mpcs := (mpcs w)(t := mafter r)\<rparr>)"
| mresume: "mpcs w t = MSleep wt \<Longrightarrow> msg_resume t wt sig put wr (msys w) = Some (r, s') \<Longrightarrow>
     msg_step w (w\<lparr>msys := s', mpcs := (mpcs w)(t := mafter r)\<rparr>)"
| moutside: "msg_step w
     (w\<lparr>msys := (msys w)\<lparr>mcurrent_time := now, mcreds := cr, moverflowuid := ou, moverflowgid := og,
        msg_ctlmax := c1, msg_ctlmnb := c2, msg_ctlmni := c3\<rparr>\<rparr>)"

lemmas msg_upd_defs = msg_wake_up_def put_msq_def

section \<open>The invariant\<close>

definition msg_has_id :: "msg_sys \<Rightarrow> ptr \<Rightarrow> int \<Rightarrow> bool" where
  "msg_has_id s p n \<longleftrightarrow>
     (\<exists>i q. slot (msg_ids s) i = Some p \<and> msqs s p = Some q \<and> n = ipc_buildid (int i) (sint (p_seq (q_perm q))))"

definition table_ok :: "msg_sys \<Rightarrow> bool" where
  "table_ok s \<longleftrightarrow> ids_ok (msg_ids s) \<and> (\<forall>p. (\<exists>i. slot (msg_ids s) i = Some p) \<longleftrightarrow> msqs s p \<noteq> None) \<and>
     (\<forall>p q. msqs s p = Some q \<longrightarrow> unat (p_seq (q_perm q)) < 65536)"

definition que_bytes :: "msg_queue \<Rightarrow> int" where
  "que_bytes q = sum_list (map m_ts (q_messages q))"

text \<open>The books of a queue.\<close>

definition que_ok :: "msg_queue \<Rightarrow> bool" where
  "que_ok q \<longleftrightarrow> q_qnum q = of_nat (length (q_messages q)) \<and> q_cbytes q = word_of_int (que_bytes q) \<and>
     (\<forall>m\<in>set (q_messages q). msg_shape m) \<and> distinct (q_receivers q) \<and> distinct (q_senders q)"

definition slot_msgs :: "msg_sys \<Rightarrow> nat \<Rightarrow> int" where
  "slot_msgs s i = (case slot (msg_ids s) i of None \<Rightarrow> 0
     | Some p \<Rightarrow> (case msqs s p of None \<Rightarrow> 0 | Some q \<Rightarrow> int (length (q_messages q))))"

definition slot_bytes :: "msg_sys \<Rightarrow> nat \<Rightarrow> int" where
  "slot_bytes s i = (case slot (msg_ids s) i of None \<Rightarrow> 0
     | Some p \<Rightarrow> (case msqs s p of None \<Rightarrow> 0 | Some q \<Rightarrow> que_bytes q))"

definition totals_ok :: "msg_sys \<Rightarrow> bool" where
  "totals_ok s \<longleftrightarrow> msg_hdrs s = s32 (sum_list (map (slot_msgs s) [0..<32768])) \<and>
     msg_bytes s = s32 (sum_list (map (slot_bytes s) [0..<32768]))"

text \<open>An entry of the list of receivers, and one of the list of senders, of the queue at \<open>p\<close>.\<close>

definition rcv_entry :: "msg_sys \<Rightarrow> (task \<Rightarrow> msg_pc) \<Rightarrow> ptr \<Rightarrow> msg_queue \<Rightarrow> task \<Rightarrow> bool" where
  "rcv_entry s pcs p q t \<longleftrightarrow>
     (\<exists>n sz ty mode flg. pcs t = MSleep (Msgrcv_sleep n p sz ty mode flg)) \<and>
     (\<exists>r. msr s t = Some r \<and> r_msg r = Err (- EAGAIN) \<and>
          (\<forall>m\<in>set (q_messages q). \<not> testmsg m (r_msgtype r) (r_mode r)))"

definition snd_entry :: "msg_sys \<Rightarrow> (task \<Rightarrow> msg_pc) \<Rightarrow> ptr \<Rightarrow> task \<Rightarrow> bool" where
  "snd_entry s pcs p t \<longleftrightarrow> mss s t \<and> (\<exists>n m sz flg. pcs t = MSleep (Msgsnd_sleep n p m sz flg))"

definition msqid_ok :: "int \<Rightarrow> bool" where
  "msqid_ok n \<longleftrightarrow> 0 \<le> n \<and> n < 2147483648"

text \<open>Where a task is agrees with what it has.\<close>

definition mpc_ok :: "msg_sys \<Rightarrow> task \<Rightarrow> msg_pc \<Rightarrow> bool" where
  "mpc_ok s t pc =
     (case pc of
        MIdle \<Rightarrow> msr s t = None \<and> \<not> mss s t
      | MSleep (Msgsnd_sleep n p m sz flg) \<Rightarrow>
          msr s t = None \<and> msqid_ok n \<and> msg_shape m \<and> m_ts m = sint sz \<and>
          (mss s t \<longrightarrow> msg_has_id s p n \<and> (\<exists>q. msqs s p = Some q \<and> t \<in> set (q_senders q)))
      | MSleep (Msgrcv_sleep n p sz ty mode flg) \<Rightarrow>
          \<not> mss s t \<and> msqid_ok n \<and> 0 \<le> sint sz \<and>
          (\<exists>r. msr s t = Some r \<and> r_mode r = mode \<and> r_msgtype r = ty \<and>
             (case r_msg r of
                Err e \<Rightarrow> e = - EAGAIN \<longrightarrow> msg_has_id s p n \<and> (\<exists>q. msqs s p = Some q \<and> t \<in> set (q_receivers q))
              | Arrived m \<Rightarrow> msg_shape m)))"

definition msg_inv :: "msg_sys \<Rightarrow> (task \<Rightarrow> msg_pc) \<Rightarrow> bool" where
  "msg_inv s pcs \<longleftrightarrow> table_ok s \<and> totals_ok s \<and> (\<forall>t. mpc_ok s t (pcs t)) \<and>
     (\<forall>p q. msqs s p = Some q \<longrightarrow> que_ok q \<and> (\<forall>t\<in>set (q_receivers q). rcv_entry s pcs p q t) \<and>
                                 (\<forall>t\<in>set (q_senders q). snd_entry s pcs p t))"

lemma msg_invD:
  assumes "msg_inv s pcs"
  shows "table_ok s" "totals_ok s" "\<And>t. mpc_ok s t (pcs t)" "\<And>p q. msqs s p = Some q \<Longrightarrow> que_ok q"
    "\<And>p q t. msqs s p = Some q \<Longrightarrow> t \<in> set (q_receivers q) \<Longrightarrow> rcv_entry s pcs p q t"
    "\<And>p q t. msqs s p = Some q \<Longrightarrow> t \<in> set (q_senders q) \<Longrightarrow> snd_entry s pcs p t"
  using assms by (auto simp: msg_inv_def)

lemma table_okD:
  assumes "table_ok s"
  shows "ids_ok (msg_ids s)" "\<And>i p. slot (msg_ids s) i = Some p \<Longrightarrow> i < 32768"
    "\<And>i p. slot (msg_ids s) i = Some p \<Longrightarrow> \<exists>q. msqs s p = Some q"
    "\<And>p q. msqs s p = Some q \<Longrightarrow> \<exists>i. slot (msg_ids s) i = Some p"
    "\<And>p q. msqs s p = Some q \<Longrightarrow> unat (p_seq (q_perm q)) < 65536"
proof -
  show ok: "ids_ok (msg_ids s)" using assms by (simp add: table_ok_def)
  show "i < 32768" if "slot (msg_ids s) i = Some p" for i p
    using slot_in_range [OF that] ids_okD(2) [OF ok] by simp
  have live: "(\<exists>i. slot (msg_ids s) i = Some p) \<longleftrightarrow> msqs s p \<noteq> None" for p
    using assms unfolding table_ok_def by blast
  show "\<exists>q. msqs s p = Some q" if "slot (msg_ids s) i = Some p" for i p using live [of p] that by blast
  show "\<exists>i. slot (msg_ids s) i = Some p" if "msqs s p = Some q" for p q using live [of p] that by simp
  show "unat (p_seq (q_perm q)) < 65536" if "msqs s p = Some q" for p q
    using assms that unfolding table_ok_def by blast
qed

section \<open>Locking\<close>

lemma msg_lock_slot: "table_ok s \<Longrightarrow> 0 \<le> n \<Longrightarrow> msg_lock n s = Some (slot (msg_ids s) (nat (n mod 32768)))"
  by (simp add: msg_lock_def it.lock_slot table_okD(1))

lemma msg_has_id_lock:
  assumes "table_ok s" "msg_has_id s p n"
  shows "msg_lock n s = Some (Some p)"
proof -
  obtain i q where i: "slot (msg_ids s) i = Some p" "msqs s p = Some q" "n = ipc_buildid (int i) (sint (p_seq (q_perm q)))"
    using assms(2) by (auto simp: msg_has_id_def)
  note b = buildid [OF table_okD(2) [OF assms(1) i(1)] table_okD(5) [OF assms(1) i(2)]]
  show ?thesis using msg_lock_slot [OF assms(1) b(2)] b(3) i by simp
qed

lemma msg_lock_cases:
  assumes ok: "table_ok s" and n: "msqid_ok n"
  shows "msg_lock n s = Some None \<or>
    (\<exists>p q. msg_lock n s = Some (Some p) \<and> slot (msg_ids s) (nat (n mod 32768)) = Some p \<and> msqs s p = Some q \<and>
           (\<not> ipc_checkid (q_perm q) n \<longrightarrow> msg_has_id s p n))"
proof (cases "slot (msg_ids s) (nat (n mod 32768))")
  case None
  then show ?thesis using msg_lock_slot [OF ok] n by (simp add: msqid_ok_def)
next
  case (Some p)
  then obtain q where q: "msqs s p = Some q" using table_okD(3) [OF ok] by blast
  note b = buildid(1) [OF table_okD(2) [OF ok Some] table_okD(5) [OF ok q]]
  have "n div 32768 = uint (p_seq (q_perm q)) \<Longrightarrow> n = ipc_buildid (int (nat (n mod 32768))) (sint (p_seq (q_perm q)))"
    using n mult_div_mod_eq [of 32768 n] unfolding b by (simp add: msqid_ok_def)
  then have "\<not> ipc_checkid (q_perm q) n \<Longrightarrow> msg_has_id s p n"
    using n checkid [of n "q_perm q"] Some q unfolding msg_has_id_def msqid_ok_def by auto
  then show ?thesis using msg_lock_slot [OF ok] n Some q by (simp add: msqid_ok_def)
qed

section \<open>Changes that keep the invariant\<close>

lemma msg_listed:
  assumes inv: "msg_inv s pcs" and q: "msqs s p = Some q" and t: "t \<in> set (q_receivers q) \<or> t \<in> set (q_senders q)"
  shows "pcs t \<noteq> MIdle" "msqs s p' = Some q' \<Longrightarrow> t \<in> set (q_receivers q') \<or> t \<in> set (q_senders q') \<Longrightarrow> p' = p"
    "t \<in> set (q_receivers q) \<Longrightarrow> t \<notin> set (q_senders q)"
proof -
  note e = msg_invD(5) [OF inv, of _ _ t] msg_invD(6) [OF inv, of _ _ t]
  show "pcs t \<noteq> MIdle" using e [OF q] t by (auto simp: rcv_entry_def snd_entry_def)
  show "p' = p" if "msqs s p' = Some q'" "t \<in> set (q_receivers q') \<or> t \<in> set (q_senders q')"
    using e [OF q] e [OF that(1)] t that(2) by (fastforce simp: rcv_entry_def snd_entry_def)
  show "t \<notin> set (q_senders q)" if "t \<in> set (q_receivers q)"
    using e [OF q] that by (fastforce simp: rcv_entry_def snd_entry_def)
qed

lemma msg_idle_away:
  assumes "msg_inv s pcs" "pcs t = MIdle" "msqs s p = Some q"
  shows "t \<notin> set (q_receivers q)" "t \<notin> set (q_senders q)"
  using msg_listed(1) [OF assms(1,3)] assms(2) by blast+

lemma totals_change:
  assumes ok: "totals_ok s" and i: "i < 32768"
    and m: "slot_msgs s' = (slot_msgs s)(i := a)" "msg_hdrs s' = s32 (msg_hdrs s + (a - slot_msgs s i))"
    and b: "slot_bytes s' = (slot_bytes s)(i := b)" "msg_bytes s' = s32 (msg_bytes s + (b - slot_bytes s i))"
  shows "totals_ok s'"
proof -
  have "s32 (s32 k + (a - x)) = s32 (k - x + a)" for k a x by (subst s32_add) (simp add: algebra_simps)
  then show ?thesis using ok unfolding totals_ok_def m b slots_sum_update [OF i] by simp
qed

lemma totals_s32:
  assumes "totals_ok s"
  shows "s32 (msg_hdrs s) = msg_hdrs s" "s32 (msg_bytes s) = msg_bytes s"
  using assms by (simp_all add: totals_ok_def)

lemma mpc_ok_same:
  assumes "msr s' t = msr s t" "mss s' t = mss s t"
    and "\<And>p n q. msg_has_id s p n \<Longrightarrow> msqs s p = Some q \<Longrightarrow> t \<in> set (q_receivers q) \<or> t \<in> set (q_senders q) \<Longrightarrow>
           msg_has_id s' p n \<and> (\<exists>q'. msqs s' p = Some q' \<and> (t \<in> set (q_receivers q) \<longrightarrow> t \<in> set (q_receivers q')) \<and>
                                     (t \<in> set (q_senders q) \<longrightarrow> t \<in> set (q_senders q')))"
    and ok: "mpc_ok s t pc"
  shows "mpc_ok s' t pc"
proof (cases pc)
  case MIdle
  then show ?thesis using assms by (simp add: mpc_ok_def)
next
  case (MSleep w)
  show ?thesis
  proof (cases w)
    case (Msgsnd_sleep n p m sz flg)
    then show ?thesis using ok assms(1,2) assms(3) [of p n] MSleep by (auto simp: mpc_ok_def)
  next
    case (Msgrcv_sleep n p sz ty mode flg)
    then obtain r where r: "msr s t = Some r" "r_mode r = mode" "r_msgtype r = ty" "msqid_ok n" "0 \<le> sint sz" "\<not> mss s t"
        "case r_msg r of Err e \<Rightarrow> e = - EAGAIN \<longrightarrow> msg_has_id s p n \<and> (\<exists>q. msqs s p = Some q \<and> t \<in> set (q_receivers q))
           | Arrived m \<Rightarrow> msg_shape m"
      using ok MSleep by (auto simp: mpc_ok_def)
    have "case r_msg r of Err e \<Rightarrow> e = - EAGAIN \<longrightarrow> msg_has_id s' p n \<and> (\<exists>q. msqs s' p = Some q \<and> t \<in> set (q_receivers q))
           | Arrived m \<Rightarrow> msg_shape m"
      using r(7) assms(3) [of p n] by (cases "r_msg r") auto
    then show ?thesis using r(1-6) assms(1,2) MSleep Msgrcv_sleep by (simp add: mpc_ok_def)
  qed
qed

text \<open>
  One queue \<open>p\<close> changes, and with it the tasks of a set \<open>T\<close>, none of which is on a list of
  another queue; to a task that stays on its list of receivers no new message is acceptable.
\<close>

lemma msg_entries_change:
  assumes inv: "msg_inv s pcs" and q: "msqs s p = Some q" and st: "msqs s' = (msqs s)(p \<mapsto> q')"
    and same: "\<And>t. t \<notin> T \<Longrightarrow> msr s' t = msr s t \<and> mss s' t = mss s t \<and> pcs' t = pcs t \<and>
       (t \<in> set (q_receivers q') \<longleftrightarrow> t \<in> set (q_receivers q)) \<and> (t \<in> set (q_senders q') \<longleftrightarrow> t \<in> set (q_senders q))"
    and away: "\<And>t p' q''. t \<in> T \<Longrightarrow> msqs s p' = Some q'' \<Longrightarrow> t \<in> set (q_receivers q'') \<or> t \<in> set (q_senders q'') \<Longrightarrow> p' = p"
    and T: "\<And>t. t \<in> T \<Longrightarrow> (t \<in> set (q_receivers q') \<longrightarrow> rcv_entry s' pcs' p q' t) \<and>
       (t \<in> set (q_senders q') \<longrightarrow> snd_entry s' pcs' p t)"
    and new: "\<And>t r m. t \<in> set (q_receivers q) \<Longrightarrow> t \<notin> T \<Longrightarrow> msr s t = Some r \<Longrightarrow> m \<in> set (q_messages q') \<Longrightarrow>
       m \<notin> set (q_messages q) \<Longrightarrow> \<not> testmsg m (r_msgtype r) (r_mode r)"
    and p': "msqs s' p' = Some q''"
  shows "t \<in> set (q_receivers q'') \<Longrightarrow> rcv_entry s' pcs' p' q'' t" "t \<in> set (q_senders q'') \<Longrightarrow> snd_entry s' pcs' p' t"
proof -
  note I = msg_invD(5,6) [OF inv]
  show "rcv_entry s' pcs' p' q'' t" if t: "t \<in> set (q_receivers q'')"
  proof (cases "p' = p")
    case True
    then have e: "q'' = q'" using p' st by simp
    show ?thesis
    proof (cases "t \<in> T")
      case False
      then have "t \<in> set (q_receivers q)" using same t e by simp
      moreover from this obtain r where "msr s t = Some r" "r_msg r = Err (- EAGAIN)"
          "\<forall>m\<in>set (q_messages q). \<not> testmsg m (r_msgtype r) (r_mode r)" "\<exists>n sz ty mode flg. pcs t = MSleep (Msgrcv_sleep n p sz ty mode flg)"
        using I(1) [OF q] unfolding rcv_entry_def by blast
      ultimately show ?thesis using same [OF False] new [OF _ False] unfolding e True rcv_entry_def by (metis (no_types))
    qed (use T t e True in simp)
  next
    case False
    then have old: "msqs s p' = Some q''" using p' st by simp
    then have "t \<notin> T" using away t False by blast
    then show ?thesis using I(1) [OF old t] same [of t] by (simp add: rcv_entry_def)
  qed
  show "snd_entry s' pcs' p' t" if "t \<in> set (q_senders q'')"
  proof (cases "t \<in> T")
    case True
    then have "p' = p" using away [OF True, of p' q''] that p' st by (auto split: if_splits)
    then show ?thesis using T [OF True] that p' st by simp
  next
    case False
    then show ?thesis using I(2) [of p' q'' t] I(2) [OF q, of t] same [of t] that p' st by (auto simp: snd_entry_def split: if_splits)
  qed
qed

lemma msg_inv_change:
  assumes inv: "msg_inv s pcs" and q: "msqs s p = Some q"
    and ids: "msg_ids s' = msg_ids s" and st: "msqs s' = (msqs s)(p \<mapsto> q')" and sq: "p_seq (q_perm q') = p_seq (q_perm q)"
    and ok: "que_ok q'"
    and hdrs: "msg_hdrs s' = s32 (msg_hdrs s + (int (length (q_messages q')) - int (length (q_messages q))))"
    and bytes: "msg_bytes s' = s32 (msg_bytes s + (que_bytes q' - que_bytes q))"
    and same: "\<And>t. t \<notin> T \<Longrightarrow> msr s' t = msr s t \<and> mss s' t = mss s t \<and> pcs' t = pcs t \<and>
       (t \<in> set (q_receivers q') \<longleftrightarrow> t \<in> set (q_receivers q)) \<and> (t \<in> set (q_senders q') \<longleftrightarrow> t \<in> set (q_senders q))"
    and away: "\<And>t p' q''. t \<in> T \<Longrightarrow> msqs s p' = Some q'' \<Longrightarrow> t \<in> set (q_receivers q'') \<or> t \<in> set (q_senders q'') \<Longrightarrow> p' = p"
    and T: "\<And>t. t \<in> T \<Longrightarrow> mpc_ok s' t (pcs' t) \<and> (t \<in> set (q_receivers q') \<longrightarrow> rcv_entry s' pcs' p q' t) \<and>
       (t \<in> set (q_senders q') \<longrightarrow> snd_entry s' pcs' p t)"
    and new: "\<And>t r m. t \<in> set (q_receivers q) \<Longrightarrow> t \<notin> T \<Longrightarrow> msr s t = Some r \<Longrightarrow> m \<in> set (q_messages q') \<Longrightarrow>
       m \<notin> set (q_messages q) \<Longrightarrow> \<not> testmsg m (r_msgtype r) (r_mode r)"
  shows "msg_inv s' pcs'"
proof -
  note I = msg_invD [OF inv]
  obtain i where i: "slot (msg_ids s) i = Some p" using table_okD(4) [OF I(1) q] by blast
  have u: "slot (msg_ids s) j = Some p \<longleftrightarrow> j = i" for j using i it.slot_inj [OF table_okD(1) [OF I(1)]] by blast
  then have u': "j \<noteq> i \<Longrightarrow> slot (msg_ids s) j \<noteq> Some p" for j by blast
  have tab: "table_ok s'"
    using I(1) q sq table_okD(5) [OF I(1) q] unfolding table_ok_def ids st by auto
  have id: "msg_has_id s' = msg_has_id s"
    using q sq unfolding msg_has_id_def ids st fun_eq_iff by (auto split: if_splits)
  have "totals_ok s'"
  proof (rule totals_change [OF I(2) table_okD(2) [OF I(1) i]])
    show "slot_msgs s' = (slot_msgs s)(i := int (length (q_messages q')))" "slot_bytes s' = (slot_bytes s)(i := que_bytes q')"
      using u' i by (auto simp: slot_msgs_def slot_bytes_def ids st fun_eq_iff split: option.splits)
    show "msg_hdrs s' = s32 (msg_hdrs s + (int (length (q_messages q')) - slot_msgs s i))"
      "msg_bytes s' = s32 (msg_bytes s + (que_bytes q' - slot_bytes s i))"
      by (simp_all add: hdrs bytes slot_msgs_def slot_bytes_def i q)
  qed
  moreover have "mpc_ok s' t (pcs' t)" for t
  proof (cases "t \<in> T")
    case False
    have "mpc_ok s' t (pcs t)" by (rule mpc_ok_same [OF _ _ _ I(3)]) (use same [OF False] id st q in auto)
    then show ?thesis using same [OF False] by simp
  qed (use T in blast)
  moreover have "rcv_entry s' pcs' p' q'' t" if "msqs s' p' = Some q''" "t \<in> set (q_receivers q'')" for p' q'' t
    by (rule msg_entries_change(1) [OF inv q st same away _ new that]) (use T in blast)+
  moreover have "snd_entry s' pcs' p' t" if "msqs s' p' = Some q''" "t \<in> set (q_senders q'')" for p' q'' t
    by (rule msg_entries_change(2) [OF inv q st same away _ new that]) (use T in blast)+
  moreover have "que_ok q''" if "msqs s' p' = Some q''" for p' q''
    using that I(4) [of p'] ok unfolding st by (auto split: if_splits)
  ultimately show ?thesis using tab unfolding msg_inv_def by blast
qed

text \<open>Only the lists of the queue \<open>p\<close> change, and where the task \<open>t\<close> is.\<close>

lemma msg_inv_relist:
  assumes inv: "msg_inv s pcs" and q: "msqs s p = Some q"
    and s': "msg_ids s' = msg_ids s" "msqs s' = (msqs s)(p \<mapsto> q')" "msg_hdrs s' = msg_hdrs s" "msg_bytes s' = msg_bytes s"
    and q': "q_messages q' = q_messages q" "q_qnum q' = q_qnum q" "q_cbytes q' = q_cbytes q" "p_seq (q_perm q') = p_seq (q_perm q)"
      "distinct (q_receivers q')" "distinct (q_senders q')"
      "set (q_receivers q') - {t} = set (q_receivers q) - {t}" "set (q_senders q') - {t} = set (q_senders q) - {t}"
    and same: "\<And>t'. t' \<noteq> t \<Longrightarrow> msr s' t' = msr s t' \<and> mss s' t' = mss s t' \<and> pcs' t' = pcs t'"
    and away: "pcs t = MIdle \<or> t \<in> set (q_receivers q) \<or> t \<in> set (q_senders q)"
    and t: "mpc_ok s' t (pcs' t)" "t \<in> set (q_receivers q') \<Longrightarrow> rcv_entry s' pcs' p q' t"
      "t \<in> set (q_senders q') \<Longrightarrow> snd_entry s' pcs' p t"
  shows "msg_inv s' pcs'"
proof (rule msg_inv_change [OF inv q s'(1,2) q'(4), where T = "{t}"])
  show "que_ok q'" using msg_invD(4) [OF inv q] q'(1-6) by (simp add: que_ok_def que_bytes_def)
  show "msg_hdrs s' = s32 (msg_hdrs s + (int (length (q_messages q')) - int (length (q_messages q))))"
    "msg_bytes s' = s32 (msg_bytes s + (que_bytes q' - que_bytes q))"
    using totals_s32 [OF msg_invD(2) [OF inv]] by (simp_all add: s'(3,4) que_bytes_def q'(1))
  show "p' = p" if "t' \<in> {t}" "msqs s p' = Some q''" "t' \<in> set (q_receivers q'') \<or> t' \<in> set (q_senders q'')" for t' p' q''
    using away msg_listed(2) [OF inv q, of t p' q''] msg_listed(1) [OF inv that(2), of t] that by auto
qed (use same q' t in auto)

text \<open>Only the task \<open>t\<close> changes, which is on no list.\<close>

lemma msg_inv_task:
  assumes inv: "msg_inv s pcs"
    and st: "msg_ids s' = msg_ids s" "msqs s' = msqs s" "msg_hdrs s' = msg_hdrs s" "msg_bytes s' = msg_bytes s"
    and same: "\<And>t'. t' \<noteq> t \<Longrightarrow> msr s' t' = msr s t' \<and> mss s' t' = mss s t' \<and> pcs' t' = pcs t'"
    and away: "\<And>p q. msqs s p = Some q \<Longrightarrow> t \<notin> set (q_receivers q) \<and> t \<notin> set (q_senders q)"
    and t: "mpc_ok s' t (pcs' t)"
  shows "msg_inv s' pcs'"
proof -
  note I = msg_invD [OF inv]
  have id: "msg_has_id s' = msg_has_id s" by (simp add: msg_has_id_def fun_eq_iff st)
  have "table_ok s'" "totals_ok s'" using I(1,2) unfolding table_ok_def totals_ok_def slot_msgs_def slot_bytes_def st by simp_all
  moreover have "mpc_ok s' t' (pcs' t')" for t'
  proof (cases "t' = t")
    case False
    have "mpc_ok s' t' (pcs t')" by (rule mpc_ok_same [OF _ _ _ I(3)]) (use same [OF False] id st in auto)
    then show ?thesis using same [OF False] by simp
  qed (use t in simp)
  moreover have "rcv_entry s' pcs' p q t'" if "msqs s p = Some q" "t' \<in> set (q_receivers q)" for p q t'
    using I(5) [OF that] away [OF that(1)] that(2) same [of t'] by (cases "t' = t") (auto simp: rcv_entry_def)
  moreover have "snd_entry s' pcs' p t'" if "msqs s p = Some q" "t' \<in> set (q_senders q)" for p q t'
    using I(6) [OF that] away [OF that(1)] that(2) same [of t'] by (cases "t' = t") (auto simp: snd_entry_def)
  ultimately show ?thesis using I(4) unfolding msg_inv_def st(2) by blast
qed

lemma msg_inv_cong:
  assumes inv: "msg_inv s pcs"
    and st: "msg_ids s' = msg_ids s" "msqs s' = msqs s" "msg_hdrs s' = msg_hdrs s" "msg_bytes s' = msg_bytes s"
      "msr s' = msr s" "mss s' = mss s"
  shows "msg_inv s' pcs"
proof -
  have id: "msg_has_id s' = msg_has_id s" by (simp add: msg_has_id_def fun_eq_iff st)
  have "mpc_ok s' t pc = mpc_ok s t pc" for t pc unfolding mpc_ok_def st id by simp
  then show ?thesis
    using inv unfolding msg_inv_def table_ok_def totals_ok_def slot_msgs_def slot_bytes_def rcv_entry_def snd_entry_def st by simp
qed

text \<open>The queue \<open>p\<close> in slot \<open>i\<close> goes away, and the tasks on its lists are told so.\<close>

lemma msg_inv_remove:
  assumes inv: "msg_inv s pcs" and i: "slot (msg_ids s) i = Some p" and q: "msqs s p = Some q"
    and ids: "ids_ok (msg_ids s')" "slot (msg_ids s') = (slot (msg_ids s))(i := None)" and st: "msqs s' = (msqs s)(p := None)"
    and hdrs: "msg_hdrs s' = s32 (msg_hdrs s - int (length (q_messages q)))"
    and bytes: "msg_bytes s' = s32 (msg_bytes s - que_bytes q)"
    and msr: "msr s' = (\<lambda>t. if t \<in> set (q_receivers q) then map_option (\<lambda>r. r\<lparr>r_msg := Err (- EIDRM)\<rparr>) (msr s t) else msr s t)"
    and mss: "mss s' = (\<lambda>t. mss s t \<and> t \<notin> set (q_senders q))"
  shows "msg_inv s' pcs"
proof -
  note I = msg_invD [OF inv]
  have u: "slot (msg_ids s) j = Some p \<longleftrightarrow> j = i" for j using i it.slot_inj [OF table_okD(1) [OF I(1)]] by blast
  then have u': "j \<noteq> i \<Longrightarrow> slot (msg_ids s) j \<noteq> Some p" for j by blast
  have sl: "slot (msg_ids s') j = Some p' \<longleftrightarrow> slot (msg_ids s) j = Some p'" if "p' \<noteq> p" for j p'
    using i that unfolding ids(2) by auto
  have live: "(\<exists>j. slot (msg_ids s') j = Some p') \<longleftrightarrow> msqs s' p' \<noteq> None" for p'
  proof (cases "p' = p")
    case False
    then show ?thesis using sl I(1) unfolding table_ok_def st by simp
  qed (auto simp: ids(2) st u)
  have tab: "table_ok s'"
    using ids(1) live table_okD(5) [OF I(1)] unfolding table_ok_def st by (auto split: if_splits)
  have id: "msg_has_id s p' n \<Longrightarrow> p' \<noteq> p \<Longrightarrow> msg_has_id s' p' n" for p' n
    using sl [of p'] unfolding msg_has_id_def st by simp
  have "totals_ok s'"
  proof (rule totals_change [OF I(2) table_okD(2) [OF I(1) i]])
    show "slot_msgs s' = (slot_msgs s)(i := 0)" "slot_bytes s' = (slot_bytes s)(i := 0)"
      using u' i by (auto simp: slot_msgs_def slot_bytes_def ids(2) st fun_eq_iff split: option.splits)
    show "msg_hdrs s' = s32 (msg_hdrs s + (0 - slot_msgs s i))" "msg_bytes s' = s32 (msg_bytes s + (0 - slot_bytes s i))"
      by (simp_all add: hdrs bytes slot_msgs_def slot_bytes_def i q)
  qed
  moreover have "mpc_ok s' t (pcs t)" for t
  proof (cases "t \<in> set (q_receivers q) \<or> t \<in> set (q_senders q)")
    case True
    then show ?thesis using I(3) [of t] I(5) [OF q, of t] I(6) [OF q, of t]
      by (auto simp: mpc_ok_def rcv_entry_def snd_entry_def msr mss split: msg_wait.splits)
  next
    case False
    then show ?thesis by (intro mpc_ok_same [OF _ _ _ I(3)]) (use id st q in \<open>auto simp: msr mss\<close>)
  qed
  moreover have "rcv_entry s' pcs p' q' t" if "msqs s' p' = Some q'" "t \<in> set (q_receivers q')" for p' q' t
    using I(5) [of p' q' t] that msg_listed(2) [OF inv q, of t p' q'] unfolding st by (auto simp: rcv_entry_def msr split: if_splits)
  moreover have "snd_entry s' pcs p' t" if "msqs s' p' = Some q'" "t \<in> set (q_senders q')" for p' q' t
    using I(6) [of p' q' t] that msg_listed(2) [OF inv q, of t p' q'] unfolding st by (auto simp: snd_entry_def mss split: if_splits)
  moreover have "que_ok q'" if "msqs s' p' = Some q'" for p' q' using that I(4) [of p'] unfolding st by (auto split: if_splits)
  ultimately show ?thesis using tab unfolding msg_inv_def by blast
qed

text \<open>An empty queue \<open>p\<close> in slot \<open>i\<close>.\<close>

lemma msg_inv_add:
  assumes inv: "msg_inv s pcs" and i: "slot (msg_ids s) i = None" "i < 32768" and p: "msqs s p = None"
    and ids: "ids_ok (msg_ids s')" "slot (msg_ids s') = (slot (msg_ids s))(i := Some p)" and st: "msqs s' = (msqs s)(p \<mapsto> q)"
    and q: "q_messages q = []" "q_receivers q = []" "q_senders q = []" "q_qnum q = 0" "q_cbytes q = 0"
      "unat (p_seq (q_perm q)) < 65536"
    and same: "msg_hdrs s' = msg_hdrs s" "msg_bytes s' = msg_bytes s" "msr s' = msr s" "mss s' = mss s"
  shows "msg_inv s' pcs"
proof -
  note I = msg_invD [OF inv]
  have u: "slot (msg_ids s) j \<noteq> Some p" for j using table_okD(3) [OF I(1)] p by fastforce
  have live: "(\<exists>j. slot (msg_ids s') j = Some p') \<longleftrightarrow> msqs s' p' \<noteq> None" for p'
  proof (cases "p' = p")
    case False
    then have "slot (msg_ids s') j = Some p' \<longleftrightarrow> slot (msg_ids s) j = Some p'" for j using i(1) unfolding ids(2) by auto
    then show ?thesis using False I(1) unfolding table_ok_def st by simp
  qed (auto simp: ids(2) st)
  have tab: "table_ok s'"
    using ids(1) live q(6) table_okD(5) [OF I(1)] unfolding table_ok_def st by (auto split: if_splits)
  have id: "msg_has_id s p' n \<Longrightarrow> msg_has_id s' p' n" for p' n
    using i(1) p unfolding msg_has_id_def ids(2) st by (auto split: if_splits) (metis option.distinct(1) option.inject)
  have z: "slot_msgs s i = 0" "slot_bytes s i = 0" by (simp_all add: slot_msgs_def slot_bytes_def i)
  have "totals_ok s'"
  proof (rule totals_change [OF I(2) i(2)])
    show "slot_msgs s' = (slot_msgs s)(i := 0)" "slot_bytes s' = (slot_bytes s)(i := 0)"
      using u q(1) by (auto simp: slot_msgs_def slot_bytes_def que_bytes_def ids(2) st fun_eq_iff split: option.splits)
  qed (simp_all add: same totals_s32 [OF I(2)] z)
  moreover have "mpc_ok s' t (pcs t)" for t
    by (rule mpc_ok_same [OF _ _ _ I(3)]) (use id st p same in auto)
  moreover have "rcv_entry s' pcs p' q' t" if "msqs s' p' = Some q'" "t \<in> set (q_receivers q')" for p' q' t
    using I(5) [of p' q' t] that q(2) unfolding st by (auto simp: rcv_entry_def same split: if_splits)
  moreover have "snd_entry s' pcs p' t" if "msqs s' p' = Some q'" "t \<in> set (q_senders q')" for p' q' t
    using I(6) [of p' q' t] that q(3) unfolding st by (auto simp: snd_entry_def same split: if_splits)
  moreover have "que_ok q'" if "msqs s' p' = Some q'" for p' q'
    using that I(4) [of p'] q unfolding st by (auto simp: que_ok_def que_bytes_def split: if_splits)
  ultimately show ?thesis using tab unfolding msg_inv_def by blast
qed

end
