(* ===== verification/MsgInv.thy ===== *)
theory MsgInv
  imports MsgSystem
begin

text \<open>
  Every call on message queues keeps the invariant of \<open>MsgSystem\<close>, at any interleaving. So no
  call faults, the counters are those of the messages that are stored, and no receiver
  misses a message.
\<close>

section \<open>Loops\<close>

lemma store_segs_total:
  assumes "seg_sizes (map length segs) n" "0 \<le> len" "nat len \<le> n"
  shows "store_segs wr off segs len \<noteq> None"
  using assms
proof (induction segs arbitrary: n off len)
  case Nil
  then show ?case by (simp add: store_segs.simps)
next
  case (Cons seg segs)
  show ?case
  proof (cases "len > 0")
    case True
    define alen where "alen = (if len > DATALEN_SEG then DATALEN_SEG else len)"
    have alen: "0 < alen" "alen \<le> len" "nat alen = min (nat len) 4092" "nat (len - alen) = nat len - nat alen"
      using True by (auto simp: alen_def DATALEN_SEG_def nat_diff_distrib)
    have seg: "length seg = min n 4092" "seg_sizes (map length segs) (n - length seg)" using Cons.prems(1) by auto
    have "nat (len - alen) \<le> n - length seg" using alen(3,4) seg(1) diff_le_mono [OF Cons.prems(3), of 4092] Cons.prems(3) by (simp add: min_def)
    then have "store_segs wr (off + nat alen) segs (len - alen) \<noteq> None"
      using Cons.IH [OF seg(2), of "len - alen" "off + nat alen"] alen(2) by simp
    moreover have "copy_to_user wr off seg alen \<noteq> None"
      using alen(3) seg(1) Cons.prems(3) by (auto simp: copy_to_user_def)
    ultimately show ?thesis using True
      by (subst store_segs.simps) (auto simp: Let_def alen_def [symmetric])
  qed (use Cons.prems(2) in \<open>simp add: store_segs.simps\<close>)
qed

lemma store_msg_total:
  assumes "msg_shape msg" "0 \<le> len" "len \<le> m_ts msg"
  shows "store_msg wr msg len \<noteq> None"
proof -
  define alen where "alen = (if len > DATALEN_MSG then DATALEN_MSG else len)"
  have alen: "0 \<le> alen" "alen \<le> len" "nat alen = min (nat len) 4076" "nat (len - alen) = nat len - 4076" "nat len \<le> nat (m_ts msg)"
    using assms(2,3) by (auto simp: alen_def DATALEN_MSG_def)
  have "copy_to_user wr 0 (m_text msg) alen \<noteq> None" using assms(1) alen(3,5) by (auto simp: copy_to_user_def msg_shape_def)
  moreover have "store_segs wr (nat alen) (m_segs msg) (len - alen) \<noteq> None"
    by (rule store_segs_total [of _ "nat (m_ts msg) - 4076"]) (use assms(1) alen diff_le_mono [OF alen(5)] in \<open>auto simp: msg_shape_def\<close>)
  ultimately show ?thesis by (auto simp: store_msg_def Let_def alen_def [symmetric])
qed

lemma sint_uint_nonneg:
  assumes "0 \<le> sint (w :: u32)"
  shows "sint w = uint w"
proof -
  have "uint w < 2147483648" using assms by (simp add: sint_nonneg_u32 flip: nat_uint_eq)
  then show ?thesis by (simp add: sint_uint signed_take_bit_int_eq_self order_trans [of _ 0])
qed

lemma msgrcv_success_total:
  assumes m: "msg_shape msg" and sz: "0 \<le> sint (sz :: u32)"
  shows "\<exists>r. msgrcv_success msg sz put wr = Some r \<and> mafter r = MIdle"
proof -
  define n where "n = (if sz > word_of_int (m_ts msg) then word_of_int (m_ts msg) else sz)"
  have r: "0 \<le> m_ts msg" "m_ts msg < 2147483648" using m by (auto simp: msg_shape_def)
  then have w: "sint (word_of_int (m_ts msg) :: u32) = m_ts msg" by (simp add: signed_of_int signed_take_bit_int_eq_self)
  have "\<not> sz > word_of_int (m_ts msg) \<Longrightarrow> uint sz \<le> m_ts msg"
    using r by (simp add: word_less_def not_less uint_word_of_int)
  moreover have "uint sz = sint sz" using sint_uint_nonneg [OF sz] by simp
  ultimately have "0 \<le> sint n" "sint n \<le> m_ts msg" using w r sz by (auto simp: n_def)
  from store_msg_total [OF m this, of wr] show ?thesis
    by (auto simp: msgrcv_success_def Let_def n_def [symmetric] mafter_def)
qed

lemma ss_wakeup_eq: "\<exists>S. ss_wakeup ts kill s = s\<lparr>mss := \<lambda>t. mss s t \<and> \<not> (kill \<and> t \<in> set ts), mtsk_state := S\<rparr>"
proof (induction ts arbitrary: s)
  case Nil
  show ?case by (rule exI [of _ "mtsk_state s"]) simp
next
  case (Cons t ts)
  obtain S where "ss_wakeup (t # ts) kill s = (msg_wake_up t (if kill then s\<lparr>mss := (mss s)(t := False)\<rparr> else s))
      \<lparr>mss := \<lambda>t'. mss (msg_wake_up t (if kill then s\<lparr>mss := (mss s)(t := False)\<rparr> else s)) t' \<and> \<not> (kill \<and> t' \<in> set ts),
       mtsk_state := S\<rparr>"
    using Cons.IH by auto
  then show ?case by (intro exI [of _ S]) (auto simp: msg_wake_up_def fun_eq_iff)
qed

lemma expunge_eq:
  assumes "\<forall>t\<in>set ts. msr s t \<noteq> None"
  shows "\<exists>S. expunge ts e s =
    Some (s\<lparr>msr := \<lambda>t. if t \<in> set ts then map_option (\<lambda>r. r\<lparr>r_msg := Err e\<rparr>) (msr s t) else msr s t, mtsk_state := S\<rparr>)"
  using assms
proof (induction ts arbitrary: s)
  case Nil
  show ?case by (rule exI [of _ "mtsk_state s"]) simp
next
  case (Cons t ts)
  obtain r where r: "msr s t = Some r" using Cons.prems by auto
  define s1 where "s1 = msg_wake_up t (s\<lparr>msr := (msr s)(t \<mapsto> r\<lparr>r_msg := Err e\<rparr>)\<rparr>)"
  have "\<forall>t\<in>set ts. msr s1 t \<noteq> None" using Cons.prems by (auto simp: s1_def msg_wake_up_def)
  from Cons.IH [OF this] obtain S where S: "expunge ts e s1 =
      Some (s1\<lparr>msr := \<lambda>t. if t \<in> set ts then map_option (\<lambda>r. r\<lparr>r_msg := Err e\<rparr>) (msr s1 t) else msr s1 t, mtsk_state := S\<rparr>)" ..
  have "(\<lambda>t'. if t' \<in> set ts then map_option (\<lambda>r. r\<lparr>r_msg := Err e\<rparr>) (msr s1 t') else msr s1 t') =
      (\<lambda>t'. if t' \<in> set (t # ts) then map_option (\<lambda>r. r\<lparr>r_msg := Err e\<rparr>) (msr s t') else msr s t')"
    using r by (auto simp: s1_def msg_wake_up_def fun_eq_iff)
  with S r show ?case by (intro exI [of _ S]) (simp add: s1_def msg_wake_up_def)
qed

lemma free_messages_eq:
  assumes "s32 (msg_hdrs s) = msg_hdrs s"
  shows "free_messages ms s = s\<lparr>msg_hdrs := s32 (msg_hdrs s - int (length ms))\<rparr>"
  using assms
proof (induction ms arbitrary: s)
  case (Cons m ms)
  have "s32 (s32 (msg_hdrs s - 1) - int (length ms)) = s32 (msg_hdrs s - int (length (m # ms)))"
    using s32_add [of "msg_hdrs s - 1" "- int (length ms)"] by (simp add: algebra_simps)
  then show ?case using Cons.IH [of "s\<lparr>msg_hdrs := s32 (msg_hdrs s - 1)\<rparr>"] by simp
qed simp

lemma search_loop_none:
  "search_loop mode ty ms k None = (None, ty') \<Longrightarrow> ty' = ty \<and> (\<forall>m\<in>set ms. \<not> testmsg m ty mode)"
proof (induction ms arbitrary: k)
  case (Cons m ms)
  have some: "fst (search_loop mode ty ms k (Some i)) \<noteq> None" for ty ms k i
    by (induction ms arbitrary: ty k i) auto
  show ?case using Cons.prems Cons.IH [of "Suc k"] some [of "m_type m - 1" ms "Suc k" k] by (auto split: if_splits)
qed simp

lemma search_loop_some:
  "search_loop mode ty ms k found = (Some i, ty') \<Longrightarrow> found = Some i \<or> (k \<le> i \<and> i < k + length ms)"
proof (induction ms arbitrary: k ty found)
  case (Cons m ms)
  show ?case using Cons.prems Cons.IH [of _ "Suc k"] by (fastforce split: if_splits)
qed simp

section \<open>Sending\<close>

definition msg_good :: "(task \<Rightarrow> msg_pc) \<Rightarrow> task \<Rightarrow> (msg_ret \<times> msg_sys) option \<Rightarrow> bool" where
  "msg_good pcs t res \<longleftrightarrow> (\<exists>r s'. res = Some (r, s') \<and> msg_inv s' (pcs(t := mafter r)))"

lemma msg_goodI: "msg_inv s (pcs(t := mafter r)) \<Longrightarrow> msg_good pcs t (Some (r, s))"
  by (simp add: msg_good_def)

lemma msg_good_ret [simp]: "pcs t = MIdle \<Longrightarrow> msg_inv s pcs \<Longrightarrow> msg_good pcs t (Some (MRet n, s))"
  by (simp add: msg_good_def mafter_def fun_upd_idem)

text \<open>A queue's fields that no invariant speaks of.\<close>

lemma msg_inv_stamp:
  assumes inv: "msg_inv s pcs" and q: "msqs s p = Some q"
    and q': "q_messages q' = q_messages q" "q_receivers q' = q_receivers q" "q_senders q' = q_senders q"
      "q_qnum q' = q_qnum q" "q_cbytes q' = q_cbytes q" "p_seq (q_perm q') = p_seq (q_perm q)"
  shows "msg_inv (put_msq p q' s) pcs"
  using totals_s32 [OF msg_invD(2) [OF inv]] msg_invD(4) [OF inv q]
  by (intro msg_inv_change [OF inv q, where T = "{}" and q' = q']) (simp_all add: put_msq_def que_ok_def que_bytes_def q')

text \<open>A receiver leaves the list with an answer.\<close>

lemma msg_inv_answer:
  assumes inv: "msg_inv s pcs" and q: "msqs s p = Some q" and t: "t \<in> set (q_receivers q)" "msr s t = Some r"
    and a: "case a of Err e \<Rightarrow> e \<noteq> - EAGAIN | Arrived m \<Rightarrow> msg_shape m"
    and q': "q_messages q' = q_messages q" "q_receivers q' = remove1 t (q_receivers q)" "q_senders q' = q_senders q"
      "q_qnum q' = q_qnum q" "q_cbytes q' = q_cbytes q" "p_seq (q_perm q') = p_seq (q_perm q)"
    and s': "s' = msg_wake_up t (put_msq p q' (s\<lparr>msr := (msr s)(t \<mapsto> r\<lparr>r_msg := a\<rparr>)\<rparr>))"
  shows "msg_inv s' pcs"
proof (rule msg_inv_relist [OF inv q, where t = t and q' = q'])
  note ok = msg_invD(4) [OF inv q]
  show "distinct (q_receivers q')" "distinct (q_senders q')" "set (q_receivers q') - {t} = set (q_receivers q) - {t}"
    "set (q_senders q') - {t} = set (q_senders q) - {t}" using ok by (auto simp: que_ok_def q')
  obtain n sz ty mode flg where pc: "pcs t = MSleep (Msgrcv_sleep n p sz ty mode flg)"
    using msg_invD(5) [OF inv q t(1)] by (auto simp: rcv_entry_def)
  show "mpc_ok s' t (pcs t)"
    using msg_invD(3) [OF inv, of t] t(2) a unfolding pc by (auto simp: mpc_ok_def s' msg_upd_defs split: r_msg.splits)
  show "rcv_entry s' pcs p q' t" if "t \<in> set (q_receivers q')" using that ok by (simp add: que_ok_def q')
  show "snd_entry s' pcs p t" if "t \<in> set (q_senders q')" using that msg_listed(3) [OF inv q _ t(1)] t(1) by (simp add: q')
qed (use t in \<open>simp_all add: s' msg_upd_defs q'\<close>)

text \<open>
  The loop of \<open>pipelined_send\<close>, with the receivers \<open>pre\<close> behind it, which do not accept the message.
  When it finds no taker then no receiver that is left would accept the message.
\<close>

lemma pipelined_loop_ok:
  assumes "msg_inv s pcs" "msqs s p = Some q" "msg_shape msg" "q_receivers q = pre @ ts"
    "\<forall>t\<in>set pre. \<forall>r. msr s t = Some r \<longrightarrow> \<not> testmsg msg (r_msgtype r) (r_mode r)"
  shows "\<exists>b s' q'. pipelined_loop p msg ts s = Some (b, s') \<and> msg_inv s' pcs \<and> msqs s' p = Some q' \<and>
    (\<not> b \<longrightarrow> (\<forall>t\<in>set (q_receivers q'). \<forall>r. msr s' t = Some r \<longrightarrow> \<not> testmsg msg (r_msgtype r) (r_mode r)))"
  using assms
proof (induction ts arbitrary: s q pre)
  case (Cons t ts)
  note inv = Cons.prems(1) and q = Cons.prems(2)
  have t: "t \<in> set (q_receivers q)" using Cons.prems(4) by simp
  obtain r where r: "msr s t = Some r" using msg_invD(5) [OF inv q t] by (auto simp: rcv_entry_def)
  have dist: "distinct (pre @ t # ts)" using msg_invD(4) [OF inv q] Cons.prems(4) by (simp add: que_ok_def)
  show ?case
  proof (cases "testmsg msg (r_msgtype r) (r_mode r)")
    case False
    then show ?thesis using Cons.IH [OF inv q Cons.prems(3), of "pre @ [t]"] Cons.prems(4,5) r by auto
  next
    case True
    let ?q = "q\<lparr>q_receivers := remove1 t (q_receivers q)\<rparr>"
    show ?thesis
    proof (cases "r_maxsize r < m_ts msg")
      case big: True
      define s1 where "s1 = msg_wake_up t (put_msq p ?q (s\<lparr>msr := (msr s)(t \<mapsto> r\<lparr>r_msg := Err (- E2BIG)\<rparr>)\<rparr>))"
      have inv1: "msg_inv s1 pcs" by (rule msg_inv_answer [OF inv q t r _ _ _ _ _ _ _ s1_def]) simp_all
      have q1: "msqs s1 p = Some ?q" by (simp add: s1_def msg_upd_defs)
      have "q_receivers ?q = pre @ ts" using Cons.prems(4) dist by (simp add: remove1_append)
      moreover have "\<forall>t'\<in>set pre. \<forall>r. msr s1 t' = Some r \<longrightarrow> \<not> testmsg msg (r_msgtype r) (r_mode r)"
        using Cons.prems(5) dist by (auto simp: s1_def msg_upd_defs)
      ultimately show ?thesis using Cons.IH [OF inv1 q1 Cons.prems(3)] True big r t q by (simp add: s1_def)
    next
      case False
      define s1 where "s1 = msg_wake_up t (put_msq p (?q\<lparr>q_lrpid := pid (mcreds s t), q_rtime := mcurrent_time s\<rparr>)
        (s\<lparr>msr := (msr s)(t \<mapsto> r\<lparr>r_msg := Arrived msg\<rparr>)\<rparr>))"
      have "msg_inv s1 pcs" by (rule msg_inv_answer [OF inv q t r _ _ _ _ _ _ _ s1_def]) (simp_all add: Cons.prems(3))
      then show ?thesis using True False r t q by (intro exI [of _ True]) (simp add: s1_def msg_upd_defs)
    qed
  qed
qed auto

lemma msg_inv_enqueue:
  assumes inv: "msg_inv s pcs" and q: "msqs s p = Some q" and m: "msg_shape msg" "m_ts msg = sint sz"
    and none: "\<forall>t\<in>set (q_receivers q). \<forall>r. msr s t = Some r \<longrightarrow> \<not> testmsg msg (r_msgtype r) (r_mode r)"
    and s': "s' = (put_msq p (q\<lparr>q_messages := q_messages q @ [msg], q_cbytes := q_cbytes q + sz, q_qnum := q_qnum q + 1\<rparr>) s)
             \<lparr>msg_bytes := s32 (msg_bytes s + uint sz), msg_hdrs := s32 (msg_hdrs s + 1)\<rparr>"
  shows "msg_inv s' pcs"
proof -
  let ?q = "q\<lparr>q_messages := q_messages q @ [msg], q_cbytes := q_cbytes q + sz, q_qnum := q_qnum q + 1\<rparr>"
  have "0 \<le> sint sz" using m by (simp add: msg_shape_def)
  then have sz: "uint sz = m_ts msg" using sint_uint_nonneg [of sz] m(2) by simp
  then have "sz = word_of_int (m_ts msg)" by (metis word_of_int_uint)
  then have "que_ok ?q" using msg_invD(4) [OF inv q] m(1) by (auto simp: que_ok_def que_bytes_def)
  then show ?thesis using none sz
    by (intro msg_inv_change [OF inv q, where T = "{}" and q' = ?q]) (auto simp: s' put_msq_def que_bytes_def)
qed

lemma msg_inv_sender:
  assumes inv: "msg_inv s pcs" and idle: "pcs t = MIdle" and q: "msqs s p = Some q"
    and id: "msg_has_id s p n" "msqid_ok n" and m: "msg_shape msg" "m_ts msg = sint sz"
    and s': "ss_add p t s = Some s'"
  shows "msg_inv s' (pcs(t := MSleep (Msgsnd_sleep n p msg sz flg)))" (is "msg_inv _ ?pcs")
proof (rule msg_inv_relist [OF inv q, where t = t])
  note ok = msg_invD(4) [OF inv q] and away = msg_idle_away [OF inv idle q]
  have e: "s' = put_msq p (q\<lparr>q_senders := q_senders q @ [t]\<rparr>)
      (s\<lparr>mss := (mss s)(t := True), mtsk_state := (mtsk_state s)(t := TASK_INTERRUPTIBLE)\<rparr>)" using s' q by (simp add: ss_add_def)
  have r: "msr s t = None" using msg_invD(3) [OF inv, of t] idle by (simp add: mpc_ok_def)
  have id': "msg_has_id s' p n" using id(1) q by (auto simp: e put_msq_def msg_has_id_def)
  show "msqs s' = (msqs s)(p \<mapsto> q\<lparr>q_senders := q_senders q @ [t]\<rparr>)" by (simp add: e put_msq_def)
  show "mpc_ok s' t (?pcs t)" using id' id(2) m r by (simp add: mpc_ok_def) (simp add: e put_msq_def)
  show "snd_entry s' ?pcs p t" by (simp add: snd_entry_def e put_msq_def)
  show "distinct (q_receivers (q\<lparr>q_senders := q_senders q @ [t]\<rparr>))" "distinct (q_senders (q\<lparr>q_senders := q_senders q @ [t]\<rparr>))"
    using ok away by (simp_all add: que_ok_def)
  show "rcv_entry s' ?pcs p (q\<lparr>q_senders := q_senders q @ [t]\<rparr>) t" if "t \<in> set (q_receivers (q\<lparr>q_senders := q_senders q @ [t]\<rparr>))"
    using that away by simp
qed (use s' q idle in \<open>auto simp: ss_add_def put_msq_def\<close>)

lemma msgsnd_try_ok:
  assumes inv: "msg_inv s pcs" and idle: "pcs t = MIdle" and q: "msqs s p = Some q"
    and id: "\<not> ipc_checkid (q_perm q) n \<longrightarrow> msg_has_id s p n" "msqid_ok n" and m: "msg_shape msg" "m_ts msg = sint sz"
  shows "msg_good pcs t (msgsnd_try t n p msg sz flg s)"
proof -
  consider "ipc_checkid (q_perm q) n \<or> ipcperms (mcreds s t) (q_perm q) S_IWUGO \<noteq> 0 \<or> (msgsnd_full sz q \<and> flg AND IPC_NOWAIT \<noteq> 0)"
    | (wait) "\<not> ipc_checkid (q_perm q) n" "ipcperms (mcreds s t) (q_perm q) S_IWUGO = 0" "msgsnd_full sz q" "flg AND IPC_NOWAIT = 0"
    | (send) "\<not> ipc_checkid (q_perm q) n" "ipcperms (mcreds s t) (q_perm q) S_IWUGO = 0" "\<not> msgsnd_full sz q" by auto
  then show ?thesis
  proof cases
    case 1
    then show ?thesis using q inv idle by (auto simp: msgsnd_try_def)
  next
    case wait
    obtain s' where s': "ss_add p t s = Some s'" using q by (simp add: ss_add_def)
    from msg_inv_sender [OF inv idle q _ id(2) m s'] wait id(1) q s' show ?thesis
      by (auto simp: msgsnd_try_def mafter_def intro!: msg_goodI)
  next
    case send
    define q1 where "q1 = q\<lparr>q_lspid := pid (mcreds s t), q_stime := mcurrent_time s\<rparr>"
    have inv1: "msg_inv (put_msq p q1 s) pcs" by (rule msg_inv_stamp [OF inv q]) (simp_all add: q1_def)
    have q1: "msqs (put_msq p q1 s) p = Some q1" by (simp add: put_msq_def)
    obtain b s2 q2 where l: "pipelined_loop p msg (q_receivers q1) (put_msq p q1 s) = Some (b, s2)" "msg_inv s2 pcs" "msqs s2 p = Some q2"
        "\<not> b \<longrightarrow> (\<forall>t\<in>set (q_receivers q2). \<forall>r. msr s2 t = Some r \<longrightarrow> \<not> testmsg msg (r_msgtype r) (r_mode r))"
      using pipelined_loop_ok [OF inv1 q1 m(1), of "[]" "q_receivers q1"] by auto
    then show ?thesis using q q1 send idle msg_inv_enqueue [OF l(2,3) m _ refl]
      by (auto simp: msgsnd_try_def pipelined_send_def Let_def q1_def [symmetric])
  qed
qed

lemma load_msg_msg_shape:
  assumes "load_msg user mem (sint sz) = Inr msg" "0 \<le> sint (sz :: u32)" "1 \<le> mtype"
  shows "msg_shape (msg\<lparr>m_type := mtype, m_ts := sint sz\<rparr>)"
  using load_msg_shape(2,3) [OF assms(1,2)] assms(2,3) sint_lt [of sz] by (simp add: msg_shape_def)

lemma sys_msgsnd_ok:
  assumes inv: "msg_inv s pcs" and idle: "pcs t = MIdle" and n: "in_int n"
  shows "msg_good pcs t (sys_msgsnd t n mtype user mem sz flg s)"
proof (cases "sz > word_of_int (msg_ctlmax s) \<or> sint sz < 0 \<or> n < 0 \<or> mtype = None \<or> the mtype < 1 \<or>
    (\<exists>e. load_msg user mem (sint sz) = Inl e)")
  case True
  then show ?thesis using inv idle by (auto simp: sys_msgsnd_def split: option.split)
next
  case False
  then obtain ty msg where l: "mtype = Some ty" "1 \<le> ty" "load_msg user mem (sint sz) = Inr msg" "0 \<le> sint sz"
    by (cases "load_msg user mem (sint sz)") auto
  have ok: "msqid_ok n" using n False by (simp add: msqid_ok_def in_int_def)
  note m = load_msg_msg_shape [OF l(3,4,2)]
  show ?thesis using msg_lock_cases [OF msg_invD(1) [OF inv] ok]
  proof (elim disjE exE conjE)
    fix p q assume p: "msg_lock n s = Some (Some p)" "msqs s p = Some q" "\<not> ipc_checkid (q_perm q) n \<longrightarrow> msg_has_id s p n"
    from msgsnd_try_ok [OF inv idle p(2,3) ok m] show ?thesis using p(1) False l by (simp add: sys_msgsnd_def)
  qed (use False l inv idle in \<open>simp add: sys_msgsnd_def\<close>)
qed

lemma msg_inv_wake_up: "msg_inv s pcs \<Longrightarrow> msg_inv (msg_wake_up t s) pcs"
  by (erule msg_inv_cong) (simp_all add: msg_wake_up_def)

lemma ss_del_ok:
  assumes inv: "msg_inv s pcs" and pc: "pcs t = MSleep (Msgsnd_sleep n p msg sz flg)"
  shows "\<exists>s'. ss_del p t s = Some s' \<and> msg_ids s' = msg_ids s \<and> msg_inv s' (pcs(t := MIdle))"
proof (cases "mss s t")
  case True
  note P = msg_invD(3) [OF inv, of t, unfolded pc mpc_ok_def, simplified]
  obtain q where q: "msqs s p = Some q" "t \<in> set (q_senders q)" using P True by auto
  define q' where "q' = q\<lparr>q_senders := remove1 t (q_senders q)\<rparr>"
  define s' where "s' = put_msq p q' (s\<lparr>mss := (mss s)(t := False)\<rparr>)"
  note ok = msg_invD(4) [OF inv q(1)]
  have "msg_inv s' (pcs(t := MIdle))"
  proof (rule msg_inv_relist [OF inv q(1), where t = t and q' = q'])
    show "distinct (q_receivers q')" "distinct (q_senders q')" "set (q_senders q') - {t} = set (q_senders q) - {t}"
      using ok by (auto simp: que_ok_def q'_def)
    show "mpc_ok s' t ((pcs(t := MIdle)) t)" using P by (auto simp: mpc_ok_def s'_def put_msq_def)
    show "rcv_entry s' (pcs(t := MIdle)) p q' t" if "t \<in> set (q_receivers q')"
      using that msg_listed(3) [OF inv q(1), of t] q(2) by (simp add: q'_def)
    show "snd_entry s' (pcs(t := MIdle)) p t" if "t \<in> set (q_senders q')" using that ok by (simp add: que_ok_def q'_def)
  qed (use q(2) in \<open>simp_all add: s'_def put_msq_def q'_def\<close>)
  then show ?thesis using True q by (simp add: ss_del_def s'_def q'_def put_msq_def)
next
  case False
  have "t \<notin> set (q_receivers q) \<and> t \<notin> set (q_senders q)" if "msqs s p' = Some q" for p' q
    using msg_invD(5,6) [OF inv that, of t] pc False by (auto simp: rcv_entry_def snd_entry_def)
  then have "msg_inv s (pcs(t := MIdle))"
    using msg_invD(3) [OF inv, of t] pc False by (intro msg_inv_task [OF inv, of _ t]) (auto simp: mpc_ok_def)
  then show ?thesis using False by (simp add: ss_del_def)
qed

lemma msg_good_upd: "msg_good (pcs(t := pc)) t = msg_good pcs t"
  by (simp add: msg_good_def fun_eq_iff)

lemma msgsnd_wakeup_ok:
  assumes inv: "msg_inv s pcs" and pc: "pcs t = MSleep (Msgsnd_sleep n p0 msg sz flg)"
  shows "msg_good pcs t (msgsnd_wakeup t n p0 msg sz flg sig s)"
proof -
  define s1 where "s1 = msg_wake_up t s"
  have inv1: "msg_inv s1 pcs" unfolding s1_def by (rule msg_inv_wake_up [OF inv])
  note P = msg_invD(3) [OF inv1, of t, unfolded pc mpc_ok_def, simplified]
  have ok: "msqid_ok n" and m: "msg_shape msg" "m_ts msg = sint sz" using P by auto
  obtain s2 where s2: "ss_del p0 t s1 = Some s2" "msg_ids s2 = msg_ids s1" "msg_inv s2 (pcs(t := MIdle))"
    using ss_del_ok [OF inv1 pc] by blast
  have ret: "msg_good pcs t (Some (MRet e, s2))" for e using s2(3) by (simp add: msg_good_def mafter_def)
  from msg_lock_cases [OF msg_invD(1) [OF s2(3)] ok] show ?thesis
  proof (elim disjE exE conjE)
    assume l: "msg_lock n s2 = Some None"
    then have l1: "msg_lock n s1 = Some None" using s2(2) by (simp add: msg_lock_def)
    then have "\<not> mss s1 t" using P msg_has_id_lock [OF msg_invD(1) [OF inv1], of p0 n] by auto
    then show ?thesis using l1 s2(1) ret by (simp add: msgsnd_wakeup_def s1_def [symmetric] ss_del_def)
  next
    fix p q assume l: "msg_lock n s2 = Some (Some p)" "msqs s2 p = Some q" "\<not> ipc_checkid (q_perm q) n \<longrightarrow> msg_has_id s2 p n"
    then have "msg_lock n s1 = Some (Some p)" using s2(2) by (simp add: msg_lock_def)
    then show ?thesis using s2(1) ret msgsnd_try_ok [OF s2(3) _ l(2,3) ok m, of t flg]
      by (simp add: msgsnd_wakeup_def s1_def [symmetric] msg_good_upd)
  qed
qed

section \<open>Receiving\<close>

lemma msg_inv_dequeue:
  assumes inv: "msg_inv s pcs" and q: "msqs s p = Some q" and i: "i < length (q_messages q)" and m: "m = q_messages q ! i"
    and q': "q_messages q' = take i (q_messages q) @ drop (Suc i) (q_messages q)" "q_qnum q' = q_qnum q - 1"
      "q_cbytes q' = q_cbytes q - word_of_int (m_ts m)" "q_receivers q' = q_receivers q" "q_senders q' = q_senders q"
      "p_seq (q_perm q') = p_seq (q_perm q)"
    and s': "s' = (put_msq p q' s)\<lparr>msg_bytes := s32 (msg_bytes s - m_ts m), msg_hdrs := s32 (msg_hdrs s - 1)\<rparr>"
  shows "msg_inv s' pcs"
proof -
  note ok = msg_invD(4) [OF inv q]
  define a where "a = take i (q_messages q)"
  define b where "b = drop (Suc i) (q_messages q)"
  have e: "q_messages q = a @ m # b" unfolding a_def b_def m by (rule id_take_nth_drop [OF i])
  have e': "q_messages q' = a @ b" by (simp add: q'(1) a_def b_def)
  have "que_ok q'" using ok by (simp add: que_ok_def que_bytes_def q'(2-5) e e')
  then show ?thesis
    by (intro msg_inv_change [OF inv q, where T = "{}" and q' = q']) (auto simp: s' put_msq_def que_bytes_def q'(4-6) e e')
qed

lemma msg_inv_receiver:
  assumes inv: "msg_inv s pcs" and idle: "pcs t = MIdle" and q: "msqs s p = Some q"
    and id: "msg_has_id s p n" "msqid_ok n" and sz: "0 \<le> sint sz"
    and none: "\<forall>m\<in>set (q_messages q). \<not> testmsg m ty mode"
    and r: "r_mode r = mode" "r_msgtype r = ty" "r_msg r = Err (- EAGAIN)"
    and s': "s' = (put_msq p (q\<lparr>q_receivers := q_receivers q @ [t]\<rparr>) s)\<lparr>msr := (msr s)(t \<mapsto> r), mtsk_state := S\<rparr>"
  shows "msg_inv s' (pcs(t := MSleep (Msgrcv_sleep n p sz ty mode flg)))" (is "msg_inv _ ?pcs")
proof (rule msg_inv_relist [OF inv q, where t = t])
  let ?q = "q\<lparr>q_receivers := q_receivers q @ [t]\<rparr>"
  note ok = msg_invD(4) [OF inv q] and away = msg_idle_away [OF inv idle q]
  have ms: "\<not> mss s t" using msg_invD(3) [OF inv, of t] idle by (simp add: mpc_ok_def)
  have id': "msg_has_id s' p n" using id(1) q by (auto simp: s' put_msq_def msg_has_id_def)
  show "msqs s' = (msqs s)(p \<mapsto> ?q)" by (simp add: s' put_msq_def)
  show "mpc_ok s' t (?pcs t)" using id' id(2) sz r ms by (simp add: mpc_ok_def) (simp add: s' put_msq_def r)
  show "rcv_entry s' ?pcs p ?q t" using none r by (simp add: rcv_entry_def s' put_msq_def)
  show "distinct (q_receivers ?q)" "distinct (q_senders ?q)" using ok away by (simp_all add: que_ok_def)
  show "snd_entry s' ?pcs p t" if "t \<in> set (q_senders ?q)" using that away by simp
qed (use idle in \<open>auto simp: s' put_msq_def\<close>)

lemma msgrcv_try_ok:
  assumes inv: "msg_inv s pcs" and idle: "pcs t = MIdle" and q: "msqs s p = Some q"
    and id: "\<not> ipc_checkid (q_perm q) n \<longrightarrow> msg_has_id s p n" "msqid_ok n" and sz: "0 \<le> sint sz"
  shows "msg_good pcs t (msgrcv_try t n p sz ty mode flg put wr s)"
proof (cases "ipc_checkid (q_perm q) n \<or> ipcperms (mcreds s t) (q_perm q) S_IRUGO \<noteq> 0")
  case True
  then show ?thesis using q inv idle by (auto simp: msgrcv_try_def)
next
  case ok: False
  obtain f ty' where f: "search_loop mode ty (q_messages q) 0 None = (f, ty')" by fastforce
  show ?thesis
  proof (cases f)
    case None
    note none = search_loop_none [OF f [unfolded None]]
    then show ?thesis using ok f None q inv idle msg_inv_receiver [OF inv idle q _ id(2) sz _ _ _ _ refl] id(1)
      by (auto simp: msgrcv_try_def Let_def mafter_def intro!: msg_goodI)
  next
    case (Some i)
    have i: "i < length (q_messages q)" using search_loop_some [OF f [unfolded Some]] by simp
    define m where "m = q_messages q ! i"
    have shape: "msg_shape m" using i msg_invD(4) [OF inv q] by (simp add: m_def que_ok_def)
    define q1 where "q1 = q\<lparr>q_messages := take i (q_messages q) @ drop (Suc i) (q_messages q), q_qnum := q_qnum q - 1,
        q_rtime := mcurrent_time s, q_lrpid := pid (mcreds s t), q_cbytes := q_cbytes q - word_of_int (m_ts m)\<rparr>"
    define s1 where "s1 = (put_msq p q1 s)\<lparr>msg_bytes := s32 (msg_bytes s - m_ts m), msg_hdrs := s32 (msg_hdrs s - 1)\<rparr>"
    have deq: "msg_inv s1 pcs" by (rule msg_inv_dequeue [OF inv q i m_def _ _ _ _ _ _ s1_def]) (simp_all add: q1_def)
    obtain S where S: "ss_wakeup (q_senders q) False s1 = s1\<lparr>mss := mss s1, mtsk_state := S\<rparr>"
      using ss_wakeup_eq [of "q_senders q" False s1] by auto
    have inv1: "msg_inv (ss_wakeup (q_senders q) False s1) pcs" unfolding S by (rule msg_inv_cong [OF deq]) simp_all
    obtain r where "msgrcv_success m sz put wr = Some r" "mafter r = MIdle" using msgrcv_success_total [OF shape sz] by blast
    then show ?thesis using ok f Some q inv idle inv1
      by (auto simp: msgrcv_try_def Let_def m_def [symmetric] q1_def [symmetric] s1_def [symmetric] fun_upd_idem intro!: msg_goodI)
  qed
qed

lemma sys_msgrcv_ok:
  assumes inv: "msg_inv s pcs" and idle: "pcs t = MIdle" and n: "in_int n"
  shows "msg_good pcs t (sys_msgrcv t n sz msgtyp flg put wr s)"
proof (cases "n < 0 \<or> sint sz < 0")
  case True
  then show ?thesis using inv idle by (auto simp: sys_msgrcv_def)
next
  case False
  then have ok: "msqid_ok n" and sz: "0 \<le> sint sz" using n by (auto simp: msqid_ok_def in_int_def)
  obtain ty mode where c: "convert_mode msgtyp flg = (ty, mode)" by fastforce
  show ?thesis using msg_lock_cases [OF msg_invD(1) [OF inv] ok]
  proof (elim disjE exE conjE)
    fix p q assume p: "msg_lock n s = Some (Some p)" "msqs s p = Some q" "\<not> ipc_checkid (q_perm q) n \<longrightarrow> msg_has_id s p n"
    from msgrcv_try_ok [OF inv idle p(2,3) ok sz] show ?thesis using p(1) False c by (simp add: sys_msgrcv_def)
  qed (use False c inv idle in \<open>simp add: sys_msgrcv_def\<close>)
qed

text \<open>A receiver takes itself off the list.\<close>

lemma msg_inv_leave:
  assumes inv: "msg_inv s pcs" and q: "msqs s p = Some q" and t: "t \<in> set (q_receivers q)"
    and s': "s' = put_msq p (q\<lparr>q_receivers := remove1 t (q_receivers q)\<rparr>) (s\<lparr>msr := (msr s)(t := None)\<rparr>)"
  shows "msg_inv s' (pcs(t := MIdle))"
proof (rule msg_inv_relist [OF inv q, where t = t])
  let ?q = "q\<lparr>q_receivers := remove1 t (q_receivers q)\<rparr>"
  note ok = msg_invD(4) [OF inv q]
  have ms: "\<not> mss s t" using msg_invD(3) [OF inv, of t] msg_invD(5) [OF inv q t] by (auto simp: mpc_ok_def rcv_entry_def)
  show "msqs s' = (msqs s)(p \<mapsto> ?q)" by (simp add: s' put_msq_def)
  show "distinct (q_receivers ?q)" "distinct (q_senders ?q)" "set (q_receivers ?q) - {t} = set (q_receivers q) - {t}"
    using ok by (auto simp: que_ok_def)
  show "mpc_ok s' t ((pcs(t := MIdle)) t)" using ms by (simp add: mpc_ok_def s' put_msq_def)
  show "rcv_entry s' (pcs(t := MIdle)) p ?q t" if "t \<in> set (q_receivers ?q)" using that ok by (simp add: que_ok_def)
  show "snd_entry s' (pcs(t := MIdle)) p t" if "t \<in> set (q_senders ?q)" using that msg_listed(3) [OF inv q _ t] t by simp
qed (use t in \<open>simp_all add: s' put_msq_def\<close>)

lemma msgrcv_gone:
  assumes inv: "msg_inv s pcs" and pc: "pcs t = MSleep (Msgrcv_sleep n p sz ty mode flg)"
    and r: "msr s t = Some r" "r_msg r \<noteq> Err (- EAGAIN)"
  shows "msg_inv (s\<lparr>msr := (msr s)(t := None)\<rparr>) (pcs(t := MIdle))"
proof (rule msg_inv_task [OF inv, of _ t])
  show "t \<notin> set (q_receivers q) \<and> t \<notin> set (q_senders q)" if "msqs s p' = Some q" for p' q
    using msg_invD(5,6) [OF inv that, of t] pc r by (auto simp: rcv_entry_def snd_entry_def)
qed (use msg_invD(3) [OF inv, of t] pc in \<open>auto simp: mpc_ok_def\<close>)

lemma msgrcv_wakeup_ok:
  assumes inv: "msg_inv s pcs" and pc: "pcs t = MSleep (Msgrcv_sleep n p sz ty mode flg)"
  shows "msg_good pcs t (msgrcv_wakeup t n p sz ty mode flg sig put wr s)"
proof -
  define s1 where "s1 = msg_wake_up t s"
  have inv1: "msg_inv s1 pcs" unfolding s1_def by (rule msg_inv_wake_up [OF inv])
  obtain r where r: "msr s1 t = Some r" "msqid_ok n" "0 \<le> sint sz"
      "case r_msg r of Err e \<Rightarrow> e = - EAGAIN \<longrightarrow> msg_has_id s1 p n \<and> (\<exists>q. msqs s1 p = Some q \<and> t \<in> set (q_receivers q))
         | Arrived m \<Rightarrow> msg_shape m"
    using msg_invD(3) [OF inv1, of t] pc by (auto simp: mpc_ok_def)
  show ?thesis
  proof (cases "r_msg r = Err (- EAGAIN)")
    case False
    note gone = msgrcv_gone [OF inv1 pc r(1) False]
    obtain l where l: "msg_lock n s1 = Some l" using msg_lock_cases [OF msg_invD(1) [OF inv1] r(2)] by blast
    show ?thesis
    proof (cases "r_msg r")
      case (Err e)
      then show ?thesis using False gone r(1) l
        by (auto simp: msgrcv_wakeup_def s1_def [symmetric] Let_def mafter_def intro!: msg_goodI)
    next
      case (Arrived m)
      then obtain ret where "msgrcv_success m sz put wr = Some ret" "mafter ret = MIdle"
        using msgrcv_success_total [of m sz put wr] r by auto
      then show ?thesis using Arrived gone r(1)
        by (auto simp: msgrcv_wakeup_def s1_def [symmetric] Let_def intro!: msg_goodI)
    qed
  next
    case True
    then obtain q where q: "msqs s1 p = Some q" "t \<in> set (q_receivers q)" and id: "msg_has_id s1 p n" using r(4) by auto
    note lock = msg_has_id_lock [OF msg_invD(1) [OF inv1] id]
    define s2 where "s2 = put_msq p (q\<lparr>q_receivers := remove1 t (q_receivers q)\<rparr>) (s1\<lparr>msr := (msr s1)(t := None)\<rparr>)"
    note inv2 = msg_inv_leave [OF inv1 q s2_def]
    have q2: "msqs s2 p = Some (q\<lparr>q_receivers := remove1 t (q_receivers q)\<rparr>)" by (simp add: s2_def put_msq_def)
    have "msg_has_id s2 p n" using id q by (auto simp: msg_has_id_def s2_def put_msq_def)
    then have "msg_good pcs t (msgrcv_try t n p sz ty mode flg put wr s2)"
      using msgrcv_try_ok [OF inv2 _ q2 _ r(2,3), of t ty mode flg put wr] by (simp add: msg_good_upd)
    moreover have "msg_good pcs t (Some (MRet e, s2))" for e using inv2 by (simp add: msg_good_def mafter_def)
    ultimately show ?thesis using True lock q r(1)
      by (simp add: msgrcv_wakeup_def s1_def [symmetric] s2_def [symmetric] Let_def)
  qed
qed

section \<open>Control and creation\<close>

lemma receivers_have_msr:
  assumes "msg_inv s pcs" "msqs s p = Some q"
  shows "\<forall>t\<in>set (q_receivers q). \<exists>r. msr s t = Some r \<and> r_msg r = Err (- EAGAIN)"
  using msg_invD(5) [OF assms] by (auto simp: rcv_entry_def)

lemma freeque_ok:
  assumes inv: "msg_inv s pcs" and n: "msqid_ok n" and p: "slot (msg_ids s) (nat (n mod 32768)) = Some p" and q: "msqs s p = Some q"
  shows "\<exists>s'. freeque n s = Some s' \<and> msg_inv s' pcs"
proof -
  obtain ids' where ids': "ipc_rmid (msg_ids s) n = Some (p, ids')" "ids_ok ids'"
      "slot ids' = (slot (msg_ids s))(nat (n mod 32768) := None)"
    using ipc_rmid_spec [OF table_okD(1) [OF msg_invD(1) [OF inv]] _ p] n by (auto simp: msqid_ok_def)
  define s1 where "s1 = s\<lparr>msg_ids := ids'\<rparr>"
  have "\<forall>t\<in>set (q_receivers q). msr s1 t \<noteq> None" using receivers_have_msr [OF inv q] by (auto simp: s1_def)
  from expunge_eq [OF this] obtain S where S: "expunge (q_receivers q) (- EIDRM) s1 = Some
      (s1\<lparr>msr := \<lambda>t. if t \<in> set (q_receivers q) then map_option (\<lambda>r. r\<lparr>r_msg := Err (- EIDRM)\<rparr>) (msr s1 t) else msr s1 t, mtsk_state := S\<rparr>)"
    (is "_ = Some ?s2") ..
  obtain S' where S': "ss_wakeup (q_senders q) True ?s2 = ?s2\<lparr>mss := \<lambda>t. mss s t \<and> t \<notin> set (q_senders q), mtsk_state := S'\<rparr>" (is "_ = ?s3")
    using ss_wakeup_eq [of "q_senders q" True ?s2] by (auto simp: s1_def)
  have F: "free_messages (q_messages q) ?s3 = ?s3\<lparr>msg_hdrs := s32 (msg_hdrs s - int (length (q_messages q)))\<rparr>" (is "_ = ?s4")
    using free_messages_eq [of ?s3 "q_messages q"] totals_s32 [OF msg_invD(2) [OF inv]] by (simp add: s1_def)
  let ?s' = "?s4\<lparr>msg_bytes := s32 (msg_bytes s - uint (q_cbytes q)), msqs := (msqs s)(p := None)\<rparr>"
  have "freeque n s = Some ?s'"
    using ids'(1) q S S' F by (simp add: freeque_def expunge_all_def Let_def s1_def [symmetric]) (simp add: s1_def)
  moreover have "msg_inv ?s' pcs"
    by (rule msg_inv_remove [OF inv p q]) (use msg_invD(4) [OF inv q] ids' in \<open>simp_all add: s1_def que_ok_def s32_diff_uint cong: if_cong\<close>)
  ultimately show ?thesis by blast
qed

lemma msgctl_down_ok:
  assumes inv: "msg_inv s pcs" and n: "msqid_ok n"
  shows "\<exists>e s'. msgctl_down t n cmd sb s = Some (e, s') \<and> msg_inv s' pcs"
  using msg_lock_cases [OF msg_invD(1) [OF inv] n]
proof (elim disjE exE conjE)
  fix p q assume p: "msg_lock n s = Some (Some p)" "slot (msg_ids s) (nat (n mod 32768)) = Some p" "msqs s p = Some q"
  obtain s1 where s1: "freeque n s = Some s1" "msg_inv s1 pcs" using freeque_ok [OF inv n p(2,3)] by blast
  define q' where "q' = q\<lparr>q_qbytes := sb_qbytes sb,
     q_perm := (q_perm q)\<lparr>p_uid := sb_uid sb, p_gid := sb_gid sb, p_mode := (p_mode (q_perm q) AND NOT (word_of_int S_IRWXUGO))
                                          OR (word_of_int S_IRWXUGO AND sb_mode sb)\<rparr>, q_ctime := mcurrent_time s\<rparr>"
  let ?s2 = "put_msq p q' s"
  have inv2: "msg_inv ?s2 pcs" by (rule msg_inv_stamp [OF inv p(3)]) (simp_all add: q'_def)
  have q2: "msqs ?s2 p = Some q'" by (simp add: put_msq_def)
  note rec = receivers_have_msr [OF inv2 q2]
  then have "\<forall>t\<in>set (q_receivers q'). msr ?s2 t \<noteq> None" by auto
  from expunge_eq [OF this, of "- EAGAIN"] obtain S where S: "expunge (q_receivers q') (- EAGAIN) ?s2 = Some
      (?s2\<lparr>msr := \<lambda>t. if t \<in> set (q_receivers q') then map_option (\<lambda>r. r\<lparr>r_msg := Err (- EAGAIN)\<rparr>) (msr ?s2 t) else msr ?s2 t, mtsk_state := S\<rparr>)"
    (is "_ = Some ?s3") ..
  obtain S' where S': "ss_wakeup (q_senders q) False ?s3 = ?s3\<lparr>mss := mss ?s3, mtsk_state := S'\<rparr>"
    using ss_wakeup_eq [of "q_senders q" False ?s3] by auto
  have "map_option (\<lambda>r. r\<lparr>r_msg := Err (- EAGAIN)\<rparr>) (msr ?s2 t) = msr ?s2 t" if "t \<in> set (q_receivers q')" for t
    using rec that by (auto intro: msg_receiver.equality)
  then have "msr ?s3 = msr ?s2" by (simp add: fun_eq_iff)
  then have inv3: "msg_inv (ss_wakeup (q_senders q) False ?s3) pcs" unfolding S' by (intro msg_inv_cong [OF inv2]) simp_all
  show ?thesis using p(1,3) s1 inv inv3 S q2
    by (auto simp: msgctl_down_def Let_def expunge_all_def q'_def [symmetric])
qed (use inv in \<open>simp add: msgctl_down_def\<close>)

lemma sys_msgctl_ok:
  assumes inv: "msg_inv s pcs" and n: "in_int n"
  shows "\<exists>e out s'. sys_msgctl t n cmd arg s = Some (e, out, s') \<and> msg_inv s' pcs"
proof (cases "n < 0 \<or> sint cmd < 0")
  case True
  then show ?thesis using inv by (auto simp: sys_msgctl_def)
next
  case False
  then have ok: "msqid_ok n" using n by (simp add: msqid_ok_def in_int_def)
  obtain v c where v: "ipc_parse_version cmd = (v, c)" by fastforce
  have down: "\<exists>e out s'. map_option (\<lambda>(e, s). (e, No_msg_out, s)) (msgctl_down t n c sb s) = Some (e, out, s') \<and> msg_inv s' pcs" for sb
    using msgctl_down_ok [OF inv ok, of t c sb] by auto
  have info: "\<exists>e out s'. msgctl_info c arg s = (e, out, s') \<and> msg_inv s' pcs"
    using inv by (simp add: msgctl_info_def Let_def)
  have "\<exists>e out. msgctl_stat t n c v arg s = Some (e, out, s)"
    using msg_lock_cases [OF msg_invD(1) [OF inv] ok]
    by (elim disjE exE conjE) (simp_all add: msgctl_stat_def Let_def split: prod.split)
  with down info inv False v show ?thesis by (auto simp: sys_msgctl_def split: option.split)
qed

lemma msg_inv_grown:
  assumes inv: "msg_inv s pcs" and ids: "ids_ok ids" "slot ids = slot (msg_ids s)"
  shows "msg_inv (s\<lparr>msg_ids := ids\<rparr>) pcs"
proof -
  have id: "msg_has_id (s\<lparr>msg_ids := ids\<rparr>) = msg_has_id s" by (simp add: msg_has_id_def fun_eq_iff ids(2))
  have "mpc_ok (s\<lparr>msg_ids := ids\<rparr>) t (pcs t)" for t
    by (rule mpc_ok_same [OF _ _ _ msg_invD(3) [OF inv]]) (auto simp: id)
  moreover have "slot_msgs (s\<lparr>msg_ids := ids\<rparr>) = slot_msgs s" "slot_bytes (s\<lparr>msg_ids := ids\<rparr>) = slot_bytes s"
    by (simp_all add: slot_msgs_def slot_bytes_def fun_eq_iff ids(2) cong: option.case_cong)
  ultimately show ?thesis
    using inv ids unfolding msg_inv_def table_ok_def totals_ok_def rcv_entry_def snd_entry_def by simp
qed

lemma newque_ok:
  assumes inv: "msg_inv s pcs" and mem: "\<And>p. mem = Some p \<Longrightarrow> msqs s p = None"
  shows "\<exists>r s'. newque t key flg mem grow s = Some (r, s') \<and> msg_inv s' pcs"
proof (cases mem)
  case None
  then show ?thesis using inv by (simp add: newque_def)
next
  case (Some p)
  have p: "msqs s p = None" by (rule mem [OF Some])
  note ids = table_okD(1) [OF msg_invD(1) [OF inv]]
  let ?perm = "\<lparr>p_key = 0, p_uid = 0, p_gid = 0, p_cuid = 0, p_cgid = 0, p_mode = 0, p_seq = 0\<rparr> :: kern_ipc_perm"
  obtain n' ids0 where g: "grow_ary grow (msg_ids s) (msg_ctlmni s) = (n', ids0)" by (metis surj_pair)
  note g' = grow_ary_ok [OF ids g]
  have fresh: "\<forall>j. slot (msg_ids s) j \<noteq> Some p" using table_okD(3) [OF msg_invD(1) [OF inv]] p by fastforce
  from ipc_addid_cases [OF ids g, of "mcreds s t" p ?perm] show ?thesis
  proof (elim disjE exE conjE)
    assume r: "ipc_addid (mcreds s t) grow (msg_ids s) p ?perm (msg_ctlmni s) = Some (-1, ids0, ?perm)"
    then show ?thesis using msg_inv_grown [OF inv, of ids0] g' Some by (simp add: newque_def)
  next
    fix i ids' perm assume r: "ipc_addid (mcreds s t) grow (msg_ids s) p ?perm (msg_ctlmni s) = Some (int i, ids', perm)"
      "i < 32768" "slot (msg_ids s) i = None" "slot ids' = (slot (msg_ids s))(i := Some p)"
    have st: "msqs (put_msq p q (s\<lparr>msg_ids := ids'\<rparr>)) = (msqs s)(p \<mapsto> q)" for q by (simp add: put_msq_def)
    have "ids_ok ids'" using addid_new_seq(3) [OF ids r(1)] ipc_added_ok [OF ids _ fresh] by simp
    moreover have "unat (p_seq perm) < 65536" using addid_new_seq(5) [OF ids r(1)] by simp
    ultimately have "msg_inv (put_msq p \<lparr>q_perm = perm\<lparr>p_mode := a, p_key := key\<rparr>, q_stime = 0, q_rtime = 0,
        q_ctime = mcurrent_time s, q_cbytes = 0, q_qnum = 0, q_qbytes = b, q_lspid = 0, q_lrpid = 0,
        q_messages = [], q_receivers = [], q_senders = []\<rparr> (s\<lparr>msg_ids := ids'\<rparr>)) pcs" for a b
      by (intro msg_inv_add [OF inv r(3,2) p _ _ st]) (simp_all add: put_msq_def r(4))
    then show ?thesis using r(1) Some by (simp add: newque_def Let_def)
  qed
qed

lemma sys_msgget_ok:
  assumes inv: "msg_inv s pcs" and mem: "\<And>p. mem = Some p \<Longrightarrow> msqs s p = None"
  shows "\<exists>r s'. sys_msgget t key flg mem grow s = Some (r, s') \<and> msg_inv s' pcs"
proof -
  note tab = msg_invD(1) [OF inv]
  have live: "\<forall>i p. slot (msg_ids s) i = Some p \<longrightarrow> map_option q_perm (msqs s p) \<noteq> None" using table_okD(3) [OF tab] by fastforce
  obtain r where r: "ipc_findkey (\<lambda>p. map_option q_perm (msqs s p)) (msg_ids s) key = Some r"
      "r \<noteq> -1 \<longrightarrow> 0 \<le> r \<and> r < 32768 \<and> (\<exists>p. slot (msg_ids s) (nat r) = Some p)"
    using findkey_live [OF table_okD(1) [OF tab] live, of key] by blast
  obtain r' s' where new: "newque t key flg mem grow s = Some (r', s')" "msg_inv s' pcs"
    using newque_ok [OF inv, of mem t key flg grow, OF mem] by blast
  show ?thesis
  proof (cases "r = -1 \<or> key = IPC_PRIVATE")
    case True
    then show ?thesis using r(1) new inv by (auto simp: sys_msgget_def)
  next
    case False
    then obtain p where p: "slot (msg_ids s) (nat r) = Some p" "0 \<le> r" "r mod 32768 = r" using r(2) by auto
    obtain q where q: "msqs s p = Some q" using table_okD(3) [OF tab p(1)] by blast
    have "msg_lock r s = Some (Some p)" using msg_lock_slot [OF tab p(2)] p(1,3) by simp
    then show ?thesis using False r(1) q inv by (auto simp: sys_msgget_def)
  qed
qed

section \<open>The system\<close>

definition msg_starts :: "msg_world \<Rightarrow> bool" where
  "msg_starts w \<longleftrightarrow> (\<exists>mem s. 0 \<le> msg_ctlmni s \<and> msqs s = Map.empty \<and> msr s = Map.empty \<and> mss s = (\<lambda>_. False) \<and>
     msg_hdrs s = 0 \<and> msg_bytes s = 0 \<and> w = \<lparr>msys = msg_init mem s, mpcs = \<lambda>_. MIdle\<rparr>)"

definition msg_world_ok :: "msg_world \<Rightarrow> bool" where
  "msg_world_ok w \<longleftrightarrow> msg_inv (msys w) (mpcs w)"

lemma msg_starts_ok:
  assumes "msg_starts w"
  shows "msg_world_ok w"
proof -
  obtain mem s where s: "0 \<le> msg_ctlmni s" "msqs s = Map.empty" "msr s = Map.empty" "mss s = (\<lambda>_. False)"
      "msg_hdrs s = 0" "msg_bytes s = 0" "w = \<lparr>msys = msg_init mem s, mpcs = \<lambda>_. MIdle\<rparr>"
    using assms unfolding msg_starts_def by blast
  have none: "slot (msg_ids (msg_init mem s)) i = None" for i
    by (simp add: msg_init_def slot_def ipc_init_ids_def Let_def)
  have z: "slot_msgs (msg_init mem s) = (\<lambda>_. 0)" "slot_bytes (msg_init mem s) = (\<lambda>_. 0)"
    by (simp_all add: slot_msgs_def slot_bytes_def none fun_eq_iff)
  have "table_ok (msg_init mem s)" using init_ids_ok [OF s(1)] none s(2) by (simp add: table_ok_def) (simp add: msg_init_def)
  moreover have "totals_ok (msg_init mem s)" using s(5,6) unfolding totals_ok_def z by (simp add: msg_init_def sum_list_triv s32_def)
  ultimately show ?thesis using s by (simp add: msg_world_ok_def msg_inv_def mpc_ok_def) (simp add: msg_init_def)
qed

lemma msg_resume_ok:
  assumes "msg_inv s pcs" "pcs t = MSleep wt"
  shows "msg_good pcs t (msg_resume t wt sig put wr s)"
  using msgsnd_wakeup_ok [OF assms(1), of t] msgrcv_wakeup_ok [OF assms(1), of t] assms(2)
  by (cases wt) (simp_all add: msg_resume_def)

lemma msg_step_keeps:
  assumes step: "msg_step w w'" and inv: "msg_world_ok w"
  shows "msg_world_ok w'"
  using step inv unfolding msg_world_ok_def
proof (induction rule: msg_step.induct)
  case (msgget w t mem key flg grow r s')
  then show ?case using sys_msgget_ok [OF msgget.prems, of mem t key flg grow, OF msgget.hyps(2)] by auto
next
  case (msgctl w t n cmd arg r out s')
  then show ?case using sys_msgctl_ok [OF msgctl.prems msgctl.hyps(2), of t cmd arg] by auto
next
  case (msgsnd w t n mtype user mem sz flg r s')
  then show ?case using sys_msgsnd_ok [OF msgsnd.prems msgsnd.hyps(1,2), of mtype user mem sz flg] by (simp add: msg_good_def fun_upd_def)
next
  case (msgrcv w t n sz ty flg put wr r s')
  then show ?case using sys_msgrcv_ok [OF msgrcv.prems msgrcv.hyps(1,2), of sz ty flg put wr] by (simp add: msg_good_def fun_upd_def)
next
  case (mresume w t wt sig put wr r s')
  then show ?case using msg_resume_ok [OF mresume.prems mresume.hyps(1), of sig put wr] by (simp add: msg_good_def fun_upd_def)
next
  case (moutside w now cr ou og c1 c2 c3)
  then show ?case by (auto elim!: msg_inv_cong)
qed

interpretation ms: invariant_system msg_starts msg_step msg_world_ok
  by unfold_locales (blast intro: msg_starts_ok msg_step_keeps)+

lemma msg_good_succeeds: "msg_good pcs t res \<Longrightarrow> res \<noteq> None"
  by (auto simp: msg_good_def)

text \<open>C2. Whatever the tasks of a system do, in every state that can be reached no call on message
  queues and no continuation of a sleeping call uses a freed queue, removes an entry from a list
  that it is not on, or reads past the chunks of a message: every section succeeds.\<close>

theorem msg_no_fault:
  assumes start: "msg_starts w0" and run: "msg_step\<^sup>*\<^sup>* w0 w"
  shows "(mpcs w t = MIdle \<longrightarrow> in_int msqid \<longrightarrow>
            sys_msgsnd t msqid mtype user avail msgsz msgflg (msys w) \<noteq> None \<and>
            sys_msgrcv t msqid msgsz msgtyp msgflg put wr (msys w) \<noteq> None \<and>
            sys_msgctl t msqid cmd arg (msys w) \<noteq> None \<and>
            ((\<forall>p. mem = Some p \<longrightarrow> msqs (msys w) p = None) \<longrightarrow> sys_msgget t key msgflg mem grow (msys w) \<noteq> None)) \<and>
         (\<forall>wt. mpcs w t = MSleep wt \<longrightarrow> msg_resume t wt sig put wr (msys w) \<noteq> None)"
proof -
  have inv: "msg_inv (msys w) (mpcs w)" using ms.reachable_inv [OF start run] by (simp add: msg_world_ok_def)
  have "sys_msgget t key msgflg mem grow (msys w) \<noteq> None" if "\<forall>p. mem = Some p \<longrightarrow> msqs (msys w) p = None"
    using sys_msgget_ok [OF inv, of mem t key msgflg grow] that by auto
  moreover have "sys_msgctl t msqid cmd arg (msys w) \<noteq> None" if "in_int msqid"
    using sys_msgctl_ok [OF inv that, of t cmd arg] by auto
  ultimately show ?thesis
    using sys_msgsnd_ok [OF inv, THEN msg_good_succeeds] sys_msgrcv_ok [OF inv, THEN msg_good_succeeds]
      msg_resume_ok [OF inv, THEN msg_good_succeeds] by blast
qed

text \<open>C9. In every reachable state the counters agree with the messages that are stored: each queue
  counts its messages and their bytes, and the system-wide counters are the sums over the
  queues of the table, all to the width of their type.\<close>

theorem msg_accounting:
  assumes start: "msg_starts w0" and run: "msg_step\<^sup>*\<^sup>* w0 w"
  shows "(\<forall>p q. msqs (msys w) p = Some q \<longrightarrow> q_qnum q = of_nat (length (q_messages q)) \<and>
            q_cbytes q = word_of_int (sum_list (map m_ts (q_messages q)))) \<and>
         msg_hdrs (msys w) = s32 (sum_list (map (slot_msgs (msys w)) [0..<32768])) \<and>
         msg_bytes (msys w) = s32 (sum_list (map (slot_bytes (msys w)) [0..<32768]))"
proof -
  have inv: "msg_inv (msys w) (mpcs w)" using ms.reachable_inv [OF start run] by (simp add: msg_world_ok_def)
  show ?thesis using msg_invD(2) [OF inv] msg_invD(4) [OF inv] by (auto simp: totals_ok_def que_ok_def que_bytes_def)
qed

text \<open>C7. In every reachable state a task is on the list of receivers of a queue exactly when it sleeps
  on that queue and has no answer yet, and then no message in the queue is one that it
  would accept: no receiver misses a message.\<close>

theorem msg_no_receiver_missed:
  assumes start: "msg_starts w0" and run: "msg_step\<^sup>*\<^sup>* w0 w"
  shows "(\<exists>q. msqs (msys w) p = Some q \<and> t \<in> set (q_receivers q)) \<longleftrightarrow>
         (\<exists>n sz ty mode flg r. mpcs w t = MSleep (Msgrcv_sleep n p sz ty mode flg) \<and> msr (msys w) t = Some r \<and>
            r_msg r = Err (- EAGAIN) \<and> (\<exists>q. msqs (msys w) p = Some q \<and> (\<forall>m\<in>set (q_messages q). \<not> testmsg m ty mode)))"
    (is "?listed = ?asleep")
proof
  have inv: "msg_inv (msys w) (mpcs w)" using ms.reachable_inv [OF start run] by (simp add: msg_world_ok_def)
  note I = msg_invD(3) [OF inv, of t] msg_invD(5) [OF inv, of p _ t]
  show ?asleep if l: ?listed using l I by (fastforce simp: rcv_entry_def mpc_ok_def)
  show ?listed if a: ?asleep using a I(1) by (auto simp: mpc_ok_def)
qed

end
