(* ===== verification/MsgRuns.thy ===== *)
theory MsgRuns
  imports MsgInv
begin

text \<open>
  To which of the waiting receivers \<open>pipelined_send\<close> gives a message, and a complete run of calls
  on message queues, evaluated, which shows that the states of \<open>MsgInv\<close> are reached.
\<close>

section \<open>Pipelined receive\<close>

text \<open>Whether a waiting receiver accepts the message, and whether its buffer has room for it.\<close>

definition accepts :: "msg_msg \<Rightarrow> msg_receiver \<Rightarrow> bool" where
  "accepts msg r = testmsg msg (r_msgtype r) (r_mode r)"

definition has_room :: "msg_msg \<Rightarrow> msg_receiver \<Rightarrow> bool" where
  "has_room msg r \<longleftrightarrow> m_ts msg \<le> r_maxsize r"

lemma pipelined_loop_refuses:
  assumes "msqs s p = Some q" "distinct (q_receivers q)" "distinct ts" "set ts \<subseteq> set (q_receivers q)"
    "\<forall>t\<in>set ts. msr s t = Some (R t) \<and> \<not> (accepts msg (R t) \<and> has_room msg (R t))"
  shows "\<exists>S. pipelined_loop p msg (ts @ rest) s = pipelined_loop p msg rest
    (s\<lparr>msqs := (msqs s)(p \<mapsto> q\<lparr>q_receivers := filter (\<lambda>t. \<not> (t \<in> set ts \<and> accepts msg (R t))) (q_receivers q)\<rparr>),
       msr := (\<lambda>t. if t \<in> set ts \<and> accepts msg (R t) then Some ((R t)\<lparr>r_msg := Err (- E2BIG)\<rparr>) else msr s t), mtsk_state := S\<rparr>)"
  using assms
proof (induction ts arbitrary: s q)
  case Nil
  then show ?case by (intro exI [of _ "mtsk_state s"]) (simp add: fun_upd_idem)
next
  case (Cons t ts)
  show ?case
  proof (cases "accepts msg (R t)")
    case False
    have e: "(t' \<in> set (t # ts) \<and> accepts msg (R t')) = (t' \<in> set ts \<and> accepts msg (R t'))" for t' using False by auto
    show ?thesis unfolding e using Cons.IH [OF Cons.prems(1,2)] Cons.prems False by (simp add: accepts_def)
  next
    case True
    define q1 where "q1 = q\<lparr>q_receivers := remove1 t (q_receivers q)\<rparr>"
    define s1 where "s1 = msg_wake_up t (put_msq p q1 (s\<lparr>msr := (msr s)(t \<mapsto> (R t)\<lparr>r_msg := Err (- E2BIG)\<rparr>)\<rparr>))"
    have r: "remove1 t (q_receivers q) = filter (\<lambda>x. x \<noteq> t) (q_receivers q)"
      using distinct_remove1_removeAll [OF Cons.prems(2)] by (simp add: removeAll_filter_not_eq eq_commute)
    have q1: "msqs s1 p = Some q1" by (simp add: s1_def msg_upd_defs)
    have D: "distinct (q_receivers q1)" "distinct ts" "set ts \<subseteq> set (q_receivers q1)"
      "\<forall>t\<in>set ts. msr s1 t = Some (R t) \<and> \<not> (accepts msg (R t) \<and> has_room msg (R t))"
      using Cons.prems(2-5) by (auto simp: q1_def r s1_def msg_upd_defs)
    obtain S where S: "pipelined_loop p msg (ts @ rest) s1 = pipelined_loop p msg rest
      (s1\<lparr>msqs := (msqs s1)(p \<mapsto> q1\<lparr>q_receivers := filter (\<lambda>t. \<not> (t \<in> set ts \<and> accepts msg (R t))) (q_receivers q1)\<rparr>),
         msr := (\<lambda>t. if t \<in> set ts \<and> accepts msg (R t) then Some ((R t)\<lparr>r_msg := Err (- E2BIG)\<rparr>) else msr s1 t), mtsk_state := S\<rparr>)"
      using Cons.IH [OF q1 D] by blast
    have F: "filter (\<lambda>t'. \<not> (t' \<in> set ts \<and> accepts msg (R t'))) (q_receivers q1) =
        filter (\<lambda>t'. \<not> (t' \<in> set (t # ts) \<and> accepts msg (R t'))) (q_receivers q)"
      using True by (auto simp: q1_def r intro!: filter_cong)
    have M: "(\<lambda>t'. if t' \<in> set ts \<and> accepts msg (R t') then Some ((R t')\<lparr>r_msg := Err (- E2BIG)\<rparr>) else msr s1 t') =
        (\<lambda>t'. if t' \<in> set (t # ts) \<and> accepts msg (R t') then Some ((R t')\<lparr>r_msg := Err (- E2BIG)\<rparr>) else msr s t')"
      using True by (auto simp: s1_def msg_upd_defs fun_eq_iff)
    have L: "pipelined_loop p msg ((t # ts) @ rest) s = pipelined_loop p msg (ts @ rest) s1"
      using Cons.prems True by (auto simp: accepts_def has_room_def s1_def q1_def Let_def)
    show ?thesis unfolding L S F M
      by (intro exI [of _ S] arg_cong [where f = "pipelined_loop p msg rest"] msg_sys.equality)
        (simp_all add: s1_def q1_def msg_upd_defs fun_eq_iff)
  qed
qed

text \<open>C40. \<open>pipelined_send\<close> gives the message to the first waiting receiver that accepts it and has room
  for it. Each one before it that accepts the message but has no room is taken off the list
  with the error \<open>E2BIG\<close>; all others stay as they are. When there is none to take the message, the
  result is zero and only those without room are taken off.\<close>

theorem pipelined_send_first:
  assumes q: "msqs s p = Some q" "distinct (q_receivers q)" and R: "\<forall>t\<in>set (q_receivers q). msr s t = Some (R t)"
    and pre: "q_receivers q = pre @ post" "\<forall>t\<in>set pre. \<not> (accepts msg (R t) \<and> has_room msg (R t))"
    and post: "post \<noteq> [] \<longrightarrow> accepts msg (R (hd post)) \<and> has_room msg (R (hd post))"
  shows "\<exists>s' q'. pipelined_send p msg s = Some (post \<noteq> [], s') \<and> msqs s' p = Some q' \<and>
    q_receivers q' = filter (\<lambda>t. \<not> accepts msg (R t)) pre @ tl post \<and>
    (\<forall>t. msr s' t = (if t \<in> set pre \<and> accepts msg (R t) then Some ((R t)\<lparr>r_msg := Err (- E2BIG)\<rparr>)
                     else if post \<noteq> [] \<and> t = hd post then Some ((R t)\<lparr>r_msg := Arrived msg\<rparr>) else msr s t))"
proof -
  have d: "distinct pre" "set pre \<subseteq> set (q_receivers q)" "set pre \<inter> set post = {}" "distinct post"
    using q(2) pre(1) by auto
  have pr: "\<forall>t\<in>set pre. msr s t = Some (R t) \<and> \<not> (accepts msg (R t) \<and> has_room msg (R t))" using R pre by auto
  obtain S where S: "pipelined_send p msg s = pipelined_loop p msg post
    (s\<lparr>msqs := (msqs s)(p \<mapsto> q\<lparr>q_receivers := filter (\<lambda>t. \<not> (t \<in> set pre \<and> accepts msg (R t))) (q_receivers q)\<rparr>),
       msr := (\<lambda>t. if t \<in> set pre \<and> accepts msg (R t) then Some ((R t)\<lparr>r_msg := Err (- E2BIG)\<rparr>) else msr s t), mtsk_state := S\<rparr>)"
    using pipelined_loop_refuses [OF q d(1,2) pr, of post] q(1) pre(1) by (auto simp: pipelined_send_def)
  have f: "filter (\<lambda>t. \<not> (t \<in> set pre \<and> accepts msg (R t))) (q_receivers q) = filter (\<lambda>t. \<not> accepts msg (R t)) pre @ post"
    using d(3) unfolding pre(1) filter_append by (intro arg_cong2 [where f = append] filter_cong filter_True) auto
  show ?thesis
  proof (cases post)
    case Nil
    then show ?thesis using S f by simp
  next
    case (Cons t ts)
    have t: "msr s t = Some (R t)" "t \<notin> set pre" "accepts msg (R t)" "has_room msg (R t)" using R pre(1) d(3) post Cons by auto
    have "remove1 t (filter (\<lambda>t. \<not> accepts msg (R t)) pre @ post) = filter (\<lambda>t. \<not> accepts msg (R t)) pre @ ts"
      using t(2) Cons by (simp add: remove1_append)
    then show ?thesis using S f t Cons
      by (auto simp: Let_def accepts_def has_room_def msg_upd_defs)
  qed
qed

section \<open>A run\<close>

definition idle_msgs :: msg_sys where
  "idle_msgs = \<lparr>msg_ids = ipc_init_ids True 4, msg_ctlmax = MSGMAX, msg_ctlmnb = MSGMNB, msg_ctlmni = 4, msg_bytes = 0, msg_hdrs = 0,
     msqs = Map.empty, msr = Map.empty, mss = (\<lambda>_. False), mtsk_state = (\<lambda>_. TASK_RUNNING), mcreds = (\<lambda>_. some_task),
     moverflowuid = 65534, moverflowgid = 65534, mcurrent_time = 0\<rparr>"

text \<open>
  Task 1 creates a queue; task 2 waits for a message of type 5; task 1 sends three bytes with type 3,
  which are stored; task 3 waits for type 5 too, with a larger buffer.
\<close>

definition mrun0 :: msg_world where
  "mrun0 = \<lparr>msys = msg_init True idle_msgs, mpcs = \<lambda>_. MIdle\<rparr>"

definition mrun1 :: msg_world where
  "mrun1 = mrun0\<lparr>msys := snd (the (sys_msgget 1 IPC_PRIVATE 384 (Some 7) True (msys mrun0)))\<rparr>"

definition mrun2 :: msg_world where
  "mrun2 = (case the (sys_msgrcv 2 0 2 5 0 True (\<lambda>_. True) (msys mrun1)) of
              (r, s) \<Rightarrow> mrun1\<lparr>msys := s, mpcs := (mpcs mrun1)(2 := mafter r)\<rparr>)"

definition mrun3 :: msg_world where
  "mrun3 = (case the (sys_msgsnd 1 0 (Some 3) (\<lambda>i. Some (of_nat i)) (\<lambda>_. True) 3 0 (msys mrun2)) of
              (r, s) \<Rightarrow> mrun2\<lparr>msys := s, mpcs := (mpcs mrun2)(1 := mafter r)\<rparr>)"

definition mrun4 :: msg_world where
  "mrun4 = (case the (sys_msgrcv 3 0 9 5 0 True (\<lambda>_. True) (msys mrun3)) of
              (r, s) \<Rightarrow> mrun3\<lparr>msys := s, mpcs := (mpcs mrun3)(3 := mafter r)\<rparr>)"

lemma mrun_values:
  "map_option fst (sys_msgget 1 IPC_PRIVATE 384 (Some 7) True (msys mrun0)) = Some 0"
  "map_option fst (sys_msgrcv 2 0 2 5 0 True (\<lambda>_. True) (msys mrun1)) = Some (MWait (Msgrcv_sleep 0 7 2 5 SEARCH_EQUAL 0))"
  "map_option fst (sys_msgsnd 1 0 (Some 3) (\<lambda>i. Some (of_nat i)) (\<lambda>_. True) 3 0 (msys mrun2)) = Some (MRet 0)"
  "map_option fst (sys_msgrcv 3 0 9 5 0 True (\<lambda>_. True) (msys mrun3)) = Some (MWait (Msgrcv_sleep 0 7 9 5 SEARCH_EQUAL 0))"
  "map_option (\<lambda>q. (q_receivers q, map m_type (q_messages q), q_qnum q, q_cbytes q)) (msqs (msys mrun4) 7) = Some ([2, 3], [3], 1, 3)"
  "map (msr (msys mrun4)) [2, 3] =
     [Some \<lparr>r_mode = SEARCH_EQUAL, r_msgtype = 5, r_maxsize = 2, r_msg = Err (- EAGAIN)\<rparr>,
      Some \<lparr>r_mode = SEARCH_EQUAL, r_msgtype = 5, r_maxsize = 9, r_msg = Err (- EAGAIN)\<rparr>]"
  by code_simp+

lemma mrun_start: "msg_starts mrun0"
  unfolding msg_starts_def mrun0_def by (rule exI [of _ True], rule exI [of _ idle_msgs]) (simp add: idle_msgs_def)

lemma mrun_pcs:
  "mpcs mrun1 = (\<lambda>_. MIdle)" "mpcs mrun2 = (mpcs mrun1)(2 := MSleep (Msgrcv_sleep 0 7 2 5 SEARCH_EQUAL 0))"
  "mpcs mrun3 = (mpcs mrun2)(1 := MIdle)" "mpcs mrun4 = (mpcs mrun3)(3 := MSleep (Msgrcv_sleep 0 7 9 5 SEARCH_EQUAL 0))"
  using mrun_values(2-4) by (auto simp: mrun0_def mrun1_def mrun2_def mrun3_def mrun4_def mafter_def)

lemma mrun_steps: "msg_step mrun0 mrun1" "msg_step mrun1 mrun2" "msg_step mrun2 mrun3" "msg_step mrun3 mrun4"
proof -
  have int: "in_int 0" by (simp add: in_int_def)
  obtain r1 s1 where s1: "sys_msgget 1 IPC_PRIVATE 384 (Some 7) True (msys mrun0) = Some (r1, s1)" using mrun_values(1) by auto
  have "msg_step mrun0 (mrun0\<lparr>msys := s1\<rparr>)"
    by (rule msg_step.msgget [OF _ _ s1]) (simp_all add: mrun0_def msg_init_def idle_msgs_def)
  then show "msg_step mrun0 mrun1" using s1 by (simp add: mrun1_def)
  obtain r2 s2 where s2: "sys_msgrcv 2 0 2 5 0 True (\<lambda>_. True) (msys mrun1) = Some (r2, s2)" using mrun_values(2) by auto
  from msg_step.msgrcv [OF _ int s2] show "msg_step mrun1 mrun2" using s2 by (simp add: mrun_pcs(1) mrun2_def)
  obtain r3 s3 where s3: "sys_msgsnd 1 0 (Some 3) (\<lambda>i. Some (of_nat i)) (\<lambda>_. True) 3 0 (msys mrun2) = Some (r3, s3)"
    using mrun_values(3) by auto
  from msg_step.msgsnd [OF _ int s3] show "msg_step mrun2 mrun3" using s3 by (simp add: mrun_pcs(1,2) mrun3_def)
  obtain r4 s4 where s4: "sys_msgrcv 3 0 9 5 0 True (\<lambda>_. True) (msys mrun3) = Some (r4, s4)" using mrun_values(4) by auto
  from msg_step.msgrcv [OF _ int s4] show "msg_step mrun3 mrun4" using s4 by (simp add: mrun_pcs(1-3) mrun4_def)
qed

lemma mrun_reached: "msg_step\<^sup>*\<^sup>* mrun0 mrun4"
  using mrun_steps by (meson rtranclp.intros)

lemma mrun4_queue:
  "\<exists>q. msqs (msys mrun4) 7 = Some q \<and> q_receivers q = [2, 3] \<and> map m_type (q_messages q) = [3] \<and> q_qnum q = 1"
  using mrun_values(5) by auto

theorem msg_no_fault_witness:
  "msg_resume 2 (Msgrcv_sleep 0 7 2 5 SEARCH_EQUAL 0) True True (\<lambda>_. True) (msys mrun4) \<noteq> None \<and>
   sys_msgrcv 1 0 3 0 0 True (\<lambda>_. True) (msys mrun4) \<noteq> None"
  using msg_no_fault [OF mrun_start mrun_reached, of 2 _ _ _ _ _ _ _ True "\<lambda>_. True" _ _ _ _ _ True]
    msg_no_fault [OF mrun_start mrun_reached, of 1 0 _ _ _ 3 0 0 True "\<lambda>_. True"]
  by (simp add: mrun_pcs in_int_def)

theorem msg_accounting_witness:
  "\<exists>q. msqs (msys mrun4) 7 = Some q \<and> q_qnum q = of_nat (length (q_messages q)) \<and> length (q_messages q) = 1"
  using msg_accounting [OF mrun_start mrun_reached] mrun4_queue by (metis length_map length_Cons list.size(3) One_nat_def)

theorem msg_no_receiver_missed_witness:
  "\<exists>q. msqs (msys mrun4) 7 = Some q \<and> (\<forall>m\<in>set (q_messages q). \<not> testmsg m 5 SEARCH_EQUAL)"
proof -
  have "\<exists>q. msqs (msys mrun4) 7 = Some q \<and> 2 \<in> set (q_receivers q)" using mrun4_queue by auto
  from this [unfolded msg_no_receiver_missed [OF mrun_start mrun_reached]] show ?thesis by (auto simp: mrun_pcs)
qed

definition three_bytes :: msg_msg where
  "three_bytes = \<lparr>m_type = 5, m_ts = 3, m_text = [1, 2, 3], m_segs = []\<rparr>"

theorem pipelined_send_first_witness:
  "\<exists>s' q'. pipelined_send 7 three_bytes (msys mrun4) = Some (True, s') \<and> msqs s' 7 = Some q' \<and> q_receivers q' = [] \<and>
     map_option r_msg (msr s' 2) = Some (Err (- E2BIG)) \<and> map_option r_msg (msr s' 3) = Some (Arrived three_bytes)"
proof -
  obtain q where q: "msqs (msys mrun4) 7 = Some q" "q_receivers q = [2, 3]" using mrun4_queue by blast
  note r = mrun_values(6)
  have d: "distinct (q_receivers q)" "\<forall>t\<in>set (q_receivers q). msr (msys mrun4) t = Some (the (msr (msys mrun4) t))"
    "q_receivers q = [2] @ [3]" using q(2) r by auto
  have a: "accepts three_bytes (the (msr (msys mrun4) 2))" "\<not> has_room three_bytes (the (msr (msys mrun4) 2))"
    "accepts three_bytes (the (msr (msys mrun4) 3))" "has_room three_bytes (the (msr (msys mrun4) 3))"
    using r by (simp_all add: accepts_def has_room_def testmsg_def three_bytes_def)
  obtain s' q' where s': "pipelined_send 7 three_bytes (msys mrun4) = Some (True, s')" "msqs s' 7 = Some q'" "q_receivers q' = []"
      "msr s' 2 = Some ((the (msr (msys mrun4) 2))\<lparr>r_msg := Err (- E2BIG)\<rparr>)"
      "msr s' 3 = Some ((the (msr (msys mrun4) 3))\<lparr>r_msg := Arrived three_bytes\<rparr>)"
    using pipelined_send_first [OF q(1) d, of three_bytes] a by auto
  then show ?thesis by simp
qed

end
