(* ===== verification/Spec2Isabelle.thy ===== *)
theory Spec2Isabelle
  imports Prelude Rwsem ListHead TimerProof ResourceTree BpfProof SemRuns MsgRuns
begin

text \<open>
  A verification of parts of the Linux 2.4.20 kernel for i386 (the sources under src/): timers, the
  resource tree, socket filters, reader/writer semaphores, linked lists, and System V semaphores and
  message queues with the identifier tables below them.

  \<^bold>\<open>How the code is modelled.\<close> A C structure is a record with its fields, a table of structures
  reached by pointers is a store (a map from addresses), and a function is a HOL function of the
  store. Dereferencing \<open>NULL\<close> or freed memory, an index outside an array and \<open>BUG()\<close> are the value
  \<open>None\<close>, so that a theorem that says \<open>Some\<close> also says that none of this happens. Errors that the code
  returns are negative numbers, as in the code. Values of type \<open>unsigned long\<close> are 32-bit words where
  they can wrap; an \<open>int\<close> is an integer of the type's range, with \<open>s32\<close> at every operation that can
  leave it (theory \<open>Prelude\<close>). Code that holds a spinlock is one atomic step; a call that gives the lock
  up to sleep or to allocate is split there, and the theories on concurrent use (\<open>Rwsem\<close>, \<open>SemSystem\<close>,
  \<open>MsgSystem\<close>) let any number of tasks interleave such steps. The results of \<open>kmalloc\<close> and of copies
  from and to user space are arguments, so every theorem covers every combination of their failures.

  \<^bold>\<open>Timers\<close> (kernel/timer.c; \<open>Timer\<close>, \<open>TimerProof\<close>). The wheel \<open>wheel\<close> has the five vectors \<open>tv1\<close> to \<open>tv5\<close>;
  \<open>internal_add_timer\<close>, \<open>add_timer\<close>, \<open>mod_timer\<close>, \<open>del_timer\<close>, \<open>cascade_timers\<close> and \<open>run_timer_list\<close> are
  definitions of the same names. The invariant says in which slot a pending timer is, with
  wrapping \<open>jiffies\<close>. A timer runs exactly at its tick, \<open>mod_timer\<close> moves it and \<open>del_timer\<close> cancels it.

  \<^bold>\<open>Resources\<close> (kernel/resource.c; \<open>Resource\<close>, \<open>ResourceTree\<close>). \<open>request_resource0\<close> and \<open>release_resource0\<close>
  are the functions with two leading underscores. The loops are partial functions; the theorems show that
  they return on every well-formed tree. A request succeeds exactly for a free range, an allocation
  yields a free aligned range, a region that is released leaves the tree as it was.

  \<^bold>\<open>Packets and filters\<close> (net/core/skbuff.c, net/core/filter.c; \<open>Skb\<close>, \<open>Bpf\<close>, \<open>BpfProof\<close>). \<open>skb_copy_bits\<close> reads the
  bytes of the packet across the linear part, the page fragments and the fragment list.
  The loop of \<open>sk_run_filter\<close> is a partial function; a program that \<open>sk_chk_filter\<close> accepts is shown to
  return, since its jumps go forward. Accepted programs stay in their memory except for one load,
  which is a finding.

  \<^bold>\<open>Reader/writer semaphores\<close> (lib/rwsem-spinlock.c; \<open>Rwsem\<close>). The step relation \<open>rw_step\<close> interleaves all
  tasks; mutual exclusion and the progress of the first waiter are shown for every reachable state.

  \<^bold>\<open>Lists\<close> (include/linux/list.h; \<open>ListHead\<close>). The ring of pointers refines a list of entries, which is
  why the other theories use lists; the locale there is the interface and is interpreted on the code's
  functions.

  \<^bold>\<open>Identifiers and permissions\<close> (ipc/util.c, ipc/util.h; \<open>IpcUtil\<close>). The contract of an identifier table is the
  locale \<open>id_table\<close>, interpreted on \<open>ipc_addid\<close>, \<open>ipc_rmid\<close> and \<open>ipc_lock\<close>; semaphores and message queues
  rest on its facts.

  \<^bold>\<open>System V semaphores\<close> (ipc/sem.c). \<open>Sem\<close> has the whole file but the listing in /proc. \<open>SemAtomic\<close>: an array of
  operations is performed as a whole or not at all. \<open>SemSystem\<close>: the interleaving \<open>sem_step\<close> and the
  invariant \<open>sem_inv\<close>, which speaks about a view of the state without the values. \<open>SemUpdate\<close>, \<open>SemSafe\<close>,
  \<open>SemCalls\<close>, \<open>SemControl\<close> and \<open>SemInv\<close> show that every section of every call keeps it: update_queue;
  what a section has to keep, and trying and sleeping; the rest of \<open>sys_semop\<close>; \<open>sys_semctl\<close>; \<open>sys_semget\<close>,
  \<open>sem_exit\<close> and the system as a whole, as two interpretations of \<open>invariant_system\<close>. In every reachable
  state no call faults, values and queues are in order, and, for operations that do not
  mix, no wakeup is lost. \<open>SemRuns\<close> has complete runs: the witnesses, and the lost wakeup of mixed operations,
  the value beyond \<open>SEMVMX\<close> and the stack contents that the code lets out.

  \<^bold>\<open>System V message queues\<close> (ipc/msg.c). \<open>Msg\<close> has the whole file but the listing in /proc. \<open>MsgText\<close>: a text
  survives being split into chunks and put together, the loops end, and the search finds the message
  that the caller asks for. \<open>MsgSystem\<close>: the interleaving \<open>msg_step\<close> of all tasks and the invariant \<open>msg_inv\<close> (books,
  identifiers, who is on which list). \<open>MsgInv\<close>: every section of every call keeps it, a further interpretation
  of \<open>invariant_system\<close>; in every reachable state no call faults, the counters are right and no receiver
  sleeps while a message that it accepts is in the queue. \<open>MsgRuns\<close>: to whom \<open>pipelined_send\<close> gives a
  message, and a complete run with the witnesses.

  \<^bold>\<open>Bounds.\<close> There is fuel only in the walk of a ring (\<open>list_for_each\<close>; one more than its entries is enough) and in
  the whole of \<open>sem_exit\<close> (the number of undo structures). The other loops that could run on are partial functions
  that are shown to return, or functions with a proof of termination. Identifier tables have at most 32768 slots and
  sequence numbers below 65536, as in the code.

  \<^bold>\<open>Not modelled.\<close> Of the modelled files: what prints to /proc, the SMP-only functions of the timer
  code and its clock discipline, allocation and cloning of socket buffers, \<open>free_msg\<close> (a message is a
  value). Memory effects between instructions of one atomic section are not visible to other
  tasks in the models, so races outside the locks are not covered. The rest of the kernel (scheduling, memory
  management, file systems, protocols, drivers, architecture code) works on hardware, page tables and
  devices whose behaviour is not part of the sources; the manifest of the development lists these parts.
\<close>

end
